(* ===== verification/Prelude.thy ===== *)
theory Prelude
  imports Main "HOL-Library.Word"
begin

unbundle bit_operations_syntax

text \<open>
  What every theory of the library shares: the machine integers of the firmware as words,
  Rust's slices, byte-order conversions, bounded vectors (\<^verbatim>\<open>heapless::Vec\<close>) and the
  \<^verbatim>\<open>chunks\<close> iterator as list functions, with the lemmas the component theories rely on.
  A fallible operation (\<^verbatim>\<open>Result\<close>) is a sum \<open>'e + 'a\<close> with the error on the left; an operation
  that can panic returns an option, \<open>None\<close> being the panic.
\<close>

type_synonym u8 = "8 word"
type_synonym u16 = "16 word"
type_synonym u32 = "32 word"
type_synonym u64 = "64 word"

named_theorems const_defs \<open>the constants of the source, to be unfolded when a proof computes\<close>
named_theorems codec_simps \<open>byte-order conversions in both directions\<close>

text \<open>Shifts stay shifts: proofs look at single bits, not at multiplications by two.\<close>

declare push_bit_Suc [simp del] drop_bit_Suc [simp del]

subsection \<open>Exclusive or\<close>

lemma xor_eq_0_iff: "x XOR y = 0 \<longleftrightarrow> x = (y::'a::len word)"
  by (metis xor.right_neutral xor_self_eq xor.left_commute)

lemma xor_cancel_right [simp]: "x XOR z = y XOR z \<longleftrightarrow> x = (y::'a::len word)"
  by (metis xor.assoc xor_self_eq xor.right_neutral)

lemma xor_cancel_left [simp]: "z XOR x = z XOR y \<longleftrightarrow> x = (y::'a::len word)"
  by (metis xor.assoc xor_self_eq xor.left_neutral)

subsection \<open>Byte order\<close>

definition be16 :: "u16 \<Rightarrow> u8 list" where
  "be16 w = [ucast (drop_bit 8 w), ucast w]"

definition from_be16 :: "u8 \<Rightarrow> u8 \<Rightarrow> u16" where
  "from_be16 hi lo = push_bit 8 (ucast hi) OR ucast lo"

definition be32 :: "u32 \<Rightarrow> u8 list" where
  "be32 w = [ucast (drop_bit 24 w), ucast (drop_bit 16 w), ucast (drop_bit 8 w), ucast w]"

definition from_be32 :: "u8 \<Rightarrow> u8 \<Rightarrow> u8 \<Rightarrow> u8 \<Rightarrow> u32" where
  "from_be32 a b c d =
     push_bit 24 (ucast a) OR push_bit 16 (ucast b) OR push_bit 8 (ucast c) OR ucast d"

definition le16 :: "u16 \<Rightarrow> u8 list" where
  "le16 w = [ucast w, ucast (drop_bit 8 w)]"

definition le32 :: "u32 \<Rightarrow> u8 list" where
  "le32 w = [ucast w, ucast (drop_bit 8 w), ucast (drop_bit 16 w), ucast (drop_bit 24 w)]"

lemma length_be16 [simp]: "length (be16 w) = 2"
  by (simp add: be16_def)

lemma length_be32 [simp]: "length (be32 w) = 4"
  by (simp add: be32_def)

lemma length_le16 [simp]: "length (le16 w) = 2"
  by (simp add: le16_def)

lemma length_le32 [simp]: "length (le32 w) = 4"
  by (simp add: le32_def)

lemma from_be16_be16 [codec_simps]: "from_be16 (be16 w ! 0) (be16 w ! 1) = w"
proof (rule bit_word_eqI)
  fix n assume "n < LENGTH(16)"
  then show "bit (from_be16 (be16 w ! 0) (be16 w ! 1)) n = bit w n"
    by (cases "n < 8") (auto simp: from_be16_def be16_def bit_simps)
qed

lemma from_be16_be16_Suc [codec_simps]: "from_be16 (be16 w ! 0) (be16 w ! Suc 0) = w"
  using from_be16_be16 [of w] by simp

lemma from_be16_split [codec_simps]: "from_be16 (ucast (drop_bit 8 w)) (ucast w) = w"
  using from_be16_be16 [of w] by (simp add: be16_def)

lemma be16_from_be16 [codec_simps]: "be16 (from_be16 hi lo) = [hi, lo]"
proof -
  have "ucast (drop_bit 8 (from_be16 hi lo)) = hi"
    by (rule bit_word_eqI) (auto simp: from_be16_def bit_simps dest: bit_imp_le_length)
  moreover have "ucast (from_be16 hi lo) = lo"
    by (rule bit_word_eqI) (auto simp: from_be16_def bit_simps)
  ultimately show ?thesis by (simp add: be16_def)
qed

lemma from_be32_be32 [codec_simps]:
  "from_be32 (be32 w ! 0) (be32 w ! 1) (be32 w ! 2) (be32 w ! 3) = w"
proof (rule bit_word_eqI)
  fix n assume "n < LENGTH(32)"
  then consider "n < 8" | "8 \<le> n" "n < 16" | "16 \<le> n" "n < 24" | "24 \<le> n" "n < 32"
    by fastforce
  then show "bit (from_be32 (be32 w ! 0) (be32 w ! 1) (be32 w ! 2) (be32 w ! 3)) n = bit w n"
    by cases (auto simp: from_be32_def be32_def bit_simps)
qed

subsection \<open>Slices, bounded vectors, chunks\<close>

text \<open>\<^verbatim>\<open>&xs[a..b]\<close> for \<open>a \<le> b \<le> length xs\<close>; every use below is behind a bound check of the source.\<close>

definition sub_slice :: "nat \<Rightarrow> nat \<Rightarrow> 'a list \<Rightarrow> 'a list" where
  "sub_slice a b xs = take (b - a) (drop a xs)"

text \<open>\<^verbatim>\<open>xs[a..a + ys.len()].copy_from_slice(ys)\<close>.\<close>

definition blit :: "nat \<Rightarrow> 'a list \<Rightarrow> 'a list \<Rightarrow> 'a list" where
  "blit a ys xs = take a xs @ ys @ drop (a + length ys) xs"

text \<open>\<^verbatim>\<open>Vec::extend_from_slice\<close> of a vector of capacity \<open>cap\<close>: all or nothing.\<close>

definition vec_extend :: "nat \<Rightarrow> 'a list \<Rightarrow> 'a list \<Rightarrow> 'a list option" where
  "vec_extend cap xs ys = (if length xs + length ys \<le> cap then Some (xs @ ys) else None)"

definition vec_push :: "nat \<Rightarrow> 'a list \<Rightarrow> 'a \<Rightarrow> 'a list option" where
  "vec_push cap xs y = vec_extend cap xs [y]"

text \<open>\<^verbatim>\<open>xs.chunks(n)\<close>; Rust panics for \<open>n = 0\<close>, which no caller passes.\<close>

function chunks :: "nat \<Rightarrow> 'a list \<Rightarrow> 'a list list" where
  "chunks n xs = (if xs = [] \<or> n = 0 then [] else take n xs # chunks n (drop n xs))"
  by pat_completeness auto
termination
  by (relation "measure (\<lambda>(n, xs). length xs)") auto

declare chunks.simps [simp del]

lemma length_sub_slice [simp]: "b \<le> length xs \<Longrightarrow> length (sub_slice a b xs) = b - a"
  by (simp add: sub_slice_def)

lemma length_blit [simp]: "a + length ys \<le> length xs \<Longrightarrow> length (blit a ys xs) = length xs"
  by (simp add: blit_def)

lemma nth_sub_slice: "a + i < b \<Longrightarrow> b \<le> length xs \<Longrightarrow> sub_slice a b xs ! i = xs ! (a + i)"
  by (simp add: sub_slice_def)

lemma sub_slice_blit: "a + length ys \<le> length xs \<Longrightarrow> sub_slice a (a + length ys) (blit a ys xs) = ys"
  by (simp add: sub_slice_def blit_def)

lemma nth_blit:
  assumes "a + length ys \<le> length xs" and "i < length xs"
  shows "blit a ys xs ! i = (if a \<le> i \<and> i < a + length ys then ys ! (i - a) else xs ! i)"
  using assms by (auto simp: blit_def nth_append)

lemma chunks_Nil [simp]: "chunks n [] = []"
  by (simp add: chunks.simps)

lemma chunks_step: "xs \<noteq> [] \<Longrightarrow> 0 < n \<Longrightarrow> chunks n xs = take n xs # chunks n (drop n xs)"
  by (subst chunks.simps) simp

lemma concat_chunks: "0 < n \<Longrightarrow> concat (chunks n xs) = xs"
proof (induction n xs rule: chunks.induct)
  case (1 n xs)
  show ?case
  proof (cases "xs = []")
    case True
    then show ?thesis by simp
  next
    case False
    with 1 show ?thesis by (simp add: chunks_step)
  qed
qed

lemma chunks_sizes: "c \<in> set (chunks n xs) \<Longrightarrow> c \<noteq> [] \<and> length c \<le> n"
proof (induction n xs rule: chunks.induct)
  case (1 n xs)
  show ?case
  proof (cases "xs = [] \<or> n = 0")
    case True
    with 1 show ?thesis by (simp add: chunks.simps [of n xs])
  next
    case False
    with 1 show ?thesis by (auto simp: chunks.simps [of n xs])
  qed
qed

lemma vec_extend_length: "vec_extend cap xs ys = Some zs \<Longrightarrow> length zs \<le> cap"
  by (auto simp: vec_extend_def split: if_splits)

subsection \<open>Saturating arithmetic\<close>

definition saturating_inc :: "'a::len word \<Rightarrow> 'a word" where
  "saturating_inc w = (if w = - 1 then w else w + 1)"

definition saturating_dec :: "'a::len word \<Rightarrow> 'a word" where
  "saturating_dec w = (if w = 0 then 0 else w - 1)"

lemma unat_inc: "w \<noteq> - 1 \<Longrightarrow> unat (w + 1) = Suc (unat (w::'a::len word))"
  using unatSuc [of w] by (simp add: add.commute add_eq_0_iff)

lemma saturating_inc_less: "w \<noteq> - 1 \<Longrightarrow> w < saturating_inc (w::'a::len word)"
  by (simp add: saturating_inc_def word_less_nat_alt unat_inc)

lemma saturating_inc_ge: "w \<le> saturating_inc (w::'a::len word)"
  by (cases "w = - 1") (auto simp: saturating_inc_def word_le_nat_alt unat_inc)

subsection \<open>Codecs\<close>

text \<open>
  The contract of an encoder and a decoder over the values \<open>valid\<close> describes: decoding inverts
  encoding, and nothing but an encoding decodes.
\<close>

locale codec =
  fixes enc :: "'a \<Rightarrow> 'b"
    and dec :: "'b \<Rightarrow> 'a option"
    and valid :: "'a \<Rightarrow> bool"
  assumes dec_enc: "valid x \<Longrightarrow> dec (enc x) = Some x"
    and dec_sound: "dec y = Some x \<Longrightarrow> valid x \<and> y = enc x"
begin

lemma dec_iff: "dec y = Some x \<longleftrightarrow> valid x \<and> y = enc x"
  by (auto simp: dec_enc dest: dec_sound)

lemma enc_inj: "valid x \<Longrightarrow> valid y \<Longrightarrow> enc x = enc y \<longleftrightarrow> x = y"
  by (metis dec_enc option.inject)

lemma dec_unique: "dec y = Some x \<Longrightarrow> dec z = Some x \<Longrightarrow> y = z"
  by (simp add: dec_iff)

end

end
