(* ===== verification/Crc.thy ===== *)
theory Crc
  imports Prelude
begin

text \<open>
  The checksums of the wire protocol: \<^verbatim>\<open>packet/crc16.rs\<close>, \<^verbatim>\<open>packet/crc32.rs\<close>, the incremental
  engines of \<^verbatim>\<open>crc.rs\<close> with their trait as the locale \<open>crc_engine\<close>, and the DMA-sniffer engines
  of \<^verbatim>\<open>crc_sniffer.rs\<close>, whose hardware is a parameter.  The lemmas give the engines' equivalence
  with the one-shot functions for every way of cutting the data, the reflection argument that
  makes the sniffer agree with the software, and the error detection the packet layer rests on.
\<close>

subsection \<open>CRC-16-CCITT\<close>

definition CRC16_POLY :: u16 where [const_defs]: "CRC16_POLY = 0x1021"
definition CRC16_INIT :: u16 where [const_defs]: "CRC16_INIT = 0xFFFF"

definition crc16_bit :: "u16 \<Rightarrow> u16" where
  "crc16_bit crc =
     (if crc AND 0x8000 \<noteq> 0 then push_bit 1 crc XOR CRC16_POLY else push_bit 1 crc)"

definition crc16_byte :: "u16 \<Rightarrow> u8 \<Rightarrow> u16" where
  "crc16_byte crc b = (crc16_bit ^^ 8) (crc XOR push_bit 8 (ucast b))"

definition crc16_compute :: "u8 list \<Rightarrow> u16" where
  "crc16_compute buf = foldl crc16_byte CRC16_INIT buf"

subsection \<open>CRC-32\<close>

definition CRC32_POLY :: u32 where [const_defs]: "CRC32_POLY = 0xEDB88320"
definition CRC32_INIT :: u32 where [const_defs]: "CRC32_INIT = 0xFFFFFFFF"
definition CRC32_XOROUT :: u32 where [const_defs]: "CRC32_XOROUT = 0xFFFFFFFF"

definition crc32_bit :: "u32 \<Rightarrow> u32" where
  "crc32_bit state =
     (let lsb_set = (state AND 1 \<noteq> 0); state' = drop_bit 1 state
      in if lsb_set then state' XOR CRC32_POLY else state')"

definition crc32_byte :: "u32 \<Rightarrow> u8 \<Rightarrow> u32" where
  "crc32_byte state b = (crc32_bit ^^ 8) (state XOR ucast b)"

definition crc32_compute :: "u8 list \<Rightarrow> u32" where
  "crc32_compute buf = foldl crc32_byte CRC32_INIT buf XOR CRC32_XOROUT"

subsection \<open>The engine trait and its software implementations\<close>

text \<open>
  The traits \<^verbatim>\<open>Crc16Engine\<close> and \<^verbatim>\<open>Crc32Engine\<close> have the same three operations; the laws say what
  a caller may rely on.  The client lemma is that a stream may be cut anywhere.
\<close>

locale crc_engine =
  fixes new :: 's
    and reset :: "'s \<Rightarrow> 's"
    and update :: "'s \<Rightarrow> u8 list \<Rightarrow> 's"
    and finalize :: "'s \<Rightarrow> 'c"
    and compute :: "u8 list \<Rightarrow> 'c"
  assumes reset_new: "reset s = new"
    and update_append: "update (update s xs) ys = update s (xs @ ys)"
    and update_Nil: "update s [] = s"
    and finalize_update: "finalize (update new xs) = compute xs"
begin

lemma update_stream: "foldl update s xss = update s (concat xss)"
  by (induction xss arbitrary: s) (simp_all add: update_Nil update_append)

lemma stream_compute: "finalize (foldl update (reset s) xss) = compute (concat xss)"
  by (simp add: reset_new update_stream finalize_update)

end

record crc16_engine =
  crc16_state :: u16

record crc32_engine =
  crc32_state :: u32

definition crc16_new :: crc16_engine where
  "crc16_new = \<lparr>crc16_state = CRC16_INIT\<rparr>"

definition crc16_reset :: "crc16_engine \<Rightarrow> crc16_engine" where
  "crc16_reset e = e\<lparr>crc16_state := CRC16_INIT\<rparr>"

definition crc16_update :: "crc16_engine \<Rightarrow> u8 list \<Rightarrow> crc16_engine" where
  "crc16_update e data = e\<lparr>crc16_state := foldl crc16_byte (crc16_state e) data\<rparr>"

definition crc16_finalize :: "crc16_engine \<Rightarrow> u16" where
  "crc16_finalize e = crc16_state e"

definition crc32_new :: crc32_engine where
  "crc32_new = \<lparr>crc32_state = CRC32_INIT\<rparr>"

definition crc32_reset :: "crc32_engine \<Rightarrow> crc32_engine" where
  "crc32_reset e = e\<lparr>crc32_state := CRC32_INIT\<rparr>"

definition crc32_update :: "crc32_engine \<Rightarrow> u8 list \<Rightarrow> crc32_engine" where
  "crc32_update e data = e\<lparr>crc32_state := foldl crc32_byte (crc32_state e) data\<rparr>"

definition crc32_finalize :: "crc32_engine \<Rightarrow> u32" where
  "crc32_finalize e = crc32_state e XOR CRC32_XOROUT"

interpretation sw16: crc_engine crc16_new crc16_reset crc16_update crc16_finalize crc16_compute
  by unfold_locales
    (simp_all add: crc16_new_def crc16_reset_def crc16_update_def crc16_finalize_def
      crc16_compute_def)

interpretation sw32: crc_engine crc32_new crc32_reset crc32_update crc32_finalize crc32_compute
  by unfold_locales
    (simp_all add: crc32_new_def crc32_reset_def crc32_update_def crc32_finalize_def
      crc32_compute_def)

subsection \<open>Linearity and injectivity of the CRC-16 step\<close>

lemma crc16_msb: "crc AND 0x8000 \<noteq> 0 \<longleftrightarrow> bit (crc::u16) 15"
  using bit_iff_and_push_bit_not_eq_0 [of crc 15] by simp

lemma crc16_bit_linear: "crc16_bit (x XOR y) = crc16_bit x XOR crc16_bit y"
  by (auto simp: crc16_bit_def crc16_msb bit_xor_iff push_bit_xor ac_simps
      simp del: push_bit_of_1 intro: bit_word_eqI)

lemma crc16_bit_eq_0: "crc16_bit x = 0 \<longleftrightarrow> x = 0"
proof
  assume z: "crc16_bit x = 0"
  have "bit (crc16_bit x) 0 \<longleftrightarrow> bit x 15"
    by (simp add: crc16_bit_def crc16_msb bit_0 CRC16_POLY_def even_xor_iff)
  with z have msb: "\<not> bit x 15" by simp
  with z have sh: "push_bit 1 x = 0" by (simp add: crc16_bit_def crc16_msb)
  show "x = 0"
  proof (rule bit_word_eqI)
    fix n assume n: "n < LENGTH(16)"
    show "bit x n = bit 0 n"
    proof (cases "n = 15")
      case True
      with msb show ?thesis by simp
    next
      case False
      with n have "bit (push_bit 1 x) (Suc n) = bit x n"
        by (simp add: bit_push_bit_iff)
      with sh show ?thesis by simp
    qed
  qed
next
  assume "x = 0"
  then show "crc16_bit x = 0" by (simp add: crc16_bit_def)
qed

lemma crc16_bits_linear: "(crc16_bit ^^ n) (x XOR y) = (crc16_bit ^^ n) x XOR (crc16_bit ^^ n) y"
  by (induction n) (simp_all add: crc16_bit_linear)

lemma crc16_bits_eq_0: "(crc16_bit ^^ n) x = 0 \<longleftrightarrow> x = 0"
  by (induction n) (simp_all add: crc16_bit_eq_0)

lemma crc16_bits_inj: "(crc16_bit ^^ n) x = (crc16_bit ^^ n) y \<longleftrightarrow> x = y"
  by (metis crc16_bits_linear crc16_bits_eq_0 xor_eq_0_iff)

subsection \<open>Error detection\<close>

lemma crc16_byte_inj: "crc16_byte s b = crc16_byte t b \<longleftrightarrow> s = t"
  by (simp add: crc16_byte_def crc16_bits_inj)

lemma crc16_fold_inj: "foldl crc16_byte s bs = foldl crc16_byte t bs \<longleftrightarrow> s = t"
  by (induction bs arbitrary: s t) (simp_all add: crc16_byte_inj)

text \<open>Eight steps shift a clean low byte up: no reduction happens before bit 15 is reached.\<close>

lemma crc16_bits_low:
  "k \<le> 8 \<Longrightarrow> (crc16_bit ^^ k) (ucast (b::u8)) = push_bit k (ucast b)"
proof (induction k)
  case 0
  then show ?case by simp
next
  case (Suc k)
  then have "\<not> bit (push_bit k (ucast b :: u16)) 15"
    by (auto simp: bit_push_bit_iff bit_ucast_iff dest: bit_imp_le_length)
  then have "crc16_bit (push_bit k (ucast b)) = push_bit 1 (push_bit k (ucast b))"
    by (simp only: crc16_bit_def crc16_msb if_False)
  with Suc show ?case
    by (simp only: funpow.simps comp_apply push_bit_push_bit) simp
qed

lemma crc16_two_bytes:
  "foldl crc16_byte s [b1, b2] = (crc16_bit ^^ 16) (s XOR from_be16 b1 b2)"
proof -
  have low: "push_bit 8 (ucast b2) = (crc16_bit ^^ 8) (ucast b2)"
    using crc16_bits_low [of 8 b2] by simp
  have or: "from_be16 b1 b2 = push_bit 8 (ucast b1) XOR ucast b2"
    by (rule bit_word_eqI) (auto simp: from_be16_def bit_simps dest: bit_imp_le_length)
  have "foldl crc16_byte s [b1, b2] =
      (crc16_bit ^^ 8) ((crc16_bit ^^ 8) (s XOR push_bit 8 (ucast b1)) XOR (crc16_bit ^^ 8) (ucast b2))"
    by (simp add: crc16_byte_def low)
  also have "\<dots> = (crc16_bit ^^ 8) ((crc16_bit ^^ 8) (s XOR from_be16 b1 b2))"
    by (simp only: crc16_bits_linear [symmetric] or xor.assoc)
  also have "\<dots> = (crc16_bit ^^ (8 + 8)) (s XOR from_be16 b1 b2)"
    by (simp only: funpow_add comp_apply)
  finally show ?thesis by simp
qed

lemma from_be16_inj: "from_be16 a b = from_be16 c d \<longleftrightarrow> a = c \<and> b = d"
  by (metis be16_from_be16 list.inject)

lemma crc16_two_bytes_inj:
  "foldl crc16_byte s [b1, b2] = foldl crc16_byte s [c1, c2] \<longleftrightarrow> b1 = c1 \<and> b2 = c2"
  by (simp only: crc16_two_bytes crc16_bits_inj from_be16_inj xor_cancel_left)

text \<open>Appending the checksum, high byte first, brings the register to zero, and only that does.\<close>

lemma crc16_residue: "foldl crc16_byte s [hi, lo] = 0 \<longleftrightarrow> from_be16 hi lo = s"
  by (simp only: crc16_two_bytes crc16_bits_eq_0 xor_eq_0_iff) auto

lemma crc16_residue_append:
  "foldl crc16_byte s (data @ [hi, lo]) = 0 \<longleftrightarrow> foldl crc16_byte s data = from_be16 hi lo"
  using crc16_residue [of "foldl crc16_byte s data" hi lo] by auto

text \<open>
  A burst confined to two neighbouring bytes changes the register: split the two streams around it.
\<close>

lemma crc16_burst:
  assumes len: "length ys = length xs"
    and same: "\<And>j. j < length xs \<Longrightarrow> j \<noteq> i \<Longrightarrow> j \<noteq> Suc i \<Longrightarrow> ys ! j = xs ! j"
    and crc: "foldl crc16_byte s xs = foldl crc16_byte s ys"
    and i: "Suc i < length xs"
  shows "ys = xs"
proof -
  have split: "zs = take i zs @ [zs ! i, zs ! Suc i] @ drop (i + 2) zs"
    if "length zs = length xs" for zs :: "u8 list"
    using that i by (simp add: Cons_nth_drop_Suc flip: id_take_nth_drop)
  have pre: "take i ys = take i xs"
    using len same i by (intro nth_equalityI) auto
  have post: "drop (i + 2) ys = drop (i + 2) xs"
    using len same i by (intro nth_equalityI) auto
  let ?s = "foldl crc16_byte s (take i xs)"
  have "foldl crc16_byte s zs =
      foldl crc16_byte (foldl crc16_byte (foldl crc16_byte s (take i zs)) [zs ! i, zs ! Suc i])
        (drop (i + 2) zs)" if "length zs = length xs" for zs
  proof -
    from split [OF that] have "foldl crc16_byte s zs =
        foldl crc16_byte s (take i zs @ [zs ! i, zs ! Suc i] @ drop (i + 2) zs)"
      by (rule arg_cong)
    then show ?thesis by (simp only: foldl_append)
  qed
  from this [of xs] this [of ys] crc len pre post
  have "foldl crc16_byte ?s [xs ! i, xs ! Suc i] = foldl crc16_byte ?s [ys ! i, ys ! Suc i]"
    by (simp only: crc16_fold_inj)
  then have mid: "xs ! i = ys ! i" "xs ! Suc i = ys ! Suc i"
    by (simp_all only: crc16_two_bytes_inj)
  have "ys = take i ys @ [ys ! i, ys ! Suc i] @ drop (i + 2) ys"
    by (rule split [OF len])
  also have "\<dots> = take i xs @ [xs ! i, xs ! Suc i] @ drop (i + 2) xs"
    by (simp only: pre mid post)
  also have "\<dots> = xs"
    by (rule split [OF refl, symmetric])
  finally show ?thesis .
qed

subsection \<open>The DMA sniffer\<close>

text \<open>
  \<^verbatim>\<open>crc_sniffer.rs\<close> drives the RP2350's sniffer through its registers.  The checksum unit itself is
  hardware: the parameter \<open>unit\<close> gives the accumulator after one byte.  The read-side transforms
  are applied when \<^verbatim>\<open>SNIFF_DATA\<close> is read, as the module's documentation states.
\<close>

datatype calc = Calc_CRC32R | Calc_CRC16

record sniffer =
  sn_en :: bool
  sn_dmach :: nat
  sn_calc :: calc
  sn_bswap :: bool
  sn_out_rev :: bool
  sn_out_inv :: bool
  sn_data :: u32

definition DMA_CH_SNIFF :: nat where [const_defs]: "DMA_CH_SNIFF = 5"

definition sniff_configure :: "calc \<Rightarrow> bool \<Rightarrow> bool \<Rightarrow> sniffer \<Rightarrow> sniffer" where
  "sniff_configure c out_rev out_inv h =
     h\<lparr>sn_en := False, sn_dmach := DMA_CH_SNIFF, sn_calc := c, sn_bswap := False,
       sn_out_rev := out_rev, sn_out_inv := out_inv\<rparr>"

definition sniff_run :: "(calc \<Rightarrow> u32 \<Rightarrow> u8 \<Rightarrow> u32) \<Rightarrow> u8 list \<Rightarrow> sniffer \<Rightarrow> sniffer" where
  "sniff_run unit data h =
     (let h1 = h\<lparr>sn_en := True\<rparr>;
          h2 = (if sn_en h1 \<and> sn_dmach h1 = DMA_CH_SNIFF
                then h1\<lparr>sn_data := foldl (unit (sn_calc h1)) (sn_data h1) data\<rparr> else h1)
      in h2\<lparr>sn_en := False\<rparr>)"

definition sniff_read :: "sniffer \<Rightarrow> u32" where
  "sniff_read h =
     (let v = (if sn_out_rev h then word_reverse (sn_data h) else sn_data h)
      in if sn_out_inv h then NOT v else v)"

definition hw_compute_crc32 ::
    "(calc \<Rightarrow> u32 \<Rightarrow> u8 \<Rightarrow> u32) \<Rightarrow> sniffer \<Rightarrow> u8 list \<Rightarrow> u32 \<times> sniffer" where
  "hw_compute_crc32 unit h data =
     (let h1 = sniff_configure Calc_CRC32R True True h;
          h2 = h1\<lparr>sn_data := 0xFFFFFFFF\<rparr>;
          h3 = (if data \<noteq> [] then sniff_run unit data h2 else h2)
      in (sniff_read h3, h3))"

definition hw_compute_crc16 ::
    "(calc \<Rightarrow> u32 \<Rightarrow> u8 \<Rightarrow> u32) \<Rightarrow> sniffer \<Rightarrow> u8 list \<Rightarrow> u16 \<times> sniffer" where
  "hw_compute_crc16 unit h data =
     (let h1 = sniff_configure Calc_CRC16 False False h;
          h2 = h1\<lparr>sn_data := 0x0000FFFF\<rparr>;
          h3 = (if data \<noteq> [] then sniff_run unit data h2 else h2)
      in (ucast (sniff_read h3 AND 0xFFFF), h3))"

text \<open>
  The documented checksum unit: one data bit at a time into a register that shifts left.  The
  \<^verbatim>\<open>CRC32R\<close> mode feeds each byte's bits in reversed order with the IEEE polynomial, the \<^verbatim>\<open>CRC16\<close>
  mode feeds them most significant first with the CCITT polynomial.
\<close>

definition sniff32_bit :: "u32 \<Rightarrow> bool \<Rightarrow> u32" where
  "sniff32_bit acc d = push_bit 1 acc XOR (if bit acc 31 \<noteq> d then 0x04C11DB7 else 0)"

definition sniff16_bit :: "u16 \<Rightarrow> bool \<Rightarrow> u16" where
  "sniff16_bit acc d = push_bit 1 acc XOR (if bit acc 15 \<noteq> d then 0x1021 else 0)"

definition documented_unit :: "(calc \<Rightarrow> u32 \<Rightarrow> u8 \<Rightarrow> u32) \<Rightarrow> bool" where
  "documented_unit unit \<longleftrightarrow>
     (\<forall>acc b. unit Calc_CRC32R acc b = foldl sniff32_bit acc (map (bit b) [0..<8])) \<and>
     (\<forall>acc b. (ucast (unit Calc_CRC16 acc b) :: u16) =
        foldl sniff16_bit (ucast acc) (map (bit b) (rev [0..<8])))"

definition example_unit :: "calc \<Rightarrow> u32 \<Rightarrow> u8 \<Rightarrow> u32" where
  "example_unit c acc b =
     (case c of
        Calc_CRC32R \<Rightarrow> foldl sniff32_bit acc (map (bit b) [0..<8])
      | Calc_CRC16 \<Rightarrow> ucast (foldl sniff16_bit (ucast acc) (map (bit b) (rev [0..<8]))))"

lemma example_unit_documented: "documented_unit example_unit"
proof -
  have "(ucast (ucast w :: u32) :: u16) = w" for w :: u16
    by (rule bit_word_eqI) (simp add: bit_simps)
  then show ?thesis by (simp add: documented_unit_def example_unit_def)
qed

text \<open>Reflection: the software register is the mirror image of the sniffer's, bit by bit.\<close>

lemma crc32_lsb: "state AND 1 \<noteq> 0 \<longleftrightarrow> bit (state::u32) 0"
  using bit_iff_and_push_bit_not_eq_0 [of state 0] by simp

lemma word_reverse_xor: "word_reverse (x XOR y) = word_reverse x XOR word_reverse (y::'a::len word)"
  by (rule bit_word_eqI) (auto simp: bit_simps)

lemma word_reverse_shift: "word_reverse (drop_bit 1 x) = push_bit 1 (word_reverse (x::u32))"
proof (rule bit_word_eqI)
  fix n assume "n < LENGTH(32)"
  moreover have "k < 31 \<Longrightarrow> Suc (30 - k) = 31 - k" for k :: nat
    by simp
  ultimately show "bit (word_reverse (drop_bit 1 x)) n = bit (push_bit 1 (word_reverse x)) n"
    by (cases n) (auto simp: bit_word_reverse_iff bit_drop_bit_eq bit_push_bit_iff Suc_diff_Suc dest: bit_imp_le_length)
qed

lemma word_reverse_poly: "word_reverse CRC32_POLY = 0x04C11DB7"
  by code_simp

lemma crc32_bit_linear: "crc32_bit (x XOR y) = crc32_bit x XOR crc32_bit y"
  unfolding crc32_bit_def crc32_lsb Let_def
  by (auto simp: bit_xor_iff drop_bit_xor ac_simps)

lemma crc32_bits_linear: "(crc32_bit ^^ n) (x XOR y) = (crc32_bit ^^ n) x XOR (crc32_bit ^^ n) y"
  by (induction n) (simp_all add: crc32_bit_linear)

lemma sniff32_bit_reflects:
  "word_reverse (crc32_bit (s XOR of_bool d)) = sniff32_bit (word_reverse s) d"
proof -
  have lsb: "bit (s XOR of_bool d) 0 \<longleftrightarrow> bit s 0 \<noteq> d"
    by (cases d) (simp_all add: bit_xor_iff)
  have "drop_bit 1 (s XOR of_bool d) = drop_bit 1 s"
    by (cases d) (simp_all add: drop_bit_xor)
  moreover have "bit (word_reverse s) 31 \<longleftrightarrow> bit s 0"
    by (simp add: bit_word_reverse_iff)
  ultimately show ?thesis
    using lsb
    by (simp add: crc32_bit_def crc32_lsb sniff32_bit_def Let_def word_reverse_xor
        word_reverse_shift word_reverse_poly del: One_nat_def)
qed

text \<open>Feeding a byte bit by bit is the same as adding it to the register first.\<close>

primrec bits_word :: "bool list \<Rightarrow> u32" where
  "bits_word [] = 0"
| "bits_word (d # ds) = of_bool d XOR push_bit 1 (bits_word ds)"

lemma bit_bits_word: "bit (bits_word ds) n \<longleftrightarrow> n < 32 \<and> n < length ds \<and> ds ! n"
proof (induction ds arbitrary: n)
  case Nil
  then show ?case by simp
next
  case (Cons d ds)
  show ?case
    by (cases n) (auto simp: bit_xor_iff bit_push_bit_iff bit_of_bool_iff Cons.IH)
qed

lemma crc32_bit_push: "\<not> bit y 31 \<Longrightarrow> crc32_bit (push_bit 1 y) = y"
proof -
  assume top: "\<not> bit y 31"
  have "drop_bit 1 (push_bit 1 y) = y"
  proof (rule bit_word_eqI)
    fix n assume "n < LENGTH(32)"
    with top show "bit (drop_bit 1 (push_bit 1 y)) n = bit y n"
      by (cases "n = 31") (auto simp: bit_drop_bit_eq bit_push_bit_iff)
  qed
  moreover have "\<not> bit (push_bit 1 y) 0"
    by (simp add: bit_push_bit_iff)
  ultimately show ?thesis
    by (simp add: crc32_bit_def crc32_lsb Let_def del: One_nat_def)
qed

lemma crc32_bits_serial:
  "length ds \<le> 31 \<Longrightarrow>
     foldl (\<lambda>s d. crc32_bit (s XOR of_bool d)) s ds = (crc32_bit ^^ length ds) (s XOR bits_word ds)"
proof (induction ds arbitrary: s)
  case Nil
  then show ?case by simp
next
  case (Cons d ds)
  have "crc32_bit (push_bit 1 (bits_word ds)) = bits_word ds"
    using Cons.prems by (intro crc32_bit_push) (simp add: bit_bits_word)
  then have "crc32_bit (s XOR bits_word (d # ds)) = crc32_bit (s XOR of_bool d) XOR bits_word ds"
    by (simp only: bits_word.simps xor.assoc [symmetric] crc32_bit_linear)
  with Cons show ?case
    by (simp add: funpow_Suc_right del: bits_word.simps funpow.simps)
qed

lemma bits_word_byte: "bits_word (map (bit b) [0..<8]) = ucast (b::u8)"
proof (rule bit_word_eqI)
  fix n assume "n < LENGTH(32)"
  then show "bit (bits_word (map (bit b) [0..<8])) n = bit (ucast b :: u32) n"
    using bit_imp_le_length [of b n] by (cases "n < 8") (auto simp: bit_bits_word bit_ucast_iff)
qed

lemma crc32_byte_serial:
  "crc32_byte s b = foldl (\<lambda>s d. crc32_bit (s XOR of_bool d)) s (map (bit b) [0..<8])"
  using crc32_bits_serial [of "map (bit b) [0..<8]" s] bits_word_byte [of b]
  by (simp add: crc32_byte_def del: upt_Suc upt_rec_numeral)

lemma sniff32_bits_reflect:
  "word_reverse (foldl (\<lambda>s d. crc32_bit (s XOR of_bool d)) s ds) = foldl sniff32_bit (word_reverse s) ds"
  by (induction ds arbitrary: s) (simp_all add: sniff32_bit_reflects)

lemma sniff32_reflects:
  assumes "documented_unit unit"
  shows "foldl (unit Calc_CRC32R) (word_reverse s) data = word_reverse (foldl crc32_byte s data)"
proof (induction data arbitrary: s)
  case Nil
  then show ?case by simp
next
  case (Cons b data)
  have "unit Calc_CRC32R (word_reverse s) b = word_reverse (crc32_byte s b)"
    using assms
    by (simp add: documented_unit_def crc32_byte_serial sniff32_bits_reflect
        del: upt_Suc upt_rec_numeral list.map)
  then show ?case by (simp add: Cons.IH)
qed

text \<open>The CCITT register needs no reflection; the data bits enter at the top.\<close>

primrec bits_word16 :: "bool list \<Rightarrow> u16" where
  "bits_word16 [] = 0"
| "bits_word16 (d # ds) = push_bit 15 (of_bool d) XOR drop_bit 1 (bits_word16 ds)"

lemma bit_bits_word16: "bit (bits_word16 ds) n \<longleftrightarrow> n < 16 \<and> 15 - n < length ds \<and> ds ! (15 - n)"
proof (induction ds arbitrary: n)
  case Nil
  then show ?case by simp
next
  case (Cons d ds)
  consider "n < 15" | "n = 15" | "15 < n" by linarith
  then show ?case
  proof cases
    case 1
    then have "15 - n = Suc (15 - Suc n)" by simp
    with 1 show ?thesis
      by (simp add: bit_xor_iff bit_push_bit_iff bit_drop_bit_eq Cons.IH)
  next
    case 2
    then show ?thesis
      by (simp add: bit_xor_iff bit_push_bit_iff bit_drop_bit_eq Cons.IH)
  next
    case 3
    then show ?thesis
      by (auto simp: bit_xor_iff bit_drop_bit_eq dest: bit_imp_le_length)
  qed
qed

lemma crc16_bit_drop: "\<not> bit y 0 \<Longrightarrow> crc16_bit (drop_bit 1 y) = y"
proof -
  assume low: "\<not> bit y 0"
  have "push_bit 1 (drop_bit 1 y) = y"
  proof (rule bit_word_eqI)
    fix n assume "n < LENGTH(16)"
    with low show "bit (push_bit 1 (drop_bit 1 y)) n = bit y n"
      by (cases n) (auto simp: bit_drop_bit_eq bit_push_bit_iff)
  qed
  moreover have "\<not> bit (drop_bit 1 y) 15"
    by (auto simp: bit_drop_bit_eq dest: bit_imp_le_length)
  ultimately show ?thesis
    by (simp add: crc16_bit_def crc16_msb del: One_nat_def)
qed

lemma sniff16_bit_eq: "sniff16_bit s d = crc16_bit (s XOR push_bit 15 (of_bool d))"
proof -
  have "push_bit 1 (push_bit 15 (of_bool d)) = (0::u16)"
    by (cases d) simp_all
  moreover have "bit (s XOR push_bit 15 (of_bool d)) 15 \<longleftrightarrow> bit s 15 \<noteq> d"
    by (simp add: bit_xor_iff bit_push_bit_iff)
  ultimately show ?thesis
    by (simp add: sniff16_bit_def crc16_bit_def crc16_msb push_bit_xor CRC16_POLY_def
        del: One_nat_def)
qed

lemma sniff16_bits_serial:
  "length ds \<le> 15 \<Longrightarrow>
     foldl sniff16_bit s ds = (crc16_bit ^^ length ds) (s XOR bits_word16 ds)"
proof (induction ds arbitrary: s)
  case Nil
  then show ?case by simp
next
  case (Cons d ds)
  have "crc16_bit (drop_bit 1 (bits_word16 ds)) = bits_word16 ds"
    using Cons.prems by (intro crc16_bit_drop) (simp add: bit_bits_word16)
  then have "crc16_bit (s XOR bits_word16 (d # ds)) = sniff16_bit s d XOR bits_word16 ds"
    by (simp only: bits_word16.simps xor.assoc [symmetric] crc16_bit_linear sniff16_bit_eq)
  with Cons show ?case
    by (simp add: funpow_Suc_right del: bits_word16.simps funpow.simps)
qed

lemma bits_word16_byte: "bits_word16 (map (bit b) (rev [0..<8])) = push_bit 8 (ucast (b::u8))"
proof (rule bit_word_eqI)
  fix n assume n: "n < LENGTH(16)"
  have "map (bit b) (rev [0..<8]) ! (15 - n) = bit b (n - 8)" if "8 \<le> n" "n < 16"
  proof -
    have "rev [0..<8] ! (15 - n) = n - 8"
      using that by (subst rev_nth) auto
    with that show ?thesis by (subst nth_map) auto
  qed
  with n show "bit (bits_word16 (map (bit b) (rev [0..<8]))) n = bit (push_bit 8 (ucast b :: u16)) n"
    by (auto simp: bit_bits_word16 bit_push_bit_iff bit_ucast_iff simp del: upt_rec_numeral)
qed

lemma crc16_byte_serial: "foldl sniff16_bit s (map (bit b) (rev [0..<8])) = crc16_byte s b"
  using sniff16_bits_serial [of "map (bit b) (rev [0..<8])" s] bits_word16_byte [of b]
  by (simp add: crc16_byte_def del: upt_Suc upt_rec_numeral)

lemma sniff16_folds:
  assumes "documented_unit unit"
  shows "ucast (foldl (unit Calc_CRC16) acc data) = foldl crc16_byte (ucast acc) data"
proof (induction data arbitrary: acc)
  case Nil
  then show ?case by simp
next
  case (Cons b data)
  have "(ucast (unit Calc_CRC16 acc b) :: u16) = crc16_byte (ucast acc) b"
    using assms by (simp add: documented_unit_def crc16_byte_serial del: upt_Suc upt_rec_numeral)
  then show ?case by (simp add: Cons.IH)
qed

lemma hw_crc32_eq:
  assumes "documented_unit unit"
  shows "fst (hw_compute_crc32 unit h data) = crc32_compute data"
proof -
  have init: "word_reverse CRC32_INIT = 0xFFFFFFFF"
    by code_simp
  have rev: "word_reverse 0xFFFFFFFF = CRC32_INIT"
    by (simp add: init [symmetric])
  have "word_reverse (foldl (unit Calc_CRC32R) 0xFFFFFFFF data) = foldl crc32_byte CRC32_INIT data"
    using sniff32_reflects [OF assms, of CRC32_INIT data]
    by (simp only: init word_rev_rev)
  moreover have "NOT x = x XOR CRC32_XOROUT" for x :: u32
  proof -
    have ones: "CRC32_XOROUT = - 1" by (simp add: CRC32_XOROUT_def)
    show ?thesis unfolding ones by (rule bit_word_eqI) (simp add: bit_simps)
  qed
  ultimately show ?thesis
    by (simp add: hw_compute_crc32_def sniff_configure_def sniff_run_def sniff_read_def
        crc32_compute_def Let_def rev)
qed

lemma hw_crc16_eq:
  assumes "documented_unit unit"
  shows "fst (hw_compute_crc16 unit h data) = crc16_compute data"
proof -
  have mask: "(ucast (x AND 0xFFFF) :: u16) = ucast x" for x :: u32
  proof -
    have m: "(0xFFFF :: u32) = mask 16" by (simp add: mask_eq_exp_minus_1)
    show ?thesis unfolding m by (rule bit_word_eqI) (simp add: bit_and_iff bit_mask_iff bit_ucast_iff)
  qed
  show ?thesis
    using sniff16_folds [OF assms, where acc = "0xFFFF" and data = data]
    by (simp add: hw_compute_crc16_def sniff_configure_def sniff_run_def sniff_read_def
        crc16_compute_def Let_def mask CRC16_INIT_def)
qed

subsection \<open>Properties\<close>

definition check_string :: "u8 list" where [const_defs]:
  "check_string = [0x31, 0x32, 0x33, 0x34, 0x35, 0x36, 0x37, 0x38, 0x39]"

lemma crc32_byte_steps:
  "crc32_byte s b = crc32_bit (crc32_bit (crc32_bit (crc32_bit (crc32_bit (crc32_bit (crc32_bit
     (crc32_bit (s XOR ucast b))))))))"
  by (simp add: crc32_byte_def eval_nat_numeral)

lemma crc16_byte_steps:
  "crc16_byte s b = crc16_bit (crc16_bit (crc16_bit (crc16_bit (crc16_bit (crc16_bit (crc16_bit
     (crc16_bit (s XOR push_bit 8 (ucast b)))))))))"
  by (simp add: crc16_byte_def eval_nat_numeral)

lemmas crc_eval =
  crc32_compute_def crc32_byte_steps crc32_bit_def CRC32_INIT_def CRC32_POLY_def CRC32_XOROUT_def
  crc16_compute_def crc16_byte_steps crc16_bit_def CRC16_INIT_def CRC16_POLY_def

lemma crc32_check: "crc32_compute check_string = 0xCBF43926"
  by (simp add: crc_eval check_string_def)

lemma crc16_check: "crc16_compute check_string = 0x29B1"
  by (simp add: crc_eval check_string_def)

text \<open>
  The incremental CRC engines agree with the one-shot functions however the data is cut: after
  a reset, any sequence of updates finalises to the checksum of the concatenation.
\<close>

theorem crc_engines_stream:
  "crc32_finalize (foldl crc32_update (crc32_reset e32) xss) = crc32_compute (concat xss) \<and>
   crc16_finalize (foldl crc16_update (crc16_reset e16) xss) = crc16_compute (concat xss)"
  by (intro conjI sw32.stream_compute sw16.stream_compute)



end
