(* ===== verification/Packet.thy ===== *)
theory Packet
  imports Crc
begin

text \<open>
  The wire packet of \<^verbatim>\<open>crates/protocol/src/packet/mod.rs\<close> and the command bytes of
  \<^verbatim>\<open>commands.rs\<close>: \<open>encode\<close> into a caller-provided buffer, \<open>decode\<close> of a complete frame, and the
  bounded payload vector.  The abstract specification is \<open>frame\<close>, the byte string of a packet;
  \<open>encode\<close> refines it, \<open>decode\<close> accepts exactly the frames, and a burst of errors over any two
  neighbouring bytes is rejected.
\<close>

subsection \<open>Commands and constants\<close>

definition CMD_CAP_REQ :: u8 where [const_defs]: "CMD_CAP_REQ = 0x00"
definition CMD_CAP_RSP :: u8 where [const_defs]: "CMD_CAP_RSP = 0x0F"
definition CMD_CAP_ACK :: u8 where [const_defs]: "CMD_CAP_ACK = 0x0E"
definition CMD_PING :: u8 where [const_defs]: "CMD_PING = 0x10"
definition CMD_PONG :: u8 where [const_defs]: "CMD_PONG = 0x11"
definition CMD_ERROR :: u8 where [const_defs]: "CMD_ERROR = 0x13"
definition CMD_ACK :: u8 where [const_defs]: "CMD_ACK = 0x15"
definition CMD_NAK :: u8 where [const_defs]: "CMD_NAK = 0x16"
definition CMD_SEND_BLOCK :: u8 where [const_defs]: "CMD_SEND_BLOCK = 0x20"
definition CMD_RECV_BLOCK :: u8 where [const_defs]: "CMD_RECV_BLOCK = 0x21"
definition CMD_BLOCK_ACK :: u8 where [const_defs]: "CMD_BLOCK_ACK = 0x22"
definition CMD_BLOCK_NAK :: u8 where [const_defs]: "CMD_BLOCK_NAK = 0x23"

definition SOH :: u8 where [const_defs]: "SOH = 0x01"
definition ETX :: u8 where [const_defs]: "ETX = 0x03"
definition HEADER_LEN :: nat where [const_defs]: "HEADER_LEN = 5"
definition TRAILER_LEN :: nat where [const_defs]: "TRAILER_LEN = 3"
definition OVERHEAD :: nat where [const_defs]: "OVERHEAD = HEADER_LEN + TRAILER_LEN"
definition MAX_PAYLOAD :: nat where [const_defs]: "MAX_PAYLOAD = 256 - OVERHEAD"
definition MAX_PACKET :: nat where [const_defs]: "MAX_PACKET = MAX_PAYLOAD + OVERHEAD"

subsection \<open>Packets\<close>

record incoming_packet =
  in_cmd :: u8
  in_seq :: u8
  in_payload :: "u8 list"

record outgoing_packet =
  out_cmd :: u8
  out_seq :: u8
  out_payload :: "u8 list"

definition outgoing_new :: "u8 \<Rightarrow> u8 \<Rightarrow> u8 list \<Rightarrow> outgoing_packet option" where
  "outgoing_new cmd seq payload_slice =
     (if length payload_slice > MAX_PAYLOAD then None
      else case vec_extend MAX_PAYLOAD [] payload_slice of
             None \<Rightarrow> None
           | Some payload \<Rightarrow> Some \<lparr>out_cmd = cmd, out_seq = seq, out_payload = payload\<rparr>)"

datatype decode_error = TooShort | BadSoh | BadLen | BadEtx | BadCrc | DecPayloadOverflow

datatype encode_error = EncPayloadOverflow | OutputTooSmall

definition decode :: "u8 list \<Rightarrow> decode_error + incoming_packet" where
  "decode buf =
     (if length buf < OVERHEAD then Inl TooShort
      else if buf ! 0 \<noteq> SOH then Inl BadSoh
      else
        let payload_len = unat (from_be16 (buf ! 3) (buf ! 4)) in
        if payload_len > MAX_PAYLOAD then Inl DecPayloadOverflow
        else if length buf \<noteq> payload_len + OVERHEAD then Inl BadLen
        else
          let etx_off = HEADER_LEN + payload_len + 2 in
          if buf ! etx_off \<noteq> ETX then Inl BadEtx
          else
            let crc_start = 1;
                crc_end = HEADER_LEN + payload_len;
                computed = crc16_compute (sub_slice crc_start crc_end buf);
                on_wire = from_be16 (buf ! crc_end) (buf ! (crc_end + 1)) in
            if computed \<noteq> on_wire then Inl BadCrc
            else
              let payload = (case vec_extend MAX_PAYLOAD []
                                    (sub_slice HEADER_LEN (HEADER_LEN + payload_len) buf) of
                               Some v \<Rightarrow> v | None \<Rightarrow> [])
              in Inr \<lparr>in_cmd = buf ! 1, in_seq = buf ! 2, in_payload = payload\<rparr>)"

definition encode :: "u8 \<Rightarrow> u8 \<Rightarrow> u8 list \<Rightarrow> u8 list \<Rightarrow> (encode_error + nat) \<times> u8 list" where
  "encode cmd seq payload out =
     (if length payload > MAX_PAYLOAD then (Inl EncPayloadOverflow, out)
      else
        let total = length payload + OVERHEAD in
        if length out < total then (Inl OutputTooSmall, out)
        else
          let out1 = out[0 := SOH, 1 := cmd, 2 := seq];
              len_be = be16 (of_nat (length payload));
              out2 = out1[3 := len_be ! 0, 4 := len_be ! 1];
              out3 = blit HEADER_LEN payload out2;
              crc_start = 1;
              crc_end = HEADER_LEN + length payload;
              crc = be16 (crc16_compute (sub_slice crc_start crc_end out3));
              out4 = out3[crc_end := crc ! 0, crc_end + 1 := crc ! 1, crc_end + 2 := ETX]
          in (Inr total, out4))"

subsection \<open>The frame of a packet\<close>

definition covered :: "u8 \<Rightarrow> u8 \<Rightarrow> u8 list \<Rightarrow> u8 list" where
  "covered cmd seq payload = [cmd, seq] @ be16 (of_nat (length payload)) @ payload"

definition frame :: "u8 \<Rightarrow> u8 \<Rightarrow> u8 list \<Rightarrow> u8 list" where
  "frame cmd seq payload =
     [SOH] @ covered cmd seq payload @ be16 (crc16_compute (covered cmd seq payload)) @ [ETX]"

lemma length_covered [simp]: "length (covered cmd seq payload) = 4 + length payload"
  by (simp add: covered_def)

lemma length_frame [simp]: "length (frame cmd seq payload) = length payload + 8"
  by (simp add: frame_def)

lemma list_split5:
  assumes "5 \<le> length xs"
  obtains a b c d e ys where "xs = a # b # c # d # e # ys"
  using assms by (auto simp: numeral_eq_Suc Suc_le_length_iff)

lemma list_split3:
  assumes "3 \<le> length xs"
  obtains a b c ys where "xs = a # b # c # ys"
  using assms by (auto simp: numeral_eq_Suc Suc_le_length_iff)

lemma encode_frame:
  assumes "length payload \<le> 248" and "length payload + 8 \<le> length out"
  shows "encode cmd seq payload out =
           (Inr (length payload + 8), frame cmd seq payload @ drop (length payload + 8) out)"
proof -
  let ?n = "length payload"
  let ?len = "be16 (of_nat ?n)"
  obtain o0 o1 o2 o3 o4 r where out: "out = o0 # o1 # o2 # o3 # o4 # r"
    using assms(2) by (elim list_split5 [of out, rotated]) simp
  have "3 \<le> length (drop ?n r)"
    using assms(2) out by simp
  then obtain x y z w where r: "drop ?n r = x # y # z # w"
    by (rule list_split3)
  have w: "drop (?n + 3) r = w"
    using arg_cong [OF r, of "drop 3"] by (simp add: add.commute)
  have len: "?len = [?len ! 0, ?len ! 1]"
    by (simp add: be16_def)
  have hdr: "(out[0 := SOH, 1 := cmd, 2 := seq])[3 := ?len ! 0, 4 := ?len ! 1] =
      SOH # cmd # seq # ?len ! 0 # ?len ! 1 # r"
    by (simp add: out)
  have body: "blit HEADER_LEN payload (SOH # cmd # seq # ?len ! 0 # ?len ! 1 # r) =
      [SOH] @ covered cmd seq payload @ x # y # z # w"
    using r by (simp add: blit_def HEADER_LEN_def covered_def be16_def numeral_eq_Suc)
  have cov: "sub_slice 1 (HEADER_LEN + ?n) ([SOH] @ covered cmd seq payload @ x # y # z # w) =
      covered cmd seq payload"
    by (simp add: sub_slice_def HEADER_LEN_def)
  have tail: "([SOH] @ covered cmd seq payload @ x # y # z # w)
        [HEADER_LEN + ?n := c0, HEADER_LEN + ?n + 1 := c1, HEADER_LEN + ?n + 2 := e] =
      [SOH] @ covered cmd seq payload @ c0 # c1 # e # w" for c0 c1 e
    by (simp add: HEADER_LEN_def list_update_append)
  have fits: "\<not> MAX_PAYLOAD < ?n" "\<not> length out < ?n + OVERHEAD" "?n + OVERHEAD = ?n + 8"
    using assms by (simp_all add: const_defs)
  have "[SOH] @ covered cmd seq payload @ c0 # c1 # e # w =
      ([SOH] @ covered cmd seq payload @ [c0, c1] @ [e]) @ w" for c0 c1 e
    by simp
  moreover have "be16 c = [be16 c ! 0, be16 c ! 1]" for c
    by (simp add: be16_def)
  ultimately have whole: "[SOH] @ covered cmd seq payload @
      be16 (crc16_compute (covered cmd seq payload)) ! 0 #
      be16 (crc16_compute (covered cmd seq payload)) ! 1 # ETX # w = frame cmd seq payload @ w"
    unfolding frame_def by metis
  have "drop (?n + 8) out = w"
    by (simp add: out w [symmetric] numeral_eq_Suc)
  then show ?thesis
    unfolding encode_def Let_def
    by (simp only: fits(1,2) fits(3) [symmetric] if_False hdr body cov tail whole)
qed

lemma encode_errors:
  "248 < length payload \<Longrightarrow> encode cmd seq payload out = (Inl EncPayloadOverflow, out)"
  "length payload \<le> 248 \<Longrightarrow> length out < length payload + 8 \<Longrightarrow>
     encode cmd seq payload out = (Inl OutputTooSmall, out)"
  by (simp_all add: encode_def const_defs)

lemma of_nat_len16: "n \<le> 248 \<Longrightarrow> unat (of_nat n :: u16) = n"
  by (simp add: unat_of_nat)

lemma decode_frame:
  assumes "length payload \<le> 248"
  shows "decode (frame cmd seq payload) = Inr \<lparr>in_cmd = cmd, in_seq = seq, in_payload = payload\<rparr>"
proof -
  let ?n = "length payload" and ?w = "frame cmd seq payload"
  let ?cov = "covered cmd seq payload"
  let ?crc = "be16 (crc16_compute ?cov)"
  have hdr: "?w = SOH # cmd # seq # be16 (of_nat ?n) ! 0 # be16 (of_nat ?n) ! 1 # payload @ ?crc @ [ETX]"
    by (simp add: frame_def covered_def be16_def)
  have len: "unat (from_be16 (?w ! 3) (?w ! 4)) = ?n"
    using assms by (simp add: hdr codec_simps of_nat_len16)
  have etx: "?w ! (HEADER_LEN + ?n + 2) = ETX"
    by (simp add: frame_def nth_append HEADER_LEN_def)
  have cov: "sub_slice 1 (HEADER_LEN + ?n) ?w = ?cov"
    by (simp add: frame_def sub_slice_def HEADER_LEN_def)
  have crc: "from_be16 (?w ! (HEADER_LEN + ?n)) (?w ! (HEADER_LEN + ?n + 1)) = crc16_compute ?cov"
    by (simp add: frame_def nth_append HEADER_LEN_def codec_simps)
  have pay: "sub_slice HEADER_LEN (HEADER_LEN + ?n) ?w = payload"
    by (simp add: hdr sub_slice_def HEADER_LEN_def numeral_eq_Suc)
  have bounds: "\<not> length ?w < OVERHEAD" "\<not> MAX_PAYLOAD < ?n" "length ?w = ?n + OVERHEAD"
    using assms by (simp_all add: const_defs)
  have nth: "?w ! 0 = SOH" "?w ! 1 = cmd" "?w ! 2 = seq"
    by (simp_all add: hdr)
  have "vec_extend MAX_PAYLOAD [] payload = Some payload"
    using bounds(2) by (simp add: vec_extend_def)
  then show ?thesis
    unfolding decode_def Let_def
    by (simp only: bounds nth len etx cov crc pay if_False option.case simp_thms, simp)
qed

lemma decode_sound:
  assumes "decode w = Inr p"
  shows "length (in_payload p) \<le> 248 \<and> w = frame (in_cmd p) (in_seq p) (in_payload p)"
proof -
  define n where "n = unat (from_be16 (w ! 3) (w ! 4))"
  have len: "n \<le> 248" "length w = n + 8" and soh: "w ! 0 = SOH" and etx: "w ! (n + 7) = ETX"
    and crc: "crc16_compute (sub_slice 1 (n + 5) w) = from_be16 (w ! (n + 5)) (w ! (n + 6))"
    and p: "p = \<lparr>in_cmd = w ! 1, in_seq = w ! 2, in_payload = sub_slice 5 (n + 5) w\<rparr>"
    using assms
    by (auto simp: decode_def Let_def const_defs n_def vec_extend_def add.commute split: if_splits)
  obtain a b c d e r where w: "w = a # b # c # d # e # r"
    using len by (elim list_split5 [of w, rotated]) simp
  have "3 \<le> length (drop n r)"
    using len w by simp
  then obtain x y z v where r: "drop n r = x # y # z # v"
    by (rule list_split3)
  moreover have "length (drop n r) = 3"
    using len w by simp
  ultimately have "v = []" by simp
  with r have rr: "r = take n r @ [x, y, z]"
    using append_take_drop_id [of n r] by simp
  have lr: "length (take n r) = n"
    using len w by simp
  have lr': "length r = n + 3"
    using len w by simp
  have sub: "sub_slice 5 (n + 5) w = take n r"
    by (simp add: sub_slice_def w numeral_eq_Suc)
  have "from_be16 d e = of_nat n"
    by (simp add: n_def w)
  then have lenbytes: "be16 (of_nat n) = [d, e]"
    by (metis be16_from_be16)
  have cov: "sub_slice 1 (n + 5) w = covered b c (take n r)"
    by (simp add: sub_slice_def w covered_def lr' lenbytes numeral_eq_Suc)
  have tail: "w ! (n + 5) = x" "w ! (n + 6) = y" "w ! (n + 7) = z"
    using lr by (simp_all add: w, (subst rr, simp add: nth_append)+)
  have "be16 (crc16_compute (covered b c (take n r))) = [x, y]"
    using crc unfolding cov tail by (simp add: be16_from_be16)
  then have "w = frame b c (take n r)"
    using soh etx tail rr lr by (simp add: frame_def covered_def lenbytes w)
  with p sub lr len(1) show ?thesis
    by (simp add: w)
qed

text \<open>The packet codec as an instance of the library's contract.\<close>

definition packet_frame :: "incoming_packet \<Rightarrow> u8 list" where
  "packet_frame p = frame (in_cmd p) (in_seq p) (in_payload p)"

definition packet_decode :: "u8 list \<Rightarrow> incoming_packet option" where
  "packet_decode w = (case decode w of Inl e \<Rightarrow> None | Inr p \<Rightarrow> Some p)"

definition packet_ok :: "incoming_packet \<Rightarrow> bool" where
  "packet_ok p \<longleftrightarrow> length (in_payload p) \<le> 248"

lemma decode_packet_frame: "packet_ok p \<Longrightarrow> decode (packet_frame p) = Inr p"
  by (simp add: packet_ok_def packet_frame_def decode_frame)

interpretation packet: codec packet_frame packet_decode packet_ok
proof (unfold_locales, goal_cases)
  case (1 p)
  then show ?case by (simp add: packet_decode_def decode_packet_frame)
next
  case (2 w p)
  then have "decode w = Inr p" by (simp add: packet_decode_def split: sum.splits)
  then show ?case using decode_sound by (simp add: packet_ok_def packet_frame_def)
qed

lemma decode_Inr_iff: "decode w = Inr p \<longleftrightarrow> packet_ok p \<and> w = packet_frame p"
  using packet.dec_iff [of w p] by (auto simp: packet_decode_def split: sum.splits)

lemma decode_residue:
  assumes "decode w = Inr p"
  shows "foldl crc16_byte CRC16_INIT (butlast (tl w)) = 0"
proof -
  from decode_sound [OF assms] have w: "w = frame (in_cmd p) (in_seq p) (in_payload p)" by simp
  let ?c = "covered (in_cmd p) (in_seq p) (in_payload p)"
  have tl: "butlast (tl w) = ?c @ [be16 (crc16_compute ?c) ! 0, be16 (crc16_compute ?c) ! 1]"
    by (simp add: w frame_def be16_def butlast_append)
  show ?thesis
    unfolding tl crc16_residue_append
    by (simp add: codec_simps crc16_compute_def)
qed

text \<open>Two frames of one length that differ in two neighbouring bytes at most are equal.\<close>

lemma frames_burst_eq:
  assumes w: "decode w = Inr p" and v: "decode v = Inr q" and len: "length v = length w"
    and same: "\<And>j. j < length w \<Longrightarrow> j \<noteq> i \<Longrightarrow> j \<noteq> Suc i \<Longrightarrow> v ! j = w ! j"
  shows "v = w"
proof -
  obtain n where n: "length w = n + 8"
    using decode_sound [OF w] by (metis length_frame)
  have ends: "x = SOH # butlast (tl x) @ [ETX]" if "decode x = Inr r" for x r
  proof -
    have x: "x = frame (in_cmd r) (in_seq r) (in_payload r)"
      using decode_sound [OF that] by simp
    show ?thesis
      by (subst (1 2) x) (simp add: frame_def butlast_append)
  qed
  let ?w = "butlast (tl w)" and ?v = "butlast (tl v)"
  have nthm: "butlast (tl x) ! k = x ! Suc k" if "k < n + 6" "length x = n + 8" for x k
    using that by (simp add: nth_butlast nth_tl)
  have "?v = ?w"
  proof (rule crc16_burst [where i = "if i = 0 then 0 else if i - 1 < n + 5 then i - 1 else n + 4"])
    show "length ?v = length ?w" using len by simp
    show "foldl crc16_byte CRC16_INIT ?w = foldl crc16_byte CRC16_INIT ?v"
      by (simp add: decode_residue [OF w] decode_residue [OF v])
  next
    fix j
    assume "j < length ?w" and ne: "j \<noteq> (if i = 0 then 0 else if i - 1 < n + 5 then i - 1 else n + 4)"
      "j \<noteq> Suc (if i = 0 then 0 else if i - 1 < n + 5 then i - 1 else n + 4)"
    then have j: "j < n + 6" using n by simp
    with ne have "Suc j \<noteq> i" "Suc j \<noteq> Suc i" by (auto split: if_splits)
    with j n have "v ! Suc j = w ! Suc j" by (intro same) auto
    with j n len show "?v ! j = ?w ! j" by (simp add: nthm)
  qed (use n in simp)
  with ends [OF w] ends [OF v] show ?thesis by metis
qed

subsection \<open>Properties\<close>

text \<open>
  What \<open>encode\<close> does on every branch: an oversized payload and a short buffer are reported and
  leave the buffer alone; otherwise the packet's frame lands at the front, the rest of the buffer is
  untouched, and the frame's length is returned.
\<close>

theorem encode_refines_frame:
  "encode cmd seq payload out =
     (if length payload > 248 then (Inl EncPayloadOverflow, out)
      else if length out < length payload + 8 then (Inl OutputTooSmall, out)
      else (Inr (length payload + 8), frame cmd seq payload @ drop (length payload + 8) out))"
  using encode_frame [of payload out cmd seq]
    encode_errors(1) [of payload cmd seq out] encode_errors(2) [of payload out cmd seq]
  by (cases "length payload > 248"; cases "length out < length payload + 8") auto

text \<open>
  C27. \<open>decode\<close> accepts exactly the frames of packets whose payload fits, and returns the packet whose
  frame it was given; so encoding and decoding are inverse to each other.
\<close>

theorem decode_accepts_frames:
  "decode w = Inr p \<longleftrightarrow>
     length (in_payload p) \<le> 248 \<and> w = frame (in_cmd p) (in_seq p) (in_payload p)"
  by (simp add: decode_Inr_iff packet_ok_def packet_frame_def)

text \<open>
  A packet that was encoded into a large enough buffer is decoded from the bytes \<open>encode\<close> says it
  wrote.
\<close>

theorem encode_then_decode:
  assumes "encode cmd seq payload out = (Inr n, out')"
  shows "decode (take n out') = Inr \<lparr>in_cmd = cmd, in_seq = seq, in_payload = payload\<rparr> \<and>
         length out' = length out \<and> drop n out' = drop n out"
proof -
  have small: "length payload \<le> 248"
    using assms encode_errors(1) [of payload cmd seq out] by (cases "248 < length payload") auto
  moreover have "length payload + 8 \<le> length out"
    using assms encode_errors(2) [OF small, of out cmd seq]
    by (cases "length out < length payload + 8") auto
  ultimately have fits: "length payload \<le> 248" "length payload + 8 \<le> length out" .
  with assms have "n = length payload + 8"
      "out' = frame cmd seq payload @ drop (length payload + 8) out"
    by (auto simp: encode_frame)
  with fits show ?thesis
    by (simp add: decode_frame)
qed

theorem encode_then_decode_witness:
  "decode (take 10 (snd (encode CMD_PING 7 [0x68, 0x69] (replicate 256 0)))) =
     Inr \<lparr>in_cmd = CMD_PING, in_seq = 7, in_payload = [0x68, 0x69]\<rparr>"
proof -
  have "encode CMD_PING 7 [0x68, 0x69] (replicate 256 0) =
      (Inr 10, frame CMD_PING 7 [0x68, 0x69] @ drop 10 (replicate 256 0))"
    by (simp add: encode_frame)
  from encode_then_decode [OF this] show ?thesis
    by (simp add: encode_frame)
qed

text \<open>
  C28. The decoder detects every burst of errors confined to two neighbouring bytes, wherever it
  falls: in the framing bytes, the length, the payload or the checksum itself.
\<close>

theorem decode_detects_bursts:
  assumes "decode w = Inr p" and "length v = length w" and "v \<noteq> w"
    and "\<forall>j. j < length w \<and> j \<noteq> i \<and> j \<noteq> Suc i \<longrightarrow> v ! j = w ! j"
  shows "\<exists>e. decode v = Inl e"
proof (cases "decode v")
  case (Inr q)
  from frames_burst_eq [OF assms(1) Inr assms(2)] assms(3,4) show ?thesis by blast
qed simp

theorem decode_detects_bursts_witness:
  "\<exists>e. decode ((frame CMD_PING 0 [0x78])[5 := 0x79, 6 := 0]) = Inl e"
proof (rule decode_detects_bursts [where i = 5])
  show "decode (frame CMD_PING 0 [0x78]) = Inr \<lparr>in_cmd = CMD_PING, in_seq = 0, in_payload = [0x78]\<rparr>"
    by (simp add: decode_frame)
  show "(frame CMD_PING 0 [0x78])[5 := 0x79, 6 := 0] \<noteq> frame CMD_PING 0 [0x78]"
    by (simp add: frame_def covered_def be16_def)
qed (auto simp: nth_list_update)

end
