(* ===== verification/Blocks.thy ===== *)
theory Blocks
  imports Packet
begin

text \<open>
  The Stage 2 image and its server: the \<^verbatim>\<open>BlockSource\<close> trait of \<^verbatim>\<open>block_source.rs\<close> as the locale
  \<open>block_source\<close>, its implementations \<^verbatim>\<open>SliceBlob\<close> and \<^verbatim>\<open>EmbeddedStage2\<close>
  (\<^verbatim>\<open>firmware/src/protocol/stage_blobs.rs\<close>), the block server of \<^verbatim>\<open>block_server.rs\<close> and the
  capability payload of \<^verbatim>\<open>cap.rs\<close>.  \<^verbatim>\<open>usize\<close> is 32 bits wide on the firmware's target.
  The lemmas show that the served blocks are the image, cut into pieces of 64 bytes.
\<close>

subsection \<open>The trait\<close>

text \<open>
  \<open>block\<close> returns \<open>None\<close> for a panic (an overflowing \<^verbatim>\<open>usize\<close> addition), \<open>Some None\<close> past the end.
  \<open>image\<close> is the abstraction: the bytes the source stands for.
\<close>

locale block_source =
  fixes total_size :: "'b \<Rightarrow> nat"
    and block :: "'b \<Rightarrow> u16 \<Rightarrow> nat \<Rightarrow> (u8 list \<times> u8) option option"
    and image :: "'b \<Rightarrow> u8 list"
  assumes total_size_image: "total_size b = length (image b)"
    and block_inside: "0 < bs \<Longrightarrow> bs \<le> 255 \<Longrightarrow> unat n * bs < length (image b) \<Longrightarrow>
          block b n bs = Some (Some (take bs (drop (unat n * bs) (image b)),
                                     of_nat (min bs (length (image b) - unat n * bs))))"
    and block_past_end: "0 < bs \<Longrightarrow> bs \<le> 255 \<Longrightarrow> length (image b) \<le> unat n * bs \<Longrightarrow>
          block b n bs = Some None"
begin

lemma block_count:
  assumes "0 < bs" "bs \<le> 255" "block b n bs = Some (Some (data, count))"
  shows "unat count = length data \<and> 1 \<le> length data \<and> length data \<le> bs"
proof (cases "unat n * bs < length (image b)")
  case True
  from block_inside [OF assms(1,2) True] assms(3)
  have d: "data = take bs (drop (unat n * bs) (image b))"
    and c: "count = of_nat (min bs (length (image b) - unat n * bs))"
    by auto
  have "min bs (length (image b) - unat n * bs) < 256"
    using assms(2) by simp
  then have "unat count = min bs (length (image b) - unat n * bs)"
    unfolding c by (simp add: unat_of_nat)
  then show ?thesis
    using d True assms(1) by auto
next
  case False
  with block_past_end [OF assms(1,2), of b n] assms(3) show ?thesis by simp
qed

text \<open>The blocks below \<open>k\<close>, put together, are a prefix of the image.\<close>

lemma blocks_prefix:
  assumes "0 < bs" "bs \<le> 255" "k \<le> 65536" "(k - 1) * bs < length (image b)"
  shows "concat (map (\<lambda>i. case block b (of_nat i) bs of Some (Some (d, c)) \<Rightarrow> d | _ \<Rightarrow> []) [0..<k])
         = take (k * bs) (image b)"
  using assms(3,4)
proof (induction k)
  case 0
  then show ?case by simp
next
  case (Suc k)
  have inside: "unat (of_nat k :: u16) = k"
    using Suc.prems by (simp add: unat_of_nat)
  have "(k - 1) * bs \<le> k * bs" by (rule mult_le_mono1) simp
  also have "k * bs < length (image b)" using Suc.prems(2) by simp
  finally have IH: "concat (map (\<lambda>i. case block b (of_nat i) bs of Some (Some (d, c)) \<Rightarrow> d | _ \<Rightarrow> []) [0..<k])
      = take (k * bs) (image b)"
    using Suc by simp
  have "block b (of_nat k) bs = Some (Some (take bs (drop (k * bs) (image b)),
      of_nat (min bs (length (image b) - k * bs))))"
    using block_inside [OF assms(1,2), of "of_nat k" b] Suc.prems(2) inside by simp
  then show ?case
    using IH take_add [of "k * bs" bs "image b"] by (simp add: add.commute [of bs "k * bs"])
qed

end

subsection \<open>In-memory blobs\<close>

definition checked_mul_usize :: "nat \<Rightarrow> nat \<Rightarrow> nat option" where
  "checked_mul_usize a b = (if a * b < 2 ^ 32 then Some (a * b) else None)"

definition add_usize :: "nat \<Rightarrow> nat \<Rightarrow> nat option" where
  "add_usize a b = (if a + b < 2 ^ 32 then Some (a + b) else None)"

definition blob_block :: "u8 list \<Rightarrow> u16 \<Rightarrow> nat \<Rightarrow> (u8 list \<times> u8) option option" where
  "blob_block bytes block_no block_size =
     (case checked_mul_usize (unat block_no) block_size of
        None \<Rightarrow> Some None
      | Some start \<Rightarrow>
          if start \<ge> length bytes then Some None
          else case add_usize start block_size of
                 None \<Rightarrow> None
               | Some stop \<Rightarrow>
                   let stop' = min stop (length bytes);
                       sl = sub_slice start stop' bytes
                   in Some (Some (sl, of_nat (length sl))))"

record slice_blob =
  sb_data :: "u8 list"
  sb_crc32 :: u32

definition slice_total_size :: "slice_blob \<Rightarrow> nat" where
  "slice_total_size b = length (sb_data b)"

definition slice_crc32 :: "slice_blob \<Rightarrow> u32" where
  "slice_crc32 b = sb_crc32 b"

definition slice_block :: "slice_blob \<Rightarrow> u16 \<Rightarrow> nat \<Rightarrow> (u8 list \<times> u8) option option" where
  "slice_block b = blob_block (sb_data b)"

lemma unat_u16_le: "unat (n::u16) \<le> 65535"
proof -
  have "unat n < 2 ^ LENGTH(16)" by (rule unsigned_less)
  then show ?thesis by simp
qed

lemma blob_start_fits:
  assumes "bs \<le> 255"
  shows "unat (n::u16) * bs \<le> 16711425"
  using mult_le_mono [OF unat_u16_le [of n] assms] by simp

lemma blob_block_inside:
  assumes "0 < bs" "bs \<le> 255" "unat n * bs < length bytes"
  shows "blob_block bytes n bs =
    Some (Some (take bs (drop (unat n * bs) bytes), of_nat (min bs (length bytes - unat n * bs))))"
proof -
  define st where "st = unat n * bs"
  have st: "st < length bytes" "st + bs < 2 ^ 32" "st < 2 ^ 32"
    using assms blob_start_fits [OF assms(2), of n] by (simp_all add: st_def)
  have stop: "min (st + bs) (length bytes) - st = min bs (length bytes - st)"
    using st(1) by linarith
  have "take (min bs (length bytes - st)) (drop st bytes) = take bs (drop st bytes)"
    by (simp add: min_def)
  then have "sub_slice st (min (st + bs) (length bytes)) bytes = take bs (drop st bytes)"
    by (simp only: sub_slice_def stop)
  then show ?thesis
    using st by (simp add: blob_block_def checked_mul_usize_def add_usize_def Let_def
        min.commute flip: st_def)
qed

lemma blob_block_past_end:
  assumes "0 < bs" "bs \<le> 255" "length bytes \<le> unat n * bs"
  shows "blob_block bytes n bs = Some None"
  using assms by (simp add: blob_block_def checked_mul_usize_def)

interpretation slice: block_source slice_total_size slice_block sb_data
  by unfold_locales
    (simp_all add: slice_total_size_def slice_block_def blob_block_inside blob_block_past_end)

subsection \<open>The embedded Stage 2\<close>

definition STAGE2_PLACEHOLDER :: "u8 list" where
  "STAGE2_PLACEHOLDER =
     [0xB4, 0x09,
      0xBA, 0x0D, 0x01,
      0xCD, 0x21,
      0xB8, 0x00, 0x4C,
      0xCD, 0x21,
      0xCC] @
     map (of_char :: char \<Rightarrow> u8) ''PICO1284 Stage 2 placeholder v0.1'' @ [13, 10, of_char (CHR ''$'')]"

definition STAGE2_SIZE :: nat where
  "STAGE2_SIZE = length STAGE2_PLACEHOLDER"

definition stage2_crc32 :: u32 where
  "stage2_crc32 = crc32_compute STAGE2_PLACEHOLDER"

record embedded_stage2 =
  es2_crc :: u32

definition stage2_new :: embedded_stage2 where
  "stage2_new = \<lparr>es2_crc = stage2_crc32\<rparr>"

definition stage2_with_crc :: "u32 \<Rightarrow> embedded_stage2" where
  "stage2_with_crc crc = \<lparr>es2_crc = crc\<rparr>"

definition stage2_total_size :: "embedded_stage2 \<Rightarrow> nat" where
  "stage2_total_size b = STAGE2_SIZE"

definition stage2_crc :: "embedded_stage2 \<Rightarrow> u32" where
  "stage2_crc b = es2_crc b"

text \<open>The source repeats the body of \<^verbatim>\<open>SliceBlob::block\<close> on the embedded bytes.\<close>

definition stage2_block :: "embedded_stage2 \<Rightarrow> u16 \<Rightarrow> nat \<Rightarrow> (u8 list \<times> u8) option option" where
  "stage2_block b = blob_block STAGE2_PLACEHOLDER"

lemma STAGE2_SIZE_eq: "STAGE2_SIZE = 49"
  by (simp add: STAGE2_SIZE_def STAGE2_PLACEHOLDER_def)

lemma length_STAGE2 [simp]: "length STAGE2_PLACEHOLDER = 49"
  using STAGE2_SIZE_eq by (simp add: STAGE2_SIZE_def)

interpretation stage2: block_source stage2_total_size stage2_block "\<lambda>_. STAGE2_PLACEHOLDER"
  by unfold_locales
    (simp_all add: stage2_total_size_def STAGE2_SIZE_def stage2_block_def blob_block_inside
      blob_block_past_end)

subsection \<open>The block server\<close>

definition BLOCK_SIZE :: nat where [const_defs]: "BLOCK_SIZE = 64"
definition RECV_HDR_LEN :: nat where [const_defs]: "RECV_HDR_LEN = 5"
definition RECV_MAX_PAYLOAD :: nat where [const_defs]: "RECV_MAX_PAYLOAD = RECV_HDR_LEN + BLOCK_SIZE"

datatype block_error = BadRequestPayload | BlockOutOfRange

record block_server =
  expected_block :: u16

definition block_server_new :: block_server where
  "block_server_new = \<lparr>expected_block = 0\<rparr>"

definition block_server_reset :: "block_server \<Rightarrow> block_server" where
  "block_server_reset s = s\<lparr>expected_block := 0\<rparr>"

definition parse_send_block :: "u8 list \<Rightarrow> block_error + u16" where
  "parse_send_block payload =
     (if length payload \<noteq> 4 then Inl BadRequestPayload
      else if payload ! 0 \<noteq> 0 \<or> payload ! 1 \<noteq> 0 then Inl BadRequestPayload
      else Inr (from_be16 (payload ! 2) (payload ! 3)))"

text \<open>
  The trait's \<^verbatim>\<open>block\<close> is an argument.  \<open>None\<close> is a panic: the \<^verbatim>\<open>debug_assert!\<close> on the output
  buffer, a panic of \<^verbatim>\<open>block\<close>, or a slice that differs from the announced count.
\<close>

definition build_recv_block ::
  "('b \<Rightarrow> u16 \<Rightarrow> nat \<Rightarrow> (u8 list \<times> u8) option option) \<Rightarrow> block_server \<Rightarrow> 'b \<Rightarrow> u16 \<Rightarrow> u8 list \<Rightarrow>
   ((block_error + nat) \<times> u8 list) option" where
  "build_recv_block block s blob block_no out =
     (if length out < RECV_MAX_PAYLOAD then None
      else case block blob block_no BLOCK_SIZE of
        None \<Rightarrow> None
      | Some None \<Rightarrow> Some (Inl BlockOutOfRange, out)
      | Some (Some (data, count)) \<Rightarrow>
          if length data \<noteq> unat count \<or> length out < RECV_HDR_LEN + unat count then None
          else
            let bn = (ucast block_no :: u32);
                out = blit 0 (be32 bn) out;
                out = out[4 := count];
                out = blit RECV_HDR_LEN data out
            in Some (Inr (RECV_HDR_LEN + unat count), out))"

definition handle_ack :: "block_server \<Rightarrow> u8 list \<Rightarrow> block_server" where
  "handle_ack s payload =
     (case parse_send_block payload of
        Inr bn \<Rightarrow>
          if bn = expected_block s then s\<lparr>expected_block := saturating_inc (expected_block s)\<rparr>
          else s
      | Inl _ \<Rightarrow> s)"

text \<open>The payload of \<^verbatim>\<open>SEND_BLOCK\<close> and \<^verbatim>\<open>BLOCK_ACK\<close>, and the bytes a \<^verbatim>\<open>RECV_BLOCK\<close> carries.\<close>

definition block_no_payload :: "u16 \<Rightarrow> u8 list" where
  "block_no_payload n = [0, 0] @ be16 n"

definition recv_block_payload :: "u16 \<Rightarrow> u8 list \<Rightarrow> u8 list" where
  "recv_block_payload n data = block_no_payload n @ of_nat (length data) # data"

definition parse_send_block_opt :: "u8 list \<Rightarrow> u16 option" where
  "parse_send_block_opt payload = (case parse_send_block payload of Inl _ \<Rightarrow> None | Inr n \<Rightarrow> Some n)"

lemma parse_block_no_payload [simp]: "parse_send_block (block_no_payload n) = Inr n"
  by (simp add: parse_send_block_def block_no_payload_def be16_def codec_simps)

lemma length_4_split:
  assumes "length xs = 4" shows "xs = [xs ! 0, xs ! 1, xs ! 2, xs ! 3]"
  using assms by (intro nth_equalityI) (auto simp: less_Suc_eq numeral_eq_Suc)

lemma parse_send_block_sound:
  assumes "parse_send_block p = Inr n" shows "p = block_no_payload n"
proof -
  from assms have l: "length p = 4" and z: "p ! 0 = 0" "p ! 1 = 0"
    and n: "n = from_be16 (p ! 2) (p ! 3)"
    by (auto simp: parse_send_block_def split: if_splits)
  have "p = [p ! 0, p ! 1, p ! 2, p ! 3]" using l by (rule length_4_split)
  then show ?thesis using z by (simp add: block_no_payload_def n codec_simps)
qed

interpretation block_no: codec block_no_payload parse_send_block_opt "\<lambda>_. True"
  by unfold_locales
    (auto simp: parse_send_block_opt_def split: sum.splits dest: parse_send_block_sound)

lemma parse_send_block_iff: "parse_send_block p = Inr n \<longleftrightarrow> p = block_no_payload n"
  by (auto dest: parse_send_block_sound)

lemma be32_u16: "be32 (ucast (n::u16)) = block_no_payload n"
proof -
  have "ucast (drop_bit 24 (ucast n :: u32)) = (0::u8)" "ucast (drop_bit 16 (ucast n :: u32)) = (0::u8)"
    by (rule bit_word_eqI; auto simp: bit_simps dest: bit_imp_le_length)+
  moreover have "ucast (drop_bit 8 (ucast n :: u32)) = (ucast (drop_bit 8 n) :: u8)"
    "ucast (ucast n :: u32) = (ucast n :: u8)"
    by (rule bit_word_eqI; auto simp: bit_simps)+
  ultimately show ?thesis by (simp add: be32_def block_no_payload_def be16_def)
qed

context block_source
begin

lemma build_recv_block_inside:
  assumes "RECV_MAX_PAYLOAD \<le> length out" "unat n * BLOCK_SIZE < length (image b)"
  defines "d \<equiv> take BLOCK_SIZE (drop (unat n * BLOCK_SIZE) (image b))"
  shows "build_recv_block block s b n out =
    Some (Inr (RECV_HDR_LEN + length d),
          recv_block_payload n d @ drop (RECV_HDR_LEN + length d) out)"
proof -
  let ?c = "of_nat (min BLOCK_SIZE (length (image b) - unat n * BLOCK_SIZE)) :: u8"
  have blk: "block b n BLOCK_SIZE = Some (Some (d, ?c))"
    using assms(2) unfolding d_def by (intro block_inside) (simp_all add: const_defs)
  have ld: "length d = min BLOCK_SIZE (length (image b) - unat n * BLOCK_SIZE)"
    by (simp add: d_def)
  have cnt: "unat ?c = length d"
    using block_count [OF _ _ blk] by (simp add: const_defs)
  have c: "?c = of_nat (length d)" by (simp add: ld)
  have "length d \<le> 64" by (simp add: ld const_defs)
  then have "length out \<ge> 5 + length d" using assms(1) by (simp add: const_defs)
  moreover obtain o0 o1 o2 o3 o4 rest where out: "out = o0 # o1 # o2 # o3 # o4 # rest"
    using assms(1) by (auto simp: const_defs Suc_le_length_iff numeral_eq_Suc)
  moreover have "drop (5 + length d) out = drop (length d) rest"
    by (simp add: out numeral_eq_Suc)
  moreover have "length out \<ge> 69" using assms(1) by (simp add: const_defs)
  ultimately show ?thesis
    using blk cnt unfolding c
    by (simp add: build_recv_block_def const_defs Let_def blit_def recv_block_payload_def
        be32_u16 block_no_payload_def be16_def)
qed

lemma build_recv_block_past_end:
  assumes "RECV_MAX_PAYLOAD \<le> length out" "length (image b) \<le> unat n * BLOCK_SIZE"
  shows "build_recv_block block s b n out = Some (Inl BlockOutOfRange, out)"
  using assms block_past_end [of BLOCK_SIZE b n] by (simp add: build_recv_block_def const_defs)

end

subsection \<open>Downloading\<close>

text \<open>The bytes a host keeps of a \<^verbatim>\<open>RECV_BLOCK\<close> payload: as many as the count byte says.\<close>

definition payload_data :: "u8 list \<Rightarrow> u8 list" where
  "payload_data p = take (unat (p ! 4)) (drop 5 p)"

lemma length_recv_block_payload [simp]: "length (recv_block_payload n d) = 5 + length d"
  by (simp add: recv_block_payload_def block_no_payload_def)

lemma payload_data_recv [simp]:
  "length d \<le> 64 \<Longrightarrow> payload_data (recv_block_payload n d) = d"
  by (simp add: payload_data_def recv_block_payload_def block_no_payload_def be16_def unat_of_nat)

text \<open>What the server writes into a fresh buffer, trimmed to the returned length.\<close>

definition served :: "slice_blob \<Rightarrow> block_server \<Rightarrow> u16 \<Rightarrow> u8 list option" where
  "served blob s n =
     (case build_recv_block slice_block s blob n (replicate RECV_MAX_PAYLOAD 0) of
        Some (Inr k, out) \<Rightarrow> Some (take k out)
      | _ \<Rightarrow> None)"

lemma served_inside:
  assumes "unat n * 64 < length (sb_data blob)"
  shows "served blob s n = Some (recv_block_payload n (take 64 (drop (unat n * 64) (sb_data blob))))"
proof -
  define d where "d = take 64 (drop (unat n * 64) (sb_data blob))"
  have "build_recv_block slice_block s blob n (replicate RECV_MAX_PAYLOAD 0) =
      Some (Inr (5 + length d), recv_block_payload n d @ drop (5 + length d) (replicate 69 0))"
    using slice.build_recv_block_inside [of "replicate RECV_MAX_PAYLOAD 0" n blob s] assms
    by (simp add: const_defs d_def)
  then show ?thesis by (simp add: served_def d_def [symmetric])
qed

lemma served_past_end:
  assumes "length (sb_data blob) \<le> unat n * 64"
  shows "served blob s n = None"
  using slice.build_recv_block_past_end [of "replicate RECV_MAX_PAYLOAD 0" blob n s] assms
  by (simp add: served_def const_defs)

lemma served_blocks_prefix:
  assumes "length (sb_data blob) \<le> 65536 * 64" "(k - 1) * 64 < length (sb_data blob)" "0 < k"
  shows "concat (map (\<lambda>i. payload_data (the (served blob s (of_nat i)))) [0..<k])
         = take (k * 64) (sb_data blob)"
proof -
  have k: "k \<le> 65536" using assms by linarith
  have "payload_data (the (served blob s (of_nat i))) =
      (case slice_block blob (of_nat i) 64 of Some (Some (d, c)) \<Rightarrow> d | _ \<Rightarrow> [])" if "i < k" for i
  proof -
    have u: "unat (of_nat i :: u16) = i" using that k by (simp add: unat_of_nat)
    have "i * 64 \<le> (k - 1) * 64" using that by simp
    then have "unat (of_nat i :: u16) * 64 < length (sb_data blob)"
      using assms(2) unfolding u by linarith
    then show ?thesis
      by (simp add: served_inside slice.block_inside)
  qed
  then have m: "map (\<lambda>i. payload_data (the (served blob s (of_nat i)))) [0..<k] =
     map (\<lambda>i. case slice_block blob (of_nat i) 64 of Some (Some (d, c)) \<Rightarrow> d | _ \<Rightarrow> []) [0..<k]"
    by simp
  show ?thesis
    by (rule trans [OF arg_cong [where f = concat, OF m] slice.blocks_prefix])
      (use k assms(2) in simp_all)
qed

text \<open>
  Block download.  For an image of at most 65536 blocks, a host that asks for the blocks
  \<open>0, 1, \<dots>\<close> of \<^verbatim>\<open>ceil(size / 64)\<close> gets exactly the image when it puts the data of the
  \<^verbatim>\<open>RECV_BLOCK\<close> payloads together, and the server rejects every later block number; none of this
  depends on the state of the server.
\<close>

theorem download_is_image:
  assumes "length (sb_data blob) \<le> 65536 * 64"
  defines "k \<equiv> (length (sb_data blob) + 63) div 64"
  shows "concat (map (\<lambda>i. payload_data (the (served blob s (of_nat i)))) [0..<k]) = sb_data blob
    \<and> (\<forall>n. served blob s n = None \<longleftrightarrow> k \<le> unat n)"
proof
  have k: "length (sb_data blob) \<le> k * 64" unfolding k_def by linarith
  show "concat (map (\<lambda>i. payload_data (the (served blob s (of_nat i)))) [0..<k]) = sb_data blob"
  proof (cases "k = 0")
    case True
    then show ?thesis using k by simp
  next
    case False
    then have "(k - 1) * 64 < length (sb_data blob)" unfolding k_def by linarith
    with served_blocks_prefix [OF assms(1), of k s] False k show ?thesis by simp
  qed
  have "served blob s n = None \<longleftrightarrow> k \<le> unat n" for n
  proof (cases "unat n * 64 < length (sb_data blob)")
    case True
    then have "unat n < k" unfolding k_def by linarith
    then show ?thesis using True by (simp add: served_inside)
  next
    case False
    then have "k \<le> unat n" unfolding k_def by linarith
    then show ?thesis using False by (simp add: served_past_end)
  qed
  then show "\<forall>n. served blob s n = None \<longleftrightarrow> k \<le> unat n" by blast
qed

theorem download_is_image_witness:
  "concat (map (\<lambda>i. payload_data (the (served \<lparr>sb_data = replicate 130 7, sb_crc32 = 0\<rparr>
       block_server_new (of_nat i)))) [0..<3]) = replicate 130 7"
  using download_is_image [of "\<lparr>sb_data = replicate 130 7, sb_crc32 = 0\<rparr>" block_server_new]
  by simp

subsection \<open>Acknowledgements\<close>

lemma handle_ack_other: "p \<noteq> block_no_payload (expected_block s) \<Longrightarrow> handle_ack s p = s"
  by (auto simp: handle_ack_def parse_send_block_iff split: sum.splits)

lemma handle_ack_expected [simp]:
  "handle_ack s (block_no_payload (expected_block s)) =
   s\<lparr>expected_block := saturating_inc (expected_block s)\<rparr>"
  by (simp add: handle_ack_def)

lemma handle_ack_mono: "expected_block s \<le> expected_block (handle_ack s p)"
  by (cases "p = block_no_payload (expected_block s)") (auto simp: handle_ack_other saturating_inc_ge)

lemma handle_ack_step:
  assumes "n < expected_block (handle_ack s p)"
  shows "n < expected_block s \<or> p = block_no_payload n"
proof (cases "p = block_no_payload (expected_block s)")
  case True
  then have "n < saturating_inc (expected_block s)" using assms by simp
  then have "n \<le> expected_block s"
    by (auto simp: saturating_inc_def word_less_nat_alt word_le_nat_alt unat_inc split: if_splits)
  then show ?thesis using True by (auto simp: le_less)
next
  case False
  then show ?thesis using assms by (simp add: handle_ack_other)
qed

lemma foldl_ack_mono: "expected_block s \<le> expected_block (foldl handle_ack s ps)"
  by (induction ps arbitrary: s) (auto intro: order_trans [OF handle_ack_mono])

text \<open>
  Acknowledgement tracking.  Whatever packets arrive, the server's progress never goes back,
  every block below \<^verbatim>\<open>expected_block\<close> has been acknowledged since the last reset, and a repeated
  acknowledgement changes nothing.
\<close>

theorem ack_progress_sound:
  "expected_block s \<le> expected_block (foldl handle_ack s ps)
   \<and> (n < expected_block (foldl handle_ack (block_server_reset s) ps) \<longrightarrow> block_no_payload n \<in> set ps)
   \<and> (expected_block s \<noteq> - 1 \<longrightarrow> handle_ack (handle_ack s p) p = handle_ack s p)"
proof (intro conjI impI)
  show "expected_block s \<le> expected_block (foldl handle_ack s ps)"
    by (rule foldl_ack_mono)
  have "n < expected_block (foldl handle_ack t ps) \<Longrightarrow> n < expected_block t \<or> block_no_payload n \<in> set ps"
    for t
    by (induction ps arbitrary: t) (auto dest: handle_ack_step)
  then show "block_no_payload n \<in> set ps"
    if "n < expected_block (foldl handle_ack (block_server_reset s) ps)"
    using that by (fastforce simp: block_server_reset_def)
  assume e: "expected_block s \<noteq> - 1"
  show "handle_ack (handle_ack s p) p = handle_ack s p"
  proof (cases "p = block_no_payload (expected_block s)")
    case True
    have "saturating_inc (expected_block s) \<noteq> expected_block s"
      using saturating_inc_less [OF e] by auto
    then show ?thesis
      using True by (simp add: handle_ack_other block_no.enc_inj)
  next
    case False
    then show ?thesis by (simp add: handle_ack_other)
  qed
qed

theorem ack_progress_sound_witness:
  "block_no_payload 1 \<in> set [block_no_payload 0, block_no_payload 0, block_no_payload 1]"
proof -
  have "1 < expected_block (foldl handle_ack (block_server_reset block_server_new)
      [block_no_payload 0, block_no_payload 0, block_no_payload 1])"
    by (simp add: block_server_reset_def block_server_new_def handle_ack_def saturating_inc_def)
  then show ?thesis
    using ack_progress_sound [of block_server_new
        "[block_no_payload 0, block_no_payload 0, block_no_payload 1]" 1 "[]"] by blast
qed

subsection \<open>The capability payload\<close>

definition VERSION_MAJOR :: u8 where [const_defs]: "VERSION_MAJOR = 1"
definition VERSION_MINOR :: u8 where [const_defs]: "VERSION_MINOR = 0"
definition ACTIVE_MODE_SPP :: u8 where [const_defs]: "ACTIVE_MODE_SPP = 1"
definition CAP_PAYLOAD_LEN :: nat where [const_defs]: "CAP_PAYLOAD_LEN = 36"

text \<open>The blob enters with its \<^verbatim>\<open>total_size()\<close> and its \<^verbatim>\<open>crc32()\<close>; \<open>None\<close> is the panic on a short buffer.\<close>

definition build_cap_rsp_payload :: "nat \<Rightarrow> u32 \<Rightarrow> u8 \<Rightarrow> u8 list \<Rightarrow> (nat \<times> u8 list) option" where
  "build_cap_rsp_payload total_size crc active_mode out =
     (if length out < CAP_PAYLOAD_LEN then None
      else
        let slice = replicate CAP_PAYLOAD_LEN 0;
            slice = slice[0 := VERSION_MAJOR];
            slice = slice[1 := VERSION_MINOR];
            slice = slice[23 := active_mode];
            size = (of_nat total_size :: u32);
            slice = blit 28 (be32 size) slice;
            slice = blit 32 (be32 crc) slice
        in Some (CAP_PAYLOAD_LEN, slice @ drop CAP_PAYLOAD_LEN out))"

text \<open>What Stage 1 reads from the payload (the offsets of the table in \<^verbatim>\<open>cap.rs\<close>).\<close>

definition cap_layout :: "nat \<Rightarrow> u32 \<Rightarrow> u8 \<Rightarrow> u8 list" where
  "cap_layout total_size crc mode =
     [1, 0] @ replicate 21 0 @ [mode] @ replicate 4 0 @ be32 (of_nat total_size) @ be32 crc"

lemma build_cap_rsp_layout:
  assumes "36 \<le> length out"
  shows "build_cap_rsp_payload n crc mode out =
     Some (36, cap_layout n crc mode @ drop 36 out)"
  using assms
  by (simp add: build_cap_rsp_payload_def const_defs Let_def blit_def cap_layout_def be32_def
      numeral_eq_Suc)

lemma length_cap_layout [simp]: "length (cap_layout n crc mode) = 36"
  by (simp add: cap_layout_def)

end
