(* ===== verification/Telemetry.thy ===== *)
theory Telemetry
  imports Prelude "HOL-Library.Sublist"
begin

text \<open>
  The telemetry schema (\<^verbatim>\<open>crates/telemetry-schema\<close>) and the firmware's sinks
  (\<^verbatim>\<open>firmware/src/telemetry\<close>, the inbox of \<^verbatim>\<open>firmware/src/usb/events.rs\<close>).  The trait
  \<^verbatim>\<open>TelemetryEmit\<close> is the locale \<open>telemetry_emit\<close>: emitting an event either records it after
  everything recorded so far or loses it, and nothing else happens.
\<close>

datatype port = Kbd | Aux | Lpt
datatype plane = Control | Data
datatype plane_state = Active | Idle | IdlePlanned | Degraded | Fallback | NotApplicable

datatype resync_reason =
    PreSohByte | PayloadTooLong | ResyncBadCrc | ResyncBadEtx | ResyncDecodeError

datatype event =
    Boot (ev_fw_version: string) (ev_phase: u8)
  | DownloadBegin (ev_total_blocks: u16) (ev_expected_crc32: u32) (ev_size_bytes: u32)
  | BlockAck (ev_block_no: u16) (ev_running_crc32: u32)
  | DownloadComplete (ev_crc_match: bool) (ev_final_crc32: u32)
  | SeqGap (ev_expected: u8) (ev_got: u8) (ev_cmd: u8)
  | UnknownCmd (ev_unknown: u8)
  | PacketStreamResync (ev_reason: resync_reason)
  | EncodeError

subsection \<open>The trait\<close>

locale telemetry_emit =
  fixes emit :: "event \<Rightarrow> 's \<Rightarrow> 's"
    and observed :: "'s \<Rightarrow> event list"
  assumes observed_emit: "observed (emit e s) = observed s @ [e] \<or> observed (emit e s) = observed s"
begin

lemma observed_fold: "\<exists>ds. observed (fold emit es s) = observed s @ ds \<and> subseq ds es"
proof (induction es arbitrary: s)
  case Nil
  then show ?case by simp
next
  case (Cons e es)
  from Cons.IH [of "emit e s"] obtain ds
    where ds: "observed (fold emit es (emit e s)) = observed (emit e s) @ ds" "subseq ds es" by blast
  from observed_emit [of e s] show ?case
  proof
    assume "observed (emit e s) = observed s @ [e]"
    then show ?thesis using ds by (intro exI [of _ "e # ds"]) simp
  next
    assume "observed (emit e s) = observed s"
    then show ?thesis using ds by (intro exI [of _ ds]) (auto intro: list_emb_Cons)
  qed
qed

lemma observed_order: "\<exists>ds. observed (fold emit es s) = observed s @ ds \<and> set ds \<subseteq> set es"
  using observed_fold [of es s] by (auto dest: list_emb_set)

end

subsection \<open>The sinks\<close>

definition noop_emit :: "event \<Rightarrow> unit \<Rightarrow> unit" where
  "noop_emit event s = s"

datatype log_level = Debug | Info | Warn

definition defmt_level :: "event \<Rightarrow> log_level" where
  "defmt_level e =
     (case e of
        Boot _ _ \<Rightarrow> Info
      | DownloadBegin _ _ _ \<Rightarrow> Info
      | BlockAck _ _ \<Rightarrow> Debug
      | DownloadComplete crc_match _ \<Rightarrow> (if crc_match then Info else Warn)
      | SeqGap _ _ _ \<Rightarrow> Warn
      | UnknownCmd _ \<Rightarrow> Warn
      | PacketStreamResync _ \<Rightarrow> Warn
      | EncodeError \<Rightarrow> Warn)"

text \<open>One log line per event, at its level; the text of the line is the event itself.\<close>

definition defmt_emit :: "event \<Rightarrow> (log_level \<times> event) list \<Rightarrow> (log_level \<times> event) list" where
  "defmt_emit event rtt = rtt @ [(defmt_level event, event)]"

definition USB_EVENT_CAP :: nat where [const_defs]: "USB_EVENT_CAP = 32"

record usb_inbox =
  usb_event_chan :: "event list"
  usb_event_drops :: u32

definition usb_emit :: "event \<Rightarrow> usb_inbox \<Rightarrow> usb_inbox" where
  "usb_emit event s =
     (case vec_push USB_EVENT_CAP (usb_event_chan s) event of
        Some q \<Rightarrow> s\<lparr>usb_event_chan := q\<rparr>
      | None \<Rightarrow> s\<lparr>usb_event_drops := usb_event_drops s + 1\<rparr>)"

definition multi_emit ::
  "(event \<Rightarrow> 'a \<Rightarrow> 'a) \<Rightarrow> (event \<Rightarrow> 'b \<Rightarrow> 'b) \<Rightarrow> event \<Rightarrow> 'a \<times> 'b \<Rightarrow> 'a \<times> 'b" where
  "multi_emit emit_a emit_b event s = (let a = emit_a event (fst s); b = emit_b event (snd s) in (a, b))"

text \<open>The production sink: \<^verbatim>\<open>DualEmit\<close>.\<close>

definition dual_emit ::
  "event \<Rightarrow> (log_level \<times> event) list \<times> usb_inbox \<Rightarrow> (log_level \<times> event) list \<times> usb_inbox" where
  "dual_emit = multi_emit defmt_emit usb_emit"

interpretation noop: telemetry_emit noop_emit "\<lambda>_. []"
  by unfold_locales simp

interpretation defmt: telemetry_emit defmt_emit "map snd"
  by unfold_locales (simp add: defmt_emit_def)

interpretation usb: telemetry_emit usb_emit usb_event_chan
  by unfold_locales (simp add: usb_emit_def vec_push_def vec_extend_def)

text \<open>A pair of sinks is a sink, seen through either half.\<close>

locale telemetry_pair =
  a: telemetry_emit emit_a obs_a + b: telemetry_emit emit_b obs_b
  for emit_a :: "event \<Rightarrow> 'a \<Rightarrow> 'a" and obs_a :: "'a \<Rightarrow> event list"
    and emit_b :: "event \<Rightarrow> 'b \<Rightarrow> 'b" and obs_b :: "'b \<Rightarrow> event list"
begin

lemma multi_fst: "fst (multi_emit emit_a emit_b e s) = emit_a e (fst s)"
  by (simp add: multi_emit_def)

lemma multi_snd: "snd (multi_emit emit_a emit_b e s) = emit_b e (snd s)"
  by (simp add: multi_emit_def)

lemma multi_fold: "fold (multi_emit emit_a emit_b) es s = (fold emit_a es (fst s), fold emit_b es (snd s))"
  by (induction es arbitrary: s) (simp_all add: multi_fst multi_snd)

end

sublocale telemetry_pair \<subseteq> left: telemetry_emit "multi_emit emit_a emit_b" "\<lambda>s. obs_a (fst s)"
  by unfold_locales (simp add: multi_fst a.observed_emit)

sublocale telemetry_pair \<subseteq> right: telemetry_emit "multi_emit emit_a emit_b" "\<lambda>s. obs_b (snd s)"
  by unfold_locales (simp add: multi_snd b.observed_emit)

interpretation dual: telemetry_pair defmt_emit "map snd" usb_emit usb_event_chan
  by unfold_locales

lemma defmt_fold: "fold defmt_emit es rtt = rtt @ map (\<lambda>e. (defmt_level e, e)) es"
  by (induction es arbitrary: rtt) (simp_all add: defmt_emit_def)

lemma usb_fold:
  assumes "length (usb_event_chan s) \<le> 32"
  shows "fold usb_emit es s =
    \<lparr>usb_event_chan = usb_event_chan s @ take (32 - length (usb_event_chan s)) es,
     usb_event_drops = usb_event_drops s + of_nat (length es - (32 - length (usb_event_chan s)))\<rparr>"
  using assms
proof (induction es arbitrary: s)
  case Nil
  then show ?case by simp
next
  case (Cons e es)
  show ?case
  proof (cases "length (usb_event_chan s) < 32")
    case True
    then have "usb_emit e s = s\<lparr>usb_event_chan := usb_event_chan s @ [e]\<rparr>"
      by (simp add: usb_emit_def vec_push_def vec_extend_def const_defs)
    moreover from True obtain k where "32 - length (usb_event_chan s) = Suc k"
      by (metis Suc_diff_Suc)
    moreover from this have "31 - length (usb_event_chan s) = k" by simp
    ultimately show ?thesis using Cons.IH [of "usb_emit e s"] True by simp
  next
    case False
    then have "usb_emit e s = s\<lparr>usb_event_drops := usb_event_drops s + 1\<rparr>"
      by (simp add: usb_emit_def vec_push_def vec_extend_def const_defs)
    with Cons.IH [of "usb_emit e s"] Cons.prems False show ?thesis by simp
  qed
qed

text \<open>
  Backpressure of the telemetry channel.  Whatever burst is emitted through the production sink,
  the debug probe sees every event in order at its level, the USB inbox keeps at most 32 events, namely
  the oldest ones, and \<^verbatim>\<open>USB_EVENT_DROPS\<close> grows by exactly the number of lost ones (modulo
  \<open>2 ^ 32\<close>).  It is the newest events that are lost.
\<close>

theorem dual_emit_backpressure:
  assumes "length (usb_event_chan u) \<le> 32"
  shows "fold dual_emit es (rtt, u) =
    (rtt @ map (\<lambda>e. (defmt_level e, e)) es,
     \<lparr>usb_event_chan = usb_event_chan u @ take (32 - length (usb_event_chan u)) es,
      usb_event_drops = usb_event_drops u + of_nat (length es - (32 - length (usb_event_chan u)))\<rparr>)"
  unfolding dual_emit_def dual.multi_fold
  by (simp add: defmt_fold usb_fold [OF assms])

theorem dual_emit_backpressure_witness:
  "usb_event_drops (snd (fold dual_emit (replicate 40 EncodeError)
     ([], \<lparr>usb_event_chan = [], usb_event_drops = 0\<rparr>))) = 8"
  by (subst dual_emit_backpressure) simp_all

end
