(* ===== verification/Session.thy ===== *)
theory Session
  imports Blocks Telemetry
begin

text \<open>
  The protocol dispatcher (\<^verbatim>\<open>firmware/src/protocol/mod.rs\<close>): session state, one handler per command,
  replies built from the packet codec, the block server and the capability payload.  Handlers return
  \<open>None\<close> for a panic.  The telemetry sink is an argument, as the trait bound of the source is.
\<close>

record session_state =
  ss_block_server :: block_server
  ss_blob :: embedded_stage2
  ss_tx_seq :: u8
  ss_rx_seq_expected :: u8
  ss_cap_acked :: bool

definition session_with_blob :: "embedded_stage2 \<Rightarrow> session_state" where
  "session_with_blob blob =
     \<lparr>ss_block_server = block_server_new, ss_blob = blob, ss_tx_seq = 0, ss_rx_seq_expected = 0,
      ss_cap_acked = False\<rparr>"

definition session_new :: session_state where
  "session_new = session_with_blob stage2_new"

definition session_reset :: "session_state \<Rightarrow> session_state" where
  "session_reset s =
     s\<lparr>ss_block_server := block_server_reset (ss_block_server s), ss_tx_seq := 0,
       ss_rx_seq_expected := 0, ss_cap_acked := False\<rparr>"

definition session_next_seq :: "session_state \<Rightarrow> u8 \<times> session_state" where
  "session_next_seq s = (ss_tx_seq s, s\<lparr>ss_tx_seq := ss_tx_seq s + 1\<rparr>)"

datatype dispatch_outcome = Reply outgoing_packet | Silent | Ignored

definition build_reply :: "u8 \<Rightarrow> u8 \<Rightarrow> u8 list \<Rightarrow> dispatch_outcome" where
  "build_reply cmd seq payload =
     (case outgoing_new cmd seq payload of Some p \<Rightarrow> Reply p | None \<Rightarrow> Ignored)"

definition handle_cap_req ::
  "incoming_packet \<Rightarrow> session_state \<Rightarrow> (dispatch_outcome \<times> session_state) option" where
  "handle_cap_req p s =
     (let s = session_reset s;
          payload = replicate CAP_PAYLOAD_LEN 0 in
      case build_cap_rsp_payload (stage2_total_size (ss_blob s)) (stage2_crc (ss_blob s))
             ACTIVE_MODE_SPP payload of
        None \<Rightarrow> None
      | Some (n, payload) \<Rightarrow>
          let (q, s) = session_next_seq s
          in Some (build_reply CMD_CAP_RSP q (take n payload), s))"

definition handle_cap_ack ::
  "incoming_packet \<Rightarrow> session_state \<Rightarrow> (dispatch_outcome \<times> session_state) option" where
  "handle_cap_ack p s = Some (Silent, s\<lparr>ss_cap_acked := True\<rparr>)"

definition handle_ping ::
  "incoming_packet \<Rightarrow> session_state \<Rightarrow> (dispatch_outcome \<times> session_state) option" where
  "handle_ping p s =
     (let (q, s) = session_next_seq s in Some (build_reply CMD_PONG q (in_payload p), s))"

definition handle_send_block ::
  "incoming_packet \<Rightarrow> session_state \<Rightarrow> (dispatch_outcome \<times> session_state) option" where
  "handle_send_block p s =
     (case parse_send_block (in_payload p) of
        Inl _ \<Rightarrow> Some (Ignored, s)
      | Inr block_no \<Rightarrow>
          (case build_recv_block stage2_block (ss_block_server s) (ss_blob s) block_no
                  (replicate RECV_MAX_PAYLOAD 0) of
             None \<Rightarrow> None
           | Some (Inl _, _) \<Rightarrow> Some (Ignored, s)
           | Some (Inr n, payload) \<Rightarrow>
               let (q, s) = session_next_seq s
               in Some (build_reply CMD_RECV_BLOCK q (take n payload), s)))"

definition handle_block_ack ::
  "(event \<Rightarrow> 't \<Rightarrow> 't) \<Rightarrow> incoming_packet \<Rightarrow> session_state \<Rightarrow> 't \<Rightarrow>
   (dispatch_outcome \<times> session_state \<times> 't) option" where
  "handle_block_ack emit p s t =
     (let s = s\<lparr>ss_block_server := handle_ack (ss_block_server s) (in_payload p)\<rparr>;
          t = emit (BlockAck (saturating_dec (expected_block (ss_block_server s)))
                             (stage2_crc (ss_blob s))) t
      in Some (Silent, s, t))"

definition handle_block_nak :: dispatch_outcome where
  "handle_block_nak = Silent"

definition with_sink :: "'t \<Rightarrow> ('a \<times> 'b) option \<Rightarrow> ('a \<times> 'b \<times> 't) option" where
  "with_sink t r = (case r of None \<Rightarrow> None | Some (a, b) \<Rightarrow> Some (a, b, t))"

definition handle_packet ::
  "(event \<Rightarrow> 't \<Rightarrow> 't) \<Rightarrow> incoming_packet \<Rightarrow> session_state \<Rightarrow> 't \<Rightarrow>
   (dispatch_outcome \<times> session_state \<times> 't) option" where
  "handle_packet emit p s t =
     (let t = (if in_seq p \<noteq> ss_rx_seq_expected s
               then emit (SeqGap (ss_rx_seq_expected s) (in_seq p) (in_cmd p)) t else t);
          s = s\<lparr>ss_rx_seq_expected := in_seq p + 1\<rparr>
      in if in_cmd p = CMD_CAP_REQ then with_sink t (handle_cap_req p s)
         else if in_cmd p = CMD_CAP_ACK then with_sink t (handle_cap_ack p s)
         else if in_cmd p = CMD_PING then with_sink t (handle_ping p s)
         else if in_cmd p = CMD_SEND_BLOCK then with_sink t (handle_send_block p s)
         else if in_cmd p = CMD_BLOCK_ACK then handle_block_ack emit p s t
         else if in_cmd p = CMD_BLOCK_NAK then Some (handle_block_nak, s, t)
         else Some (Ignored, s, emit (UnknownCmd (in_cmd p)) t))"

text \<open>The task loop over the packets that arrive, with the outcome of each.\<close>

fun run_session ::
  "(event \<Rightarrow> 't \<Rightarrow> 't) \<Rightarrow> incoming_packet list \<Rightarrow> session_state \<Rightarrow> 't \<Rightarrow>
   (dispatch_outcome list \<times> session_state \<times> 't) option" where
  "run_session emit [] s t = Some ([], s, t)"
| "run_session emit (p # ps) s t =
     (case handle_packet emit p s t of
        None \<Rightarrow> None
      | Some (r, s, t) \<Rightarrow>
          (case run_session emit ps s t of
             None \<Rightarrow> None
           | Some (rs, s, t) \<Rightarrow> Some (r # rs, s, t)))"

subsection \<open>What a packet is answered with\<close>

text \<open>
  The specification of the replies: command and payload as a function of the request alone.  A
  \<^verbatim>\<open>SEND_BLOCK\<close> may therefore be repeated at will, which is what Stage 1's retry relies on.
\<close>

definition reply_spec :: "u32 \<Rightarrow> incoming_packet \<Rightarrow> (u8 \<times> u8 list) option" where
  "reply_spec crc p =
     (if in_cmd p = CMD_CAP_REQ then Some (CMD_CAP_RSP, cap_layout STAGE2_SIZE crc ACTIVE_MODE_SPP)
      else if in_cmd p = CMD_PING then Some (CMD_PONG, in_payload p)
      else if in_cmd p = CMD_SEND_BLOCK then
        (case parse_send_block (in_payload p) of
           Inl _ \<Rightarrow> None
         | Inr n \<Rightarrow> if unat n * 64 < STAGE2_SIZE
             then Some (CMD_RECV_BLOCK,
                        recv_block_payload n (take 64 (drop (unat n * 64) STAGE2_PLACEHOLDER)))
             else None)
      else None)"

definition reply_of :: "dispatch_outcome \<Rightarrow> (u8 \<times> u8 list) option" where
  "reply_of r = (case r of Reply q \<Rightarrow> Some (out_cmd q, out_payload q) | _ \<Rightarrow> None)"

lemma build_reply_fits:
  "length payload \<le> 248 \<Longrightarrow>
   build_reply cmd seq payload = Reply \<lparr>out_cmd = cmd, out_seq = seq, out_payload = payload\<rparr>"
  by (simp add: build_reply_def outgoing_new_def vec_extend_def const_defs)

lemma handle_cap_req_eq:
  "handle_cap_req p s =
     Some (Reply \<lparr>out_cmd = CMD_CAP_RSP, out_seq = 0,
                  out_payload = cap_layout STAGE2_SIZE (es2_crc (ss_blob s)) ACTIVE_MODE_SPP\<rparr>,
           (session_reset s)\<lparr>ss_tx_seq := 1\<rparr>)"
  by (simp add: handle_cap_req_def Let_def build_cap_rsp_layout CAP_PAYLOAD_LEN_def
      session_next_seq_def session_reset_def build_reply_fits stage2_total_size_def stage2_crc_def)

lemma handle_ping_eq:
  "length (in_payload p) \<le> 248 \<Longrightarrow>
   handle_ping p s =
     Some (Reply \<lparr>out_cmd = CMD_PONG, out_seq = ss_tx_seq s, out_payload = in_payload p\<rparr>,
           s\<lparr>ss_tx_seq := ss_tx_seq s + 1\<rparr>)"
  by (simp add: handle_ping_def session_next_seq_def build_reply_fits)

lemma stage2_recv_block:
  "build_recv_block stage2_block bs b n (replicate RECV_MAX_PAYLOAD 0) =
     (if unat n * 64 < STAGE2_SIZE
      then let d = take 64 (drop (unat n * 64) STAGE2_PLACEHOLDER)
           in Some (Inr (5 + length d), recv_block_payload n d @ drop (5 + length d) (replicate 69 0))
      else Some (Inl BlockOutOfRange, replicate 69 0))"
  using stage2.build_recv_block_inside [of "replicate RECV_MAX_PAYLOAD 0" n bs b]
    stage2.build_recv_block_past_end [of "replicate RECV_MAX_PAYLOAD 0" n bs b]
  by (auto simp: const_defs STAGE2_SIZE_eq Let_def)

lemma handle_send_block_eq:
  "handle_send_block p s =
     (case parse_send_block (in_payload p) of
        Inl _ \<Rightarrow> Some (Ignored, s)
      | Inr n \<Rightarrow>
          if unat n * 64 < STAGE2_SIZE
          then Some (Reply \<lparr>out_cmd = CMD_RECV_BLOCK, out_seq = ss_tx_seq s,
                 out_payload = recv_block_payload n (take 64 (drop (unat n * 64) STAGE2_PLACEHOLDER))\<rparr>,
               s\<lparr>ss_tx_seq := ss_tx_seq s + 1\<rparr>)
          else Some (Ignored, s))"
  by (auto simp: handle_send_block_def stage2_recv_block Let_def session_next_seq_def
      build_reply_fits split: sum.split)

lemmas handler_eqs = handle_cap_req_eq handle_ping_eq handle_send_block_eq handle_cap_ack_def
  handle_block_ack_def handle_block_nak_def

lemmas cmd_defs = CMD_CAP_REQ_def CMD_CAP_ACK_def CMD_PING_def CMD_SEND_BLOCK_def
  CMD_BLOCK_ACK_def CMD_BLOCK_NAK_def

subsection \<open>One packet\<close>

text \<open>The sequence number of the reply and the counters afterwards.\<close>

definition reply_seq :: "incoming_packet \<Rightarrow> u8 \<Rightarrow> u8" where
  "reply_seq p tx = (if in_cmd p = CMD_CAP_REQ then 0 else tx)"

definition tx_after :: "u32 \<Rightarrow> incoming_packet \<Rightarrow> u8 \<Rightarrow> u8" where
  "tx_after crc p tx = (if reply_spec crc p = None then tx else reply_seq p tx + 1)"

definition rx_after :: "incoming_packet \<Rightarrow> u8" where
  "rx_after p = (if in_cmd p = CMD_CAP_REQ then 0 else in_seq p + 1)"

definition outcome_ok :: "u32 \<Rightarrow> incoming_packet \<Rightarrow> u8 \<Rightarrow> dispatch_outcome \<Rightarrow> bool" where
  "outcome_ok crc p tx r =
     (case reply_spec crc p of
        Some (c, pl) \<Rightarrow> r = Reply \<lparr>out_cmd = c, out_seq = reply_seq p tx, out_payload = pl\<rparr> \<and>
                         length pl \<le> 248
      | None \<Rightarrow> r \<in> {Silent, Ignored})"

lemma handle_packet_step:
  assumes "length (in_payload p) \<le> 248"
  shows "\<exists>r s' t'. handle_packet emit p s t = Some (r, s', t') \<and>
           outcome_ok (es2_crc (ss_blob s)) p (ss_tx_seq s) r \<and>
           ss_blob s' = ss_blob s \<and> ss_rx_seq_expected s' = rx_after p \<and>
           ss_tx_seq s' = tx_after (es2_crc (ss_blob s)) p (ss_tx_seq s)"
proof -
  have len: "length (recv_block_payload n (take 64 xs)) \<le> 248" for n xs by simp
  have *: "length (cap_layout STAGE2_SIZE c ACTIVE_MODE_SPP) \<le> 248" for c by simp
  consider "in_cmd p = CMD_CAP_REQ" | "in_cmd p = CMD_CAP_ACK" | "in_cmd p = CMD_PING"
    | "in_cmd p = CMD_SEND_BLOCK" | "in_cmd p = CMD_BLOCK_ACK" | "in_cmd p = CMD_BLOCK_NAK"
    | "in_cmd p \<notin> {CMD_CAP_REQ, CMD_CAP_ACK, CMD_PING, CMD_SEND_BLOCK, CMD_BLOCK_ACK, CMD_BLOCK_NAK}"
    by blast
  then show ?thesis
    using assms
    by cases (auto simp: handle_packet_def with_sink_def Let_def handler_eqs session_reset_def
        outcome_ok_def reply_spec_def rx_after_def tx_after_def reply_seq_def cmd_defs
        split: sum.split)
qed

text \<open>
  One packet.  No packet that came out of the decoder makes the dispatcher panic; what it replies
  with is the specification's reply, numbered with the next sequence number (0 for a \<^verbatim>\<open>CAP_RSP\<close>), and
  the reply always fits a packet, so that encoding it for the wire succeeds and the host's decoder
  gets it back.
\<close>

theorem dispatcher_replies:
  assumes "decode w = Inr p"
  shows "\<exists>r s' t'. handle_packet emit p s t = Some (r, s', t') \<and>
    reply_of r = reply_spec (es2_crc (ss_blob s)) p \<and>
    (\<forall>q. r = Reply q \<longrightarrow>
       out_seq q = (if in_cmd p = CMD_CAP_REQ then 0 else ss_tx_seq s) \<and>
       (\<exists>n out. encode (out_cmd q) (out_seq q) (out_payload q) (replicate MAX_PACKET 0) = (Inr n, out) \<and>
          decode (take n out) =
            Inr \<lparr>in_cmd = out_cmd q, in_seq = out_seq q, in_payload = out_payload q\<rparr>))"
proof -
  have "length (in_payload p) \<le> 248" using decode_sound [OF assms] by simp
  from handle_packet_step [OF this, of emit s t] obtain r s' t'
    where step: "handle_packet emit p s t = Some (r, s', t')"
      and ok: "outcome_ok (es2_crc (ss_blob s)) p (ss_tx_seq s) r" by blast
  have "reply_of r = reply_spec (es2_crc (ss_blob s)) p"
    using ok by (auto simp: outcome_ok_def reply_of_def split: option.splits)
  moreover have "out_seq q = (if in_cmd p = CMD_CAP_REQ then 0 else ss_tx_seq s) \<and>
      (\<exists>n out. encode (out_cmd q) (out_seq q) (out_payload q) (replicate MAX_PACKET 0) = (Inr n, out) \<and>
          decode (take n out) =
            Inr \<lparr>in_cmd = out_cmd q, in_seq = out_seq q, in_payload = out_payload q\<rparr>)"
    if "r = Reply q" for q
  proof -
    from ok that have l: "length (out_payload q) \<le> 248" and
      sq: "out_seq q = (if in_cmd p = CMD_CAP_REQ then 0 else ss_tx_seq s)"
      by (auto simp: outcome_ok_def reply_seq_def split: option.splits)
    have "encode (out_cmd q) (out_seq q) (out_payload q) (replicate MAX_PACKET 0) =
      (Inr (length (out_payload q) + 8),
       frame (out_cmd q) (out_seq q) (out_payload q) @
         drop (length (out_payload q) + 8) (replicate MAX_PACKET 0))"
      using l by (intro encode_frame) (simp_all add: const_defs)
    then show ?thesis using l sq by (simp add: decode_frame)
  qed
  ultimately show ?thesis using step by blast
qed

theorem dispatcher_replies_witness:
  "\<exists>r s' t'. handle_packet noop_emit \<lparr>in_cmd = CMD_PING, in_seq = 3, in_payload = [1, 2]\<rparr>
       session_new () = Some (r, s', t') \<and> reply_of r = Some (CMD_PONG, [1, 2])"
proof -
  have "decode (frame CMD_PING 3 [1, 2]) =
      Inr \<lparr>in_cmd = CMD_PING, in_seq = 3, in_payload = [1, 2]\<rparr>"
    by (simp add: decode_frame)
  from dispatcher_replies [OF this, of noop_emit session_new "()"]
  show ?thesis by (auto simp: reply_spec_def cmd_defs)
qed

subsection \<open>Sessions\<close>

text \<open>The replies of a session, numbered: what the trace of outcomes must be.\<close>

fun replies_spec :: "u32 \<Rightarrow> u8 \<Rightarrow> incoming_packet list \<Rightarrow> outgoing_packet list" where
  "replies_spec crc tx [] = []"
| "replies_spec crc tx (p # ps) =
     (case reply_spec crc p of
        None \<Rightarrow> []
      | Some (c, pl) \<Rightarrow> [\<lparr>out_cmd = c, out_seq = reply_seq p tx, out_payload = pl\<rparr>]) @
     replies_spec crc (tx_after crc p tx) ps"

definition replies :: "dispatch_outcome list \<Rightarrow> outgoing_packet list" where
  "replies rs = concat (map (\<lambda>r. case r of Reply q \<Rightarrow> [q] | _ \<Rightarrow> []) rs)"

lemma replies_Cons:
  "outcome_ok crc p tx r \<Longrightarrow>
   replies (r # rs) = (case reply_spec crc p of
        None \<Rightarrow> []
      | Some (c, pl) \<Rightarrow> [\<lparr>out_cmd = c, out_seq = reply_seq p tx, out_payload = pl\<rparr>]) @ replies rs"
  by (auto simp: outcome_ok_def replies_def split: option.splits)

text \<open>
  C2. Sessions.  Over any sequence of packets with payloads the decoder lets through, the dispatcher
  never panics, sends exactly the specified replies in order, numbers them consecutively from the last
  \<^verbatim>\<open>CAP_REQ\<close> on, and leaves the image alone; the history before a packet has no influence on the
  content of its reply.
\<close>

theorem session_refines_spec:
  assumes "\<forall>p \<in> set ps. length (in_payload p) \<le> 248"
  shows "\<exists>rs s' t'. run_session emit ps s t = Some (rs, s', t') \<and>
    replies rs = replies_spec (es2_crc (ss_blob s)) (ss_tx_seq s) ps \<and>
    length rs = length ps \<and> ss_blob s' = ss_blob s \<and>
    ss_rx_seq_expected s' = (if ps = [] then ss_rx_seq_expected s else rx_after (last ps))"
  using assms
proof (induction ps arbitrary: s t)
  case Nil
  then show ?case by (simp add: replies_def)
next
  case (Cons p ps)
  from handle_packet_step [of p emit s t] Cons.prems obtain r s1 t1
    where step: "handle_packet emit p s t = Some (r, s1, t1)"
      and ok: "outcome_ok (es2_crc (ss_blob s)) p (ss_tx_seq s) r"
      and s1: "ss_blob s1 = ss_blob s" "ss_rx_seq_expected s1 = rx_after p"
        "ss_tx_seq s1 = tx_after (es2_crc (ss_blob s)) p (ss_tx_seq s)" by auto
  from Cons.IH [of s1 t1] Cons.prems obtain rs s' t'
    where rest: "run_session emit ps s1 t1 = Some (rs, s', t')"
      "replies rs = replies_spec (es2_crc (ss_blob s1)) (ss_tx_seq s1) ps"
      "length rs = length ps" "ss_blob s' = ss_blob s1"
      "ss_rx_seq_expected s' = (if ps = [] then ss_rx_seq_expected s1 else rx_after (last ps))"
    by auto
  have "run_session emit (p # ps) s t = Some (r # rs, s', t')"
    using step rest(1) by simp
  then show ?case
    using rest s1 by (auto simp: replies_Cons [OF ok])
qed

theorem session_refines_spec_witness:
  "\<exists>rs s' t'. run_session noop_emit
      [\<lparr>in_cmd = CMD_PING, in_seq = 0, in_payload = [9]\<rparr>,
       \<lparr>in_cmd = CMD_PING, in_seq = 1, in_payload = []\<rparr>] session_new () = Some (rs, s', t') \<and>
     map out_seq (replies rs) = [0, 1]"
  using session_refines_spec [of "[\<lparr>in_cmd = CMD_PING, in_seq = 0, in_payload = [9]\<rparr>,
       \<lparr>in_cmd = CMD_PING, in_seq = 1, in_payload = []\<rparr>]" noop_emit session_new "()"]
  by (auto simp: reply_spec_def cmd_defs reply_seq_def tx_after_def session_new_def
      session_with_blob_def)

text \<open>The packets of Stage 1's download of an image of one block.\<close>

definition bootstrap_script :: "u8 \<Rightarrow> incoming_packet list" where
  "bootstrap_script q =
     [\<lparr>in_cmd = CMD_CAP_REQ, in_seq = q, in_payload = []\<rparr>,
      \<lparr>in_cmd = CMD_CAP_ACK, in_seq = q + 1, in_payload = []\<rparr>,
      \<lparr>in_cmd = CMD_SEND_BLOCK, in_seq = q + 2, in_payload = block_no_payload 0\<rparr>,
      \<lparr>in_cmd = CMD_BLOCK_ACK, in_seq = q + 3, in_payload = block_no_payload 0\<rparr>]"

text \<open>
  C29. The bootstrap.  From any state of a session created at boot, Stage 1's script gets a \<^verbatim>\<open>CAP_RSP\<close>
  that announces the size and the CRC-32 of the image, then one \<^verbatim>\<open>RECV_BLOCK\<close> with the whole image,
  whose CRC-32 is the announced one; afterwards the handshake is recorded and block 0 acknowledged.
\<close>

theorem bootstrap_delivers_stage2:
  assumes "ss_blob s = stage2_new"
  shows "\<exists>cap blk s' t'. run_session emit (bootstrap_script q) s t =
      Some ([Reply cap, Silent, Reply blk, Silent], s', t') \<and>
    out_cmd cap = CMD_CAP_RSP \<and> out_seq cap = 0 \<and>
    take 4 (drop 28 (out_payload cap)) = be32 (of_nat (length STAGE2_PLACEHOLDER)) \<and>
    take 4 (drop 32 (out_payload cap)) = be32 (crc32_compute (payload_data (out_payload blk))) \<and>
    out_cmd blk = CMD_RECV_BLOCK \<and> out_seq blk = 1 \<and>
    payload_data (out_payload blk) = STAGE2_PLACEHOLDER \<and>
    ss_cap_acked s' \<and> expected_block (ss_block_server s') = 1 \<and> ss_rx_seq_expected s' = q + 4"
proof -
  have crc: "es2_crc (ss_blob s) = crc32_compute STAGE2_PLACEHOLDER"
    using assms by (simp add: stage2_new_def stage2_crc32_def)
  have small: "unat (0::u16) * 64 < STAGE2_SIZE" by (simp add: STAGE2_SIZE_eq)
  have lay: "take 4 (drop 28 (cap_layout n c m)) = be32 (of_nat n)"
    "take 4 (drop 32 (cap_layout n c m)) = be32 c" for n c m
    by (simp_all add: cap_layout_def)
  have ack: "expected_block (handle_ack (b\<lparr>expected_block := 0\<rparr>) (block_no_payload 0)) = 1" for b
    by (simp add: handle_ack_def saturating_inc_def)
  have d: "take 64 STAGE2_PLACEHOLDER = STAGE2_PLACEHOLDER" by simp
  show ?thesis
    using small
    by (simp add: bootstrap_script_def handle_packet_def with_sink_def Let_def handler_eqs cmd_defs
        session_reset_def block_server_reset_def crc lay d STAGE2_SIZE_def ack)
qed

theorem bootstrap_delivers_stage2_witness:
  "\<exists>cap blk s' t'. run_session noop_emit (bootstrap_script 0) session_new () =
      Some ([Reply cap, Silent, Reply blk, Silent], s', t') \<and>
    payload_data (out_payload blk) = STAGE2_PLACEHOLDER"
  using bootstrap_delivers_stage2 [of session_new noop_emit 0 "()"]
  by (auto simp: session_new_def session_with_blob_def)

subsection \<open>Telemetry of the dispatcher\<close>

text \<open>The events of one packet, in order, as a function of the packet and the state it meets.\<close>

definition packet_events :: "session_state \<Rightarrow> incoming_packet \<Rightarrow> event list" where
  "packet_events s p =
     (if in_seq p \<noteq> ss_rx_seq_expected s
      then [SeqGap (ss_rx_seq_expected s) (in_seq p) (in_cmd p)] else []) @
     (if in_cmd p = CMD_BLOCK_ACK
      then [BlockAck (saturating_dec (expected_block (handle_ack (ss_block_server s) (in_payload p))))
                     (es2_crc (ss_blob s))]
      else if in_cmd p \<in> {CMD_CAP_REQ, CMD_CAP_ACK, CMD_PING, CMD_SEND_BLOCK, CMD_BLOCK_NAK} then []
      else [UnknownCmd (in_cmd p)])"

lemma handle_packet_events:
  assumes "handle_packet emit p s t = Some (r, s', t')"
  shows "t' = fold emit (packet_events s p) t"
  using assms
  by (auto simp: handle_packet_def with_sink_def Let_def packet_events_def handle_block_ack_def
      stage2_crc_def cmd_defs split: if_splits option.splits)

text \<open>
  Sequence gaps.  Whatever a packet is answered with, its telemetry is the sequence of
  events of \<open>packet_events\<close>.  For the packet after it, a gap is reported exactly when its number is not
  the successor of the last one, except after a \<^verbatim>\<open>CAP_REQ\<close>: the reset forgets the number just seen, so
  that a peer which counts on is reported as a gap (and only number 0 is not).
\<close>

theorem sequence_gap_telemetry:
  assumes "handle_packet emit p s t = Some (r, s1, t1)"
    and "handle_packet emit q s1 t1 = Some (r', s2, t2)"
  shows "t1 = fold emit (packet_events s p) t \<and> t2 = fold emit (packet_events s1 q) t1 \<and>
    (\<forall>e g c. SeqGap e g c \<in> set (packet_events s1 q) \<longleftrightarrow>
       e = rx_after p \<and> g = in_seq q \<and> c = in_cmd q \<and>
       in_seq q \<noteq> (if in_cmd p = CMD_CAP_REQ then 0 else in_seq p + 1))"
proof (intro conjI)
  show "t1 = fold emit (packet_events s p) t" "t2 = fold emit (packet_events s1 q) t1"
    using assms by (auto dest: handle_packet_events)
  have "ss_rx_seq_expected s1 = rx_after p"
    using assms(1)
    by (auto simp: handle_packet_def with_sink_def Let_def handle_cap_req_eq handle_ping_def
        handle_cap_ack_def handle_block_ack_def handle_send_block_eq session_next_seq_def
        session_reset_def rx_after_def cmd_defs split: if_splits option.splits sum.splits)
  then show "\<forall>e g c. SeqGap e g c \<in> set (packet_events s1 q) \<longleftrightarrow>
       e = rx_after p \<and> g = in_seq q \<and> c = in_cmd q \<and>
       in_seq q \<noteq> (if in_cmd p = CMD_CAP_REQ then 0 else in_seq p + 1)"
    by (auto simp: packet_events_def rx_after_def)
qed

theorem sequence_gap_telemetry_witness:
  "SeqGap 0 8 CMD_CAP_ACK \<in> set (packet_events
     (fst (snd (the (handle_packet noop_emit \<lparr>in_cmd = CMD_CAP_REQ, in_seq = 7, in_payload = []\<rparr>
        session_new ()))))
     \<lparr>in_cmd = CMD_CAP_ACK, in_seq = 8, in_payload = []\<rparr>)"
proof -
  let ?p = "\<lparr>in_cmd = CMD_CAP_REQ, in_seq = 7, in_payload = []\<rparr>"
  let ?q = "\<lparr>in_cmd = CMD_CAP_ACK, in_seq = 8, in_payload = []\<rparr>"
  obtain r s1 t1 where 1: "handle_packet noop_emit ?p session_new () = Some (r, s1, t1)"
    using handle_packet_step [of ?p noop_emit session_new "()"] by auto
  obtain r' s2 t2 where 2: "handle_packet noop_emit ?q s1 t1 = Some (r', s2, t2)"
    using handle_packet_step [of ?q noop_emit s1 t1] by auto
  from sequence_gap_telemetry [OF 1 2] 1 show ?thesis by (simp add: rx_after_def)
qed

text \<open>A malformed acknowledgement acknowledges nothing and still reports block 0 as acknowledged.\<close>

lemma malformed_ack_reported:
  assumes "expected_block (ss_block_server s) = 0" "length (in_payload p) \<noteq> 4"
    "in_cmd p = CMD_BLOCK_ACK"
  shows "handle_ack (ss_block_server s) (in_payload p) = ss_block_server s \<and>
    BlockAck 0 (es2_crc (ss_blob s)) \<in> set (packet_events s p)"
  using assms by (simp add: handle_ack_def parse_send_block_def packet_events_def saturating_dec_def)

end
