(* ===== verification/Transport.thy ===== *)
theory Transport
  imports Session
begin

text \<open>
  From bytes to packets: the phy contract (\<^verbatim>\<open>LptPhy\<close> of \<^verbatim>\<open>firmware/src/lpt/mod.rs\<close>) as the locale
  \<open>lpt_phy\<close>, the reassembler of \<^verbatim>\<open>transport/packet_stream.rs\<close>, the packet transport of
  \<^verbatim>\<open>transport/lpt.rs\<close>, and the serve loop of \<^verbatim>\<open>main.rs\<close>.  The lemmas show, for every phy that keeps
  the contract, that the reassembler computes \<open>scan\<close> of the incoming bytes, and what the serve loop
  sends in answer.
\<close>

subsection \<open>The phy\<close>

datatype lpt_error = Timeout | ModeMismatch | Hardware
datatype lpt_mode = Spp | SppNibble | Byte | Epp | Ecp | EcpDma

definition unwrap_or :: "'a \<Rightarrow> 'e + 'a \<Rightarrow> 'a" where
  "unwrap_or d r = (case r of Inr x \<Rightarrow> x | Inl _ \<Rightarrow> d)"

text \<open>The trait's default \<^verbatim>\<open>send_bytes\<close>: byte by byte, stopping at the first error.\<close>

fun send_bytes_default ::
  "(u8 \<Rightarrow> 'p \<Rightarrow> (lpt_error + unit) \<times> 'p) \<Rightarrow> u8 list \<Rightarrow> 'p \<Rightarrow> (lpt_error + unit) \<times> 'p" where
  "send_bytes_default send_byte [] p = (Inr (), p)"
| "send_bytes_default send_byte (b # bs) p =
     (case send_byte b p of
        (Inl e, p) \<Rightarrow> (Inl e, p)
      | (Inr _, p) \<Rightarrow> send_bytes_default send_byte bs p)"

text \<open>
  \<open>recv\<close> yields \<open>None\<close> when no byte ever arrives (the future stays pending), \<open>send\<close> when it panics.  \<open>incoming\<close> is what the
  wire still delivers, a failed read counting as the 0 the reassembler makes of it; \<open>outgoing\<close> is
  what has been handed to the wire; \<open>ok\<close> is the phy's invariant.
\<close>

locale lpt_phy =
  fixes recv :: "'p \<Rightarrow> ((lpt_error + u8) \<times> 'p) option"
    and send :: "u8 list \<Rightarrow> 'p \<Rightarrow> ((lpt_error + unit) \<times> 'p) option"
    and ok :: "'p \<Rightarrow> bool"
    and incoming :: "'p \<Rightarrow> u8 list"
    and outgoing :: "'p \<Rightarrow> u8 list"
  assumes recv_pending: "ok p \<Longrightarrow> recv p = None \<Longrightarrow> incoming p = []"
    and recv_step: "ok p \<Longrightarrow> recv p = Some (r, p') \<Longrightarrow>
          ok p' \<and> incoming p = unwrap_or 0 r # incoming p' \<and> outgoing p' = outgoing p"
    and send_step: "ok p \<Longrightarrow> send bs p = Some (x, p') \<Longrightarrow>
          ok p' \<and> incoming p' = incoming p \<and>
          (x = Inr () \<longrightarrow> outgoing p' = outgoing p @ bs)"

subsection \<open>The reassembler\<close>

text \<open>\<^verbatim>\<open>for i in a..a + n { self.buf[i] = phy.recv_byte().await.unwrap_or(0) }\<close>\<close>

fun fill ::
  "('p \<Rightarrow> ((lpt_error + u8) \<times> 'p) option) \<Rightarrow> nat \<Rightarrow> nat \<Rightarrow> u8 list \<Rightarrow> 'p \<Rightarrow> (u8 list \<times> 'p) option" where
  "fill recv a 0 buf p = Some (buf, p)"
| "fill recv a (Suc n) buf p =
     (case recv p of
        None \<Rightarrow> None
      | Some (r, p) \<Rightarrow> fill recv (Suc a) n (buf[a := unwrap_or 0 r]) p)"

definition reassembler_new :: "u8 list" where
  "reassembler_new = replicate MAX_PACKET 0"

definition resync_of :: "decode_error \<Rightarrow> resync_reason" where
  "resync_of e = (case e of BadCrc \<Rightarrow> ResyncBadCrc | BadEtx \<Rightarrow> ResyncBadEtx | _ \<Rightarrow> ResyncDecodeError)"

text \<open>
  The loop of \<^verbatim>\<open>next_packet\<close>: it may wait for ever, which is the value \<open>None\<close>.  The result carries
  the packet, the buffer, the phy and the telemetry sink.
\<close>

partial_function (option) next_packet ::
  "('p \<Rightarrow> ((lpt_error + u8) \<times> 'p) option) \<Rightarrow> (event \<Rightarrow> 't \<Rightarrow> 't) \<Rightarrow> u8 list \<Rightarrow> 'p \<Rightarrow> 't \<Rightarrow>
   (incoming_packet \<times> u8 list \<times> 'p \<times> 't) option" where
  "next_packet recv emit buf p t =
     (case recv p of
        None \<Rightarrow> None
      | Some (r, p) \<Rightarrow>
          if unwrap_or 0 r \<noteq> SOH
          then next_packet recv emit buf p (emit (PacketStreamResync PreSohByte) t)
          else
            (case fill recv 1 (HEADER_LEN - 1) (buf[0 := SOH]) p of
               None \<Rightarrow> None
             | Some (buf, p) \<Rightarrow>
                 (let payload_len = unat (from_be16 (buf ! 3) (buf ! 4));
                      total = HEADER_LEN + payload_len + 3
                  in if total > MAX_PACKET
                     then next_packet recv emit buf p (emit (PacketStreamResync PayloadTooLong) t)
                     else
                       (case fill recv HEADER_LEN (total - HEADER_LEN) buf p of
                          None \<Rightarrow> None
                        | Some (buf, p) \<Rightarrow>
                            (case decode (take total buf) of
                               Inr q \<Rightarrow> Some (q, buf, p, t)
                             | Inl e \<Rightarrow>
                                 next_packet recv emit buf p
                                   (emit (PacketStreamResync (resync_of e)) t))))))"

subsection \<open>What the reassembler makes of a byte stream\<close>

definition add_reason :: "resync_reason \<Rightarrow> (resync_reason list \<times> 'a) option \<Rightarrow> (resync_reason list \<times> 'a) option" where
  "add_reason r x = (case x of None \<Rightarrow> None | Some (rs, a) \<Rightarrow> Some (r # rs, a))"

text \<open>The resync reasons, the first packet and the bytes after it.\<close>

function scan :: "u8 list \<Rightarrow> (resync_reason list \<times> incoming_packet \<times> u8 list) option" where
  "scan bs =
     (case bs of
        [] \<Rightarrow> None
      | b # r \<Rightarrow>
          if b \<noteq> SOH then add_reason PreSohByte (scan r)
          else if length r < 4 then None
          else
            let n = unat (from_be16 (bs ! 3) (bs ! 4)) in
            if n > 248 then add_reason PayloadTooLong (scan (drop 5 bs))
            else if length bs < n + 8 then None
            else (case decode (take (n + 8) bs) of
                    Inr q \<Rightarrow> Some ([], q, drop (n + 8) bs)
                  | Inl e \<Rightarrow> add_reason (resync_of e) (scan (drop (n + 8) bs))))"
  by pat_completeness auto
termination
  by (relation "measure length") auto

declare scan.simps [simp del]

lemma scan_Nil [simp]: "scan [] = None"
  by (simp add: scan.simps)

lemma scan_noise: "b \<noteq> SOH \<Longrightarrow> scan (b # r) = add_reason PreSohByte (scan r)"
  by (simp add: scan.simps [of "b # r"])

lemma add_reason_simps [simp]:
  "add_reason r None = None" "add_reason r (Some (rs, a)) = Some (r # rs, a)"
  by (simp_all add: add_reason_def)

lemma add_reason_Some: "add_reason r x = Some (rs, a) \<longleftrightarrow> (\<exists>rs'. rs = r # rs' \<and> x = Some (rs', a))"
  by (cases x) auto

lemma scan_SOH:
  "scan (SOH # r) =
     (if length r < 4 then None
      else
        let n = unat (from_be16 (r ! 2) (r ! 3)) in
        if n > 248 then add_reason PayloadTooLong (scan (drop 4 r))
        else if length r < n + 7 then None
        else (case decode (SOH # take (n + 7) r) of
                Inr q \<Rightarrow> Some ([], q, drop (n + 7) r)
              | Inl e \<Rightarrow> add_reason (resync_of e) (scan (drop (n + 7) r))))"
  by (simp add: scan.simps [of "SOH # r"] Let_def drop_Cons' take_Cons' add.commute cong: if_cong sum.case_cong)

lemma scan_frame:
  assumes "length (in_payload q) \<le> 248"
  shows "scan (packet_frame q @ rest) = Some ([], q, rest)"
proof -
  let ?f = "packet_frame q" and ?n = "length (in_payload q)"
  let ?r = "tl ?f @ rest"
  have f: "?f = SOH # in_cmd q # in_seq q # be16 (of_nat ?n) ! 0 # be16 (of_nat ?n) ! 1 #
      in_payload q @ be16 (crc16_compute (covered (in_cmd q) (in_seq q) (in_payload q))) @ [ETX]"
    by (simp add: packet_frame_def frame_def covered_def be16_def)
  have len: "length (tl ?f) = ?n + 7" by (simp add: packet_frame_def)
  have cons: "?f @ rest = SOH # ?r" by (simp add: f)
  have n: "unat (from_be16 (?r ! 2) (?r ! 3)) = ?n"
    using assms by (simp add: f codec_simps of_nat_len16)
  have "SOH # take (?n + 7) ?r = ?f"
    by (simp add: len) (simp add: f)
  then have "decode (SOH # take (?n + 7) ?r) = Inr q"
    using assms by (simp add: decode_packet_frame packet_ok_def)
  then show ?thesis
    unfolding cons scan_SOH n Let_def using assms len by simp
qed

text \<open>Whatever is delivered is a well-formed frame that stood in the stream, noise before it.\<close>

lemma scan_sound:
  "scan bs = Some (rs, q, rest) \<Longrightarrow>
   packet_ok q \<and> (\<exists>pre. bs = pre @ packet_frame q @ rest \<and> (pre = [] \<longleftrightarrow> rs = []))"
proof (induction bs arbitrary: rs rule: length_induct)
  case (1 bs)
  have prepend: "packet_ok q \<and> (\<exists>pre. bs = pre @ packet_frame q @ rest \<and> (pre = [] \<longleftrightarrow> rs = []))"
    if "bs = u @ v" "u \<noteq> []" "add_reason x (scan v) = Some (rs, q, rest)" for u v x
  proof -
    from that(3) obtain rs' where rs: "rs = x # rs'" and v: "scan v = Some (rs', q, rest)"
      by (auto simp: add_reason_Some)
    from 1(1) [rule_format, of v rs'] v that obtain pre
      where "packet_ok q" "v = pre @ packet_frame q @ rest" by auto
    then show ?thesis using that rs by (intro conjI exI [of _ "u @ pre"]) auto
  qed
  show ?case
  proof (cases bs)
    case Nil
    then show ?thesis using 1(2) by simp
  next
    case (Cons b r)
    show ?thesis
    proof (cases "b = SOH")
      case False
      then show ?thesis using prepend [of "[b]" r PreSohByte] 1(2) Cons by (simp add: scan_noise)
    next
      case True
      define n where "n = unat (from_be16 (r ! 2) (r ! 3))"
      have sc: "(if length r < 4 then None
        else if n > 248 then add_reason PayloadTooLong (scan (drop 4 r))
        else if length r < n + 7 then None
        else (case decode (SOH # take (n + 7) r) of
                Inr q \<Rightarrow> Some ([], q, drop (n + 7) r)
              | Inl e \<Rightarrow> add_reason (resync_of e) (scan (drop (n + 7) r)))) = Some (rs, q, rest)"
        using 1(2) unfolding Cons True scan_SOH n_def Let_def .
      then have long: "4 \<le> length r" by (simp split: if_splits)
      have split: "bs = (SOH # take k r) @ drop k r" for k by (simp add: Cons True)
      show ?thesis
      proof (cases "decode (SOH # take (n + 7) r)")
        case (Inl e)
        with sc long prepend [OF split] show ?thesis by (auto split: if_splits)
      next
        case (Inr q')
        show ?thesis
        proof (cases "n > 248")
          case True
          with sc long prepend [OF split] show ?thesis by simp
        next
          case False
          with sc long Inr have q: "q' = q" "rs = []" "rest = drop (n + 7) r"
            by (auto split: if_splits)
          with Inr have "packet_ok q" "SOH # take (n + 7) r = packet_frame q"
            by (simp_all add: decode_Inr_iff)
          then show ?thesis using split [of "n + 7"] q by (intro conjI exI [of _ "[]"]) simp_all
        qed
      qed
    qed
  qed
qed

lemma scan_noise_frame:
  assumes "SOH \<notin> set noise" "length (in_payload q) \<le> 248"
  shows "scan (noise @ packet_frame q @ rest) =
    Some (replicate (length noise) PreSohByte, q, rest)"
  using assms(1) by (induction noise) (auto simp: scan_noise scan_frame [OF assms(2)])

subsection \<open>The reassembler computes \<open>scan\<close>\<close>

lemma blit_Cons: "a < length xs \<Longrightarrow> blit (Suc a) ys (xs[a := y]) = blit a (y # ys) xs"
  by (simp add: blit_def take_Suc_conv_app_nth upd_conv_take_nth_drop add.commute)

context lpt_phy
begin

lemma recv_Cons:
  assumes "ok p" "incoming p = b # bs"
  obtains r p' where "recv p = Some (r, p')" "unwrap_or 0 r = b" "ok p'" "incoming p' = bs"
    "outgoing p' = outgoing p"
proof -
  have "recv p \<noteq> None"
  proof
    assume "recv p = None"
    from recv_pending [OF assms(1) this] assms(2) show False by simp
  qed
  then obtain r p' where r: "recv p = Some (r, p')" by (cases "recv p") auto
  with recv_step [OF assms(1) r] assms(2) that show ?thesis by auto
qed

lemma recv_Nil: "ok p \<Longrightarrow> incoming p = [] \<Longrightarrow> recv p = None"
  by (cases "recv p") (auto dest: recv_step)

lemma fill_short: "ok p \<Longrightarrow> length (incoming p) < n \<Longrightarrow> fill recv a n buf p = None"
proof (induction n arbitrary: a buf p)
  case (Suc n)
  show ?case
  proof (cases "incoming p")
    case Nil
    then show ?thesis using Suc.prems by (simp add: recv_Nil)
  next
    case (Cons b bs)
    with Suc.prems(1) obtain r p' where "recv p = Some (r, p')" "ok p'" "incoming p' = bs"
      by (rule recv_Cons)
    then show ?thesis using Suc Cons by simp
  qed
qed simp

lemma fill_enough:
  assumes "ok p" "n \<le> length (incoming p)" "a + n \<le> length buf"
  shows "\<exists>p'. fill recv a n buf p = Some (blit a (take n (incoming p)) buf, p') \<and>
    ok p' \<and> incoming p' = drop n (incoming p) \<and> outgoing p' = outgoing p"
  using assms
proof (induction n arbitrary: a buf p)
  case 0
  then show ?case by (simp add: blit_def)
next
  case (Suc n)
  then obtain b bs where inc: "incoming p = b # bs" by (cases "incoming p") auto
  with Suc.prems(1) obtain r p' where r: "recv p = Some (r, p')" "unwrap_or 0 r = b" "ok p'"
    "incoming p' = bs" "outgoing p' = outgoing p" by (rule recv_Cons)
  from Suc.IH [of p' "Suc a" "buf[a := b]"] r Suc.prems inc show ?case
    by (auto simp: blit_Cons)
qed

lemma filled_frame:
  assumes "length buf = 256" "n \<le> 248" "4 \<le> length bs" "n + 7 \<le> length bs"
  defines "hdr \<equiv> blit 1 (take 4 bs) (buf[0 := SOH])"
  shows "hdr ! 3 = bs ! 2" "hdr ! 4 = bs ! 3"
    "take (n + 8) (blit 5 (take (n + 3) (drop 4 bs)) hdr) = SOH # take (n + 7) bs"
proof -
  obtain x rest where buf: "buf = x # rest" using assms(1) by (cases buf) auto
  have "length rest = 255" using assms(1) buf by simp
  have hdr: "hdr = SOH # take 4 bs @ drop 4 rest"
    using assms(3) by (simp add: hdr_def blit_def buf)
  show "hdr ! 3 = bs ! 2" "hdr ! 4 = bs ! 3"
    using assms(3) by (simp_all add: hdr nth_append)
  have "take 5 hdr = SOH # take 4 bs" using assms(3) by (simp add: hdr)
  then have "blit 5 (take (n + 3) (drop 4 bs)) hdr =
      (SOH # take 4 bs @ take (n + 3) (drop 4 bs)) @ drop (5 + (n + 3)) hdr"
    using assms(4) by (simp add: blit_def)
  also have "take 4 bs @ take (n + 3) (drop 4 bs) = take (n + 7) bs"
    using take_add [of 4 "n + 3" bs] by (simp add: add.commute)
  finally show "take (n + 8) (blit 5 (take (n + 3) (drop 4 bs)) hdr) = SOH # take (n + 7) bs"
    using assms(4) by (simp add: take_Cons' add.commute)
qed

lemma next_packet_scan:
  assumes "ok p" "length buf = 256"
  shows "case scan (incoming p) of
      None \<Rightarrow> next_packet recv emit buf p t = None
    | Some (rs, q, rest) \<Rightarrow>
        \<exists>buf' p'. next_packet recv emit buf p t =
             Some (q, buf', p', fold emit (map PacketStreamResync rs) t) \<and>
          ok p' \<and> incoming p' = rest \<and> outgoing p' = outgoing p \<and> length buf' = 256"
  using assms
proof (induction "incoming p" arbitrary: p buf t rule: length_induct)
  case (1 p)
  have again: "case add_reason x (scan (incoming p1)) of
      None \<Rightarrow> next_packet recv emit buf1 p1 (emit (PacketStreamResync x) t) = None
    | Some (rs, q, rest) \<Rightarrow>
        \<exists>buf' p'. next_packet recv emit buf1 p1 (emit (PacketStreamResync x) t) =
             Some (q, buf', p', fold emit (map PacketStreamResync rs) t) \<and>
          ok p' \<and> incoming p' = rest \<and> outgoing p' = outgoing p \<and> length buf' = 256"
    if "ok p1" "length (incoming p1) < length (incoming p)" "outgoing p1 = outgoing p"
      "length buf1 = 256" for p1 buf1 x
    using 1(1) [rule_format, OF that(2) refl that(1,4), of "emit (PacketStreamResync x) t"] that(3)
    by (auto split: option.splits)
  show ?case
  proof (cases "incoming p")
    case Nil
    then have "next_packet recv emit buf p t = None"
      using 1(2) by (subst next_packet.simps) (simp add: recv_Nil)
    then show ?thesis using Nil by simp
  next
    case (Cons b bs)
    with 1(2) obtain r p1 where r: "recv p = Some (r, p1)" "unwrap_or 0 r = b" "ok p1"
      "incoming p1 = bs" "outgoing p1 = outgoing p" by (rule recv_Cons)
    show ?thesis
    proof (cases "b = SOH")
      case False
      then have u: "next_packet recv emit buf p t =
          next_packet recv emit buf p1 (emit (PacketStreamResync PreSohByte) t)"
        using r by (subst next_packet.simps) simp
      show ?thesis
        unfolding u using again [OF r(3), of buf PreSohByte] r Cons 1(3) False
        by (simp add: scan_noise)
    next
      case True
      define n where "n = unat (from_be16 (bs ! 2) (bs ! 3))"
      note sc = scan_SOH [of bs, folded n_def, unfolded Let_def]
      show ?thesis
      proof (cases "length bs < 4")
        case True
        then have "fill recv 1 (HEADER_LEN - 1) (buf[0 := SOH]) p1 = None"
          using r by (intro fill_short) (simp_all add: const_defs)
        then have "next_packet recv emit buf p t = None"
          using \<open>b = SOH\<close> r by (subst next_packet.simps) simp
        then show ?thesis using True \<open>b = SOH\<close> Cons sc by simp
      next
        case long: False
        define hdr where "hdr = blit 1 (take 4 bs) (buf[0 := SOH])"
        obtain p2 where p2: "fill recv 1 (HEADER_LEN - 1) (buf[0 := SOH]) p1 = Some (hdr, p2)"
          "ok p2" "incoming p2 = drop 4 bs" "outgoing p2 = outgoing p"
          using fill_enough [of p1 4 1 "buf[0 := SOH]"] r long 1(3)
          by (auto simp: const_defs hdr_def)
        have lhdr: "length hdr = 256" using 1(3) long by (simp add: hdr_def)
        have len: "unat (from_be16 (hdr ! 3) (hdr ! 4)) = n"
          using filled_frame(1,2) [of buf 0 bs] 1(3) long
          by (cases "7 \<le> length bs") (simp_all add: hdr_def n_def blit_def nth_append
              nth_Cons' Suc_le_eq)
        show ?thesis
        proof (cases "n > 248")
          case True
          then have u: "next_packet recv emit buf p t =
              next_packet recv emit hdr p2 (emit (PacketStreamResync PayloadTooLong) t)"
            using p2(1) r \<open>b = SOH\<close> len
            by (subst next_packet.simps) (simp add: Let_def MAX_PACKET_def MAX_PAYLOAD_def OVERHEAD_def
                HEADER_LEN_def TRAILER_LEN_def SOH_def)
          show ?thesis
            unfolding u using again [OF p2(2) _ p2(4) lhdr, of PayloadTooLong] p2 Cons \<open>b = SOH\<close> long sc True
            by simp
        next
          case fits: False
          have tot: "HEADER_LEN + n + 3 = n + 8" "\<not> n + 8 > MAX_PACKET"
            "n + 8 - HEADER_LEN = n + 3" "HEADER_LEN = 5"
            using fits by (simp_all add: const_defs)
          show ?thesis
          proof (cases "length bs < n + 7")
            case True
            then have "fill recv HEADER_LEN (n + 3) hdr p2 = None"
              using p2 long by (intro fill_short) simp_all
            then have "next_packet recv emit buf p t = None"
              using p2(1) r \<open>b = SOH\<close> len tot(1-3)
              by (subst next_packet.simps) (simp add: Let_def)
            then show ?thesis using True Cons \<open>b = SOH\<close> long fits sc by simp
          next
            case enough: False
            have room: "n + 3 \<le> length bs - 4" using enough by linarith
            define full where "full = blit 5 (take (n + 3) (drop 4 bs)) hdr"
            obtain p3 where p3: "fill recv HEADER_LEN (n + 3) hdr p2 = Some (full, p3)" "ok p3"
              "incoming p3 = drop (n + 7) bs" "outgoing p3 = outgoing p"
              using fill_enough [of p2 "n + 3" 5 hdr] p2 lhdr fits room
              by (auto simp: tot(4) full_def add.commute)
            have full: "take (n + 8) full = SOH # take (n + 7) bs" "length full = 256"
              using filled_frame(3) [of buf n bs] 1(3) fits enough long lhdr
              by (simp_all add: full_def hdr_def)
            have unfolded: "next_packet recv emit buf p t =
                (case decode (SOH # take (n + 7) bs) of
                   Inr q \<Rightarrow> Some (q, full, p3, t)
                 | Inl e \<Rightarrow> next_packet recv emit full p3 (emit (PacketStreamResync (resync_of e)) t))"
              using p2(1) p3(1) r \<open>b = SOH\<close> len tot(2,3) full(1)
              by (subst next_packet.simps) (simp add: Let_def tot(1))
            show ?thesis
            proof (cases "decode (SOH # take (n + 7) bs)")
              case (Inl e)
              have u: "next_packet recv emit buf p t =
                  next_packet recv emit full p3 (emit (PacketStreamResync (resync_of e)) t)"
                using unfolded Inl by simp
              have "scan (incoming p) = add_reason (resync_of e) (scan (incoming p3))"
                using Inl enough long fits sc Cons \<open>b = SOH\<close> p3 by simp
              then show ?thesis
                unfolding u using again [OF p3(2) _ p3(4) full(2), of "resync_of e"] p3 Cons by simp
            next
              case (Inr q)
              then show ?thesis
                using unfolded p3 full(2) enough long fits sc Cons \<open>b = SOH\<close> by simp
            qed
          qed
        qed
      qed
    qed
  qed
qed

end

subsection \<open>The packet transport\<close>

datatype transport_error =
    PhyTimeout | PhyHardware | TransportEncode encode_error | TransportDecode decode_error

definition send_packet ::
  "(u8 list \<Rightarrow> 'p \<Rightarrow> ((lpt_error + unit) \<times> 'p) option) \<Rightarrow> (event \<Rightarrow> 't \<Rightarrow> 't) \<Rightarrow> outgoing_packet \<Rightarrow> 'p \<Rightarrow> 't \<Rightarrow>
   ((transport_error + unit) \<times> 'p \<times> 't) option" where
  "send_packet send emit q p t =
     (case encode (out_cmd q) (out_seq q) (out_payload q) (replicate MAX_PACKET 0) of
        (Inl e, _) \<Rightarrow> Some (Inl (TransportEncode e), p, emit EncodeError t)
      | (Inr n, buf) \<Rightarrow>
          (case send (take n buf) p of
             None \<Rightarrow> None
           | Some (Inl _, p) \<Rightarrow> Some (Inl PhyHardware, p, t)
           | Some (Inr _, p) \<Rightarrow> Some (Inr (), p, t)))"

definition recv_packet ::
  "('p \<Rightarrow> ((lpt_error + u8) \<times> 'p) option) \<Rightarrow> (event \<Rightarrow> 't \<Rightarrow> 't) \<Rightarrow> u8 list \<Rightarrow> 'p \<Rightarrow> 't \<Rightarrow>
   ((transport_error + incoming_packet) \<times> u8 list \<times> 'p \<times> 't) option" where
  "recv_packet recv emit buf p t =
     (case next_packet recv emit buf p t of
        None \<Rightarrow> None
      | Some (q, buf, p, t) \<Rightarrow> Some (Inr q, buf, p, t))"

definition transport_plane :: plane where
  "transport_plane = Data"

definition transport_port :: port where
  "transport_port = Lpt"

subsection \<open>The serve loop\<close>

text \<open>
  A round of the loop: the state is the session, the reassembler's buffer, the phy and the sink.  It
  may wait for ever on the wire, and it would stop on a panic of a handler.
\<close>

datatype 's serve_result = Served 's | Waiting | Panicked

definition serve_once ::
  "('p \<Rightarrow> ((lpt_error + u8) \<times> 'p) option) \<Rightarrow> (u8 list \<Rightarrow> 'p \<Rightarrow> ((lpt_error + unit) \<times> 'p) option) \<Rightarrow>
   (event \<Rightarrow> 't \<Rightarrow> 't) \<Rightarrow> session_state \<times> u8 list \<times> 'p \<times> 't \<Rightarrow>
   (session_state \<times> u8 list \<times> 'p \<times> 't) serve_result" where
  "serve_once recv send emit st =
     (case st of (s, buf, p, t) \<Rightarrow>
        (case recv_packet recv emit buf p t of
           None \<Rightarrow> Waiting
         | Some (Inl _, buf, p, t) \<Rightarrow> Served (s, buf, p, t)
         | Some (Inr pkt, buf, p, t) \<Rightarrow>
             (case handle_packet emit pkt s t of
                None \<Rightarrow> Panicked
              | Some (Reply out, s, t) \<Rightarrow>
                  (case send_packet send emit out p t of
                     None \<Rightarrow> Panicked
                   | Some (_, p, t) \<Rightarrow> Served (s, buf, p, t))
              | Some (Silent, s, t) \<Rightarrow> Served (s, buf, p, t)
              | Some (Ignored, s, t) \<Rightarrow> Served (s, buf, p, t))))"

fun serve_rounds ::
  "('p \<Rightarrow> ((lpt_error + u8) \<times> 'p) option) \<Rightarrow> (u8 list \<Rightarrow> 'p \<Rightarrow> ((lpt_error + unit) \<times> 'p) option) \<Rightarrow>
   (event \<Rightarrow> 't \<Rightarrow> 't) \<Rightarrow> nat \<Rightarrow> session_state \<times> u8 list \<times> 'p \<times> 't \<Rightarrow>
   (session_state \<times> u8 list \<times> 'p \<times> 't) serve_result" where
  "serve_rounds recv send emit 0 st = Served st"
| "serve_rounds recv send emit (Suc n) st =
     (case serve_once recv send emit st of
        Served st \<Rightarrow> serve_rounds recv send emit n st
      | r \<Rightarrow> r)"

text \<open>A wire on which frames arrive, each after noise without a start byte.\<close>

definition noisy_stream :: "(u8 list \<times> incoming_packet) list \<Rightarrow> u8 list" where
  "noisy_stream xs = concat (map (\<lambda>(noise, q). noise @ packet_frame q) xs)"

definition clean_packets :: "(u8 list \<times> incoming_packet) list \<Rightarrow> bool" where
  "clean_packets xs \<longleftrightarrow> (\<forall>(noise, q) \<in> set xs. SOH \<notin> set noise \<and> length (in_payload q) \<le> 248)"

definition reply_frames :: "outgoing_packet list \<Rightarrow> u8 list" where
  "reply_frames qs = concat (map (\<lambda>q. frame (out_cmd q) (out_seq q) (out_payload q)) qs)"

lemma reply_frames_simps [simp]:
  "reply_frames [] = []"
  "reply_frames (q # qs) = frame (out_cmd q) (out_seq q) (out_payload q) @ reply_frames qs"
  "reply_frames (qs @ rs) = reply_frames qs @ reply_frames rs"
  by (simp_all add: reply_frames_def)

text \<open>A phy that never fails to send a packet, as all of the firmware's are.\<close>

locale reliable_phy = lpt_phy +
  assumes send_ok: "ok p \<Longrightarrow> length bs \<le> MAX_PACKET \<Longrightarrow> \<exists>p'. send bs p = Some (Inr (), p')"
begin

lemma send_packet_fits:
  assumes "ok p" "length (out_payload q) \<le> 248"
  shows "\<exists>p'. send_packet send emit q p t = Some (Inr (), p', t) \<and> ok p' \<and> incoming p' = incoming p \<and>
    outgoing p' = outgoing p @ reply_frames [q]"
proof -
  let ?f = "frame (out_cmd q) (out_seq q) (out_payload q)"
  have enc: "encode (out_cmd q) (out_seq q) (out_payload q) (replicate MAX_PACKET 0) =
      (Inr (length ?f), ?f @ drop (length ?f) (replicate MAX_PACKET 0))"
    using assms(2) by (simp add: encode_frame const_defs)
  have "length ?f \<le> MAX_PACKET" using assms(2) by (simp add: const_defs)
  then obtain p' where s: "send ?f p = Some (Inr (), p')" using send_ok [OF assms(1)] by blast
  from send_step [OF assms(1) s] s show ?thesis
    unfolding send_packet_def enc by simp
qed

lemma serve_once_frame:
  assumes "ok p" "length buf = 256" "SOH \<notin> set noise" "length (in_payload q) \<le> 248"
    "incoming p = noise @ packet_frame q @ rest"
  shows "\<exists>s' buf' p' t'. serve_once recv send emit (s, buf, p, t) = Served (s', buf', p', t') \<and>
    ok p' \<and> length buf' = 256 \<and> incoming p' = rest \<and> ss_blob s' = ss_blob s \<and>
    ss_tx_seq s' = tx_after (es2_crc (ss_blob s)) q (ss_tx_seq s) \<and>
    outgoing p' = outgoing p @ reply_frames (replies_spec (es2_crc (ss_blob s)) (ss_tx_seq s) [q])"
proof -
  obtain buf1 p1 t1 where np: "next_packet recv emit buf p t = Some (q, buf1, p1, t1)" "ok p1"
    "incoming p1 = rest" "outgoing p1 = outgoing p" "length buf1 = 256"
    using next_packet_scan [OF assms(1,2), of emit t]
    unfolding assms(5) scan_noise_frame [OF assms(3,4)] by auto
  obtain r s1 t2 where h: "handle_packet emit q s t1 = Some (r, s1, t2)"
    and ok: "outcome_ok (es2_crc (ss_blob s)) q (ss_tx_seq s) r"
    and s1: "ss_blob s1 = ss_blob s" "ss_tx_seq s1 = tx_after (es2_crc (ss_blob s)) q (ss_tx_seq s)"
    using handle_packet_step [OF assms(4), of emit s t1] by blast
  show ?thesis
  proof (cases r)
    case (Reply out)
    with ok have rs: "replies_spec (es2_crc (ss_blob s)) (ss_tx_seq s) [q] = [out]"
      and len: "length (out_payload out) \<le> 248"
      by (auto simp: outcome_ok_def split: option.splits)
    from send_packet_fits [OF np(2) len, of emit t2] show ?thesis
      unfolding rs using np h s1 Reply by (auto simp: serve_once_def recv_packet_def)
  qed (use ok np h s1 in \<open>auto simp: serve_once_def recv_packet_def outcome_ok_def split: option.splits\<close>)+
qed

lemma serve_rounds_stream:
  assumes "ok p" "length buf = 256" "clean_packets xs" "incoming p = noisy_stream xs @ rest"
  shows "\<exists>s' buf' p' t'.
    serve_rounds recv send emit (length xs) (s, buf, p, t) = Served (s', buf', p', t') \<and>
    ok p' \<and> incoming p' = rest \<and>
    outgoing p' = outgoing p @
      reply_frames (replies_spec (es2_crc (ss_blob s)) (ss_tx_seq s) (map snd xs))"
  using assms
proof (induction xs arbitrary: s buf p t)
  case Nil
  then show ?case by (simp add: noisy_stream_def)
next
  case (Cons x xs)
  obtain noise q where x: "x = (noise, q)" by (cases x)
  from Cons.prems x have inc: "incoming p = noise @ packet_frame q @ (noisy_stream xs @ rest)"
    and nq: "SOH \<notin> set noise" "length (in_payload q) \<le> 248" and cl: "clean_packets xs"
    by (auto simp: noisy_stream_def clean_packets_def)
  from serve_once_frame [OF Cons.prems(1,2) nq inc, of emit s t] obtain s1 buf1 p1 t1
    where 1: "serve_once recv send emit (s, buf, p, t) = Served (s1, buf1, p1, t1)" "ok p1"
      "length buf1 = 256" "incoming p1 = noisy_stream xs @ rest" "ss_blob s1 = ss_blob s"
      "ss_tx_seq s1 = tx_after (es2_crc (ss_blob s)) q (ss_tx_seq s)"
      "outgoing p1 = outgoing p @ reply_frames (replies_spec (es2_crc (ss_blob s)) (ss_tx_seq s) [q])"
    by blast
  from Cons.IH [OF 1(2,3) cl 1(4), of s1 t1] 1 x show ?case by auto
qed

end

end
