(* ===== verification/RingDma.thy ===== *)
theory RingDma
  imports Prelude
begin

text \<open>
  The DMA rings (\<^verbatim>\<open>firmware/src/lpt/ring_dma.rs\<close>, 256 words, and \<^verbatim>\<open>firmware/src/ps2/ring_dma.rs\<close>,
  1024 words).  A ring is its memory, the DMA's write address and the reader's tail.  The two files
  repeat the same arithmetic, which is written once over the number of words; the word the DMA
  deposits and the address wrap (\<^verbatim>\<open>ring_size\<close>, \<^verbatim>\<open>ring_sel\<close>) are the hardware's side.  The lemmas show
  that a ring which is never filled completely is a first-in first-out queue, and what is lost when
  it is.
\<close>

definition LPT_RING_WORDS :: nat where [const_defs]: "LPT_RING_WORDS = 256"
definition PS2_RING_WORDS :: nat where [const_defs]: "PS2_RING_WORDS = 1024"

record ring =
  rg_words :: "u32 list"
  rg_base_addr :: u32
  rg_write_addr :: u32
  rg_last_tail :: nat

definition ring_arm :: "nat \<Rightarrow> u32 list \<Rightarrow> u32 \<Rightarrow> ring option" where
  "ring_arm n storage base =
     (if base AND (of_nat (n * 4) - 1) \<noteq> 0 then None
      else Some \<lparr>rg_words = storage, rg_base_addr = base, rg_write_addr = base, rg_last_tail = 0\<rparr>)"

text \<open>The DMA stores a word and moves on, wrapping at the size of the ring.\<close>

definition dma_store :: "nat \<Rightarrow> u32 \<Rightarrow> ring \<Rightarrow> ring" where
  "dma_store n w r =
     (let off = unat (rg_write_addr r - rg_base_addr r) in
      r\<lparr>rg_words := (rg_words r)[off div 4 := w],
        rg_write_addr := rg_base_addr r + of_nat ((off + 4) mod (4 * n))\<rparr>)"

definition ring_head :: "nat \<Rightarrow> ring \<Rightarrow> nat" where
  "ring_head n r = (unat (rg_write_addr r - rg_base_addr r) div 4) mod n"

definition ring_pending :: "nat \<Rightarrow> ring \<Rightarrow> nat" where
  "ring_pending n r = (ring_head n r + n - rg_last_tail r) mod n"

definition ring_try_pop :: "nat \<Rightarrow> ring \<Rightarrow> (u32 \<times> ring) option" where
  "ring_try_pop n r =
     (if rg_last_tail r = ring_head n r then None
      else Some (rg_words r ! rg_last_tail r, r\<lparr>rg_last_tail := (rg_last_tail r + 1) mod n\<rparr>))"

definition ring_resync :: "nat \<Rightarrow> ring \<Rightarrow> ring" where
  "ring_resync n r = r\<lparr>rg_last_tail := (ring_head n r + n - 1) mod n\<rparr>"

text \<open>The loop of \<^verbatim>\<open>drain\<close>: the head is read once, then up to \<open>k\<close> words are handed out in order.\<close>

fun drain_words :: "nat \<Rightarrow> nat \<Rightarrow> ring \<Rightarrow> u32 list \<times> ring" where
  "drain_words n 0 r = ([], r)"
| "drain_words n (Suc k) r =
     (let w = rg_words r ! rg_last_tail r;
          (ws, r) = drain_words n k (r\<lparr>rg_last_tail := (rg_last_tail r + 1) mod n\<rparr>)
      in (w # ws, r))"

definition ring_drain :: "nat \<Rightarrow> nat \<Rightarrow> ring \<Rightarrow> u32 list \<times> ring" where
  "ring_drain n max_words r = drain_words n (min (ring_pending n r) max_words) r"

text \<open>The two instances.\<close>

definition lpt_try_pop :: "ring \<Rightarrow> (u32 \<times> ring) option" where
  "lpt_try_pop = ring_try_pop LPT_RING_WORDS"

definition ps2_pending :: "ring \<Rightarrow> nat" where
  "ps2_pending = ring_pending PS2_RING_WORDS"

definition ps2_drain :: "nat \<Rightarrow> ring \<Rightarrow> u32 list \<times> ring" where
  "ps2_drain = ring_drain PS2_RING_WORDS"

definition ps2_resync :: "ring \<Rightarrow> ring" where
  "ps2_resync = ring_resync PS2_RING_WORDS"

subsection \<open>The queue a ring stands for\<close>

definition ring_ok :: "nat \<Rightarrow> ring \<Rightarrow> bool" where
  "ring_ok n r \<longleftrightarrow> 0 < n \<and> 4 * n < 2 ^ 32 \<and> length (rg_words r) = n \<and> rg_last_tail r < n \<and>
     (\<exists>h < n. rg_write_addr r = rg_base_addr r + of_nat (4 * h))"

definition ring_queue :: "nat \<Rightarrow> ring \<Rightarrow> u32 list" where
  "ring_queue n r =
     map (\<lambda>i. rg_words r ! ((rg_last_tail r + i) mod n)) [0..<ring_pending n r]"

lemma ring_offset:
  assumes "ring_ok n r"
  obtains h where "h < n" "unat (rg_write_addr r - rg_base_addr r) = 4 * h" "ring_head n r = h"
    "rg_write_addr r = rg_base_addr r + of_nat (4 * h)"
proof -
  from assms obtain h where h: "h < n" "rg_write_addr r = rg_base_addr r + of_nat (4 * h)"
    and n: "4 * n < 2 ^ 32" by (auto simp: ring_ok_def)
  have "rg_write_addr r - rg_base_addr r = of_nat (4 * h)"
    unfolding h(2) by (rule add_diff_cancel_left')
  then have "unat (rg_write_addr r - rg_base_addr r) = 4 * h"
    using h(1) n by (simp add: unat_of_nat del: of_nat_mult)
  with h that show ?thesis by (simp add: ring_head_def)
qed

lemma ring_pending_less: "ring_ok n r \<Longrightarrow> ring_pending n r < n"
  by (simp add: ring_pending_def ring_ok_def)

lemma length_ring_queue [simp]: "length (ring_queue n r) = ring_pending n r"
  by (simp add: ring_queue_def)

lemma head_of_pending:
  assumes "ring_ok n r"
  shows "ring_head n r = (rg_last_tail r + ring_pending n r) mod n"
proof -
  have t: "rg_last_tail r < n" and h: "ring_head n r < n"
    using assms by (auto simp: ring_ok_def ring_head_def)
  show ?thesis
  proof (cases "rg_last_tail r \<le> ring_head n r")
    case True
    then have "ring_pending n r = ring_head n r - rg_last_tail r"
      using t h unfolding ring_pending_def
      by (metis Nat.add_diff_assoc2 add.commute less_imp_diff_less mod_add_self2 mod_less)
    then show ?thesis using True h by simp
  next
    case False
    then have "ring_pending n r = ring_head n r + n - rg_last_tail r"
      using t h unfolding ring_pending_def by simp
    moreover have "rg_last_tail r + (ring_head n r + n - rg_last_tail r) = ring_head n r + n"
      using t by simp
    ultimately show ?thesis using h by simp
  qed
qed

lemma dma_store_facts:
  assumes ok: "ring_ok n r" and room: "ring_pending n r < n - 1"
  shows "ring_ok n (dma_store n w r) \<and> ring_queue n (dma_store n w r) = ring_queue n r @ [w]"
proof -
  obtain h where h: "h < n" "unat (rg_write_addr r - rg_base_addr r) = 4 * h" "ring_head n r = h"
    by (rule ring_offset [OF ok])
  have n: "0 < n" "4 * n < 2 ^ 32" "length (rg_words r) = n" and t: "rg_last_tail r < n"
    using ok by (auto simp: ring_ok_def)
  have wrap: "(4 * h + 4) mod (4 * n) = 4 * (Suc h mod n)"
    using mult_mod_right [of 4 "Suc h" n] by (simp add: add.commute)
  define s where "s = dma_store n w r"
  have s: "rg_words s = (rg_words r)[h := w]" "rg_last_tail s = rg_last_tail r"
    "rg_base_addr s = rg_base_addr r"
    "rg_write_addr s = rg_base_addr r + of_nat (4 * (Suc h mod n))"
    using h(2) wrap by (simp_all add: s_def dma_store_def Let_def)
  have ok': "ring_ok n s"
    unfolding ring_ok_def using n t s mod_less_divisor [OF n(1), of "Suc h"]
    by (metis length_list_update)
  obtain h' where h': "h' < n" "rg_write_addr s = rg_base_addr s + of_nat (4 * h')" "ring_head n s = h'"
    "unat (rg_write_addr s - rg_base_addr s) = 4 * h'"
    by (rule ring_offset [OF ok'])
  have "4 * (Suc h mod n) < 2 ^ 32" using n mod_less_divisor [OF n(1), of "Suc h"] by linarith
  then have "unat (rg_write_addr s - rg_base_addr s) = 4 * (Suc h mod n)"
    using s(3,4) by (simp add: unat_of_nat del: of_nat_mult)
  then have head: "ring_head n s = Suc h mod n" using h'(3,4) by simp
  have p: "ring_head n r = (rg_last_tail r + ring_pending n r) mod n"
    by (rule head_of_pending [OF ok])
  have pend: "ring_pending n s = Suc (ring_pending n r)"
  proof -
    have "(Suc h mod n + n - rg_last_tail r) mod n = (Suc h + (n - rg_last_tail r)) mod n"
      using t by (metis Nat.add_diff_assoc less_imp_le_nat mod_add_left_eq)
    also have "\<dots> = Suc (h + n - rg_last_tail r) mod n" using t by simp
    also have "\<dots> = Suc ((h + n - rg_last_tail r) mod n) mod n" by (simp add: mod_Suc_eq)
    finally have "ring_pending n s = Suc (ring_pending n r) mod n"
      using head h(3) s(2) by (simp add: ring_pending_def)
    then show ?thesis using room by simp
  qed
  have "(rg_words r)[h := w] ! ((rg_last_tail r + i) mod n) = rg_words r ! ((rg_last_tail r + i) mod n)"
    if "i < ring_pending n r" for i
  proof -
    have "(rg_last_tail r + i) mod n \<noteq> (rg_last_tail r + ring_pending n r) mod n"
    proof
      assume "(rg_last_tail r + i) mod n = (rg_last_tail r + ring_pending n r) mod n"
      then have "n dvd (rg_last_tail r + ring_pending n r) - (rg_last_tail r + i)"
        using that by (subst mod_eq_dvd_iff_nat [symmetric]) simp_all
      then have "n \<le> ring_pending n r - i" using that by (auto dest: dvd_imp_le)
      then show False using room that by linarith
    qed
    then show ?thesis using p h(3) by simp
  qed
  then have "ring_queue n s = ring_queue n r @ [w]"
    using p h(1,3) n(3) by (simp add: ring_queue_def pend s(1,2))
  then show ?thesis using ok' by (simp add: s_def)
qed

lemma dma_store_full:
  assumes ok: "ring_ok n r" and full: "ring_pending n r = n - 1"
  shows "ring_ok n (dma_store n w r) \<and> ring_queue n (dma_store n w r) = []"
proof -
  obtain h where h: "h < n" "unat (rg_write_addr r - rg_base_addr r) = 4 * h" "ring_head n r = h"
    by (rule ring_offset [OF ok])
  have n: "0 < n" "4 * n < 2 ^ 32" "length (rg_words r) = n" and t: "rg_last_tail r < n"
    using ok by (auto simp: ring_ok_def)
  have wrap: "(4 * h + 4) mod (4 * n) = 4 * (Suc h mod n)"
    using mult_mod_right [of 4 "Suc h" n] by (simp add: add.commute)
  define s where "s = dma_store n w r"
  have s: "rg_words s = (rg_words r)[h := w]" "rg_last_tail s = rg_last_tail r"
    "rg_base_addr s = rg_base_addr r"
    "rg_write_addr s = rg_base_addr r + of_nat (4 * (Suc h mod n))"
    using h(2) wrap by (simp_all add: s_def dma_store_def Let_def)
  have ok': "ring_ok n s"
    unfolding ring_ok_def using n t s mod_less_divisor [OF n(1), of "Suc h"]
    by (metis length_list_update)
  have "4 * (Suc h mod n) < 2 ^ 32" using n mod_less_divisor [OF n(1), of "Suc h"] by linarith
  then have "unat (rg_write_addr s - rg_base_addr s) = 4 * (Suc h mod n)"
    using s(3,4) by (simp add: unat_of_nat del: of_nat_mult)
  then have "ring_head n s = Suc h mod n" using n by (simp add: ring_head_def)
  moreover have "Suc h mod n = rg_last_tail r"
  proof -
    have "h = (rg_last_tail r + (n - 1)) mod n" using head_of_pending [OF ok] full h(3) by simp
    then have "Suc h mod n = (rg_last_tail r + n) mod n" using n by (simp add: mod_Suc_eq)
    then show ?thesis using t by simp
  qed
  ultimately have "ring_pending n s = 0" using s(2) by (simp add: ring_pending_def)
  then show ?thesis using ok' by (simp add: ring_queue_def s_def)
qed

lemma ring_queue_Nil: "ring_ok n r \<Longrightarrow> ring_queue n r = [] \<longleftrightarrow> rg_last_tail r = ring_head n r"
  using head_of_pending [of n r] ring_pending_less [of n r]
  by (auto simp: ring_queue_def ring_pending_def ring_ok_def)

lemma ring_step_arith:
  assumes "h < n" "t < n" "(h + n - t) mod n = Suc p"
  shows "(h + n - Suc t mod n) mod n = (p :: nat)"
proof (cases "Suc t = n")
  case True
  then have "h + n - t = Suc h" by simp
  then have "Suc h mod n = Suc p" using assms by simp
  then have "h = p" using assms(1) by (cases "Suc h = n") auto
  then show ?thesis using True assms by simp
next
  case False
  then have t': "Suc t mod n = Suc t" using assms by simp
  show ?thesis
  proof (cases "t \<le> h")
    case True
    then have "h + n - t = (h - t) + n" by (rule add_diff_assoc2 [symmetric])
    moreover have "h - t < n" using assms(1) by (rule less_imp_diff_less)
    ultimately have p: "h - t = Suc p" using assms(3) by (simp only: mod_add_self2 mod_less)
    then have h: "h = t + Suc p" by simp
    then have "h + n - Suc t = p + n" by simp
    moreover have "p < n" using h assms(1) by linarith
    ultimately show ?thesis using t' by simp
  next
    case False
    then have lt: "h + n - t < n" using assms(2) by linarith
    then have "h + n - t = Suc p" using assms(3) by simp
    then have "h + n - Suc t = p" by simp
    moreover have "p < n" using lt \<open>h + n - t = Suc p\<close> by linarith
    ultimately show ?thesis using t' by simp
  qed
qed

lemma ring_queue_nth:
  "i < ring_pending n r \<Longrightarrow> ring_queue n r ! i = rg_words r ! ((rg_last_tail r + i) mod n)"
  by (simp add: ring_queue_def)

lemma ring_advance:
  assumes ok: "ring_ok n r" and some: "0 < ring_pending n r"
  defines "r' \<equiv> r\<lparr>rg_last_tail := (rg_last_tail r + 1) mod n\<rparr>"
  shows "ring_ok n r' \<and> ring_queue n r = (rg_words r ! rg_last_tail r) # ring_queue n r'"
proof -
  have n: "0 < n" and t: "rg_last_tail r < n" using ok by (auto simp: ring_ok_def)
  have ok': "ring_ok n r'" using ok by (auto simp: ring_ok_def r'_def)
  have same: "ring_head n r' = ring_head n r" by (simp add: r'_def ring_head_def)
  obtain p where p: "ring_pending n r = Suc p" using some by (auto simp: gr0_conv_Suc)
  have p': "ring_pending n r' = p"
    unfolding ring_pending_def same
    using ring_step_arith [of "ring_head n r" n "rg_last_tail r" p] t p n
    by (simp add: r'_def ring_pending_def ring_head_def)
  show ?thesis
  proof (rule conjI [OF ok'], rule nth_equalityI)
    show "length (ring_queue n r) = length ((rg_words r ! rg_last_tail r) # ring_queue n r')"
      by (simp add: p p')
    fix i assume "i < length (ring_queue n r)"
    then show "ring_queue n r ! i = ((rg_words r ! rg_last_tail r) # ring_queue n r') ! i"
      using p p' n by (cases i) (simp_all add: ring_queue_nth r'_def mod_add_left_eq t)
  qed
qed

lemma ring_pop_none: "ring_ok n r \<Longrightarrow> ring_try_pop n r = None \<longleftrightarrow> ring_queue n r = []"
  by (simp add: ring_try_pop_def ring_queue_Nil)

lemma ring_pop_some:
  "ring_ok n r \<Longrightarrow> ring_try_pop n r = Some (w, r') \<Longrightarrow> ring_ok n r' \<and> ring_queue n r = w # ring_queue n r'"
  using ring_advance [of n r] ring_queue_Nil [of n r] length_ring_queue [of n r]
  by (auto simp: ring_try_pop_def simp flip: length_greater_0_conv split: if_splits)

lemma drain_words_queue:
  "ring_ok n r \<Longrightarrow> k \<le> ring_pending n r \<Longrightarrow> drain_words n k r = (ws, r') \<Longrightarrow>
     ring_ok n r' \<and> ws = take k (ring_queue n r) \<and> ring_queue n r' = drop k (ring_queue n r)"
proof (induction k arbitrary: r ws r')
  case (Suc k)
  define r1 where "r1 = r\<lparr>rg_last_tail := (rg_last_tail r + 1) mod n\<rparr>"
  have r1: "ring_ok n r1" "ring_queue n r = (rg_words r ! rg_last_tail r) # ring_queue n r1"
    using ring_advance [OF Suc.prems(1)] Suc.prems(2) by (auto simp: r1_def)
  obtain ws1 where ws: "drain_words n k r1 = (ws1, r')" "ws = (rg_words r ! rg_last_tail r) # ws1"
    using Suc.prems(3) by (auto simp: r1_def split: prod.splits)
  have "k \<le> ring_pending n r1"
    using r1(2) Suc.prems(2) length_ring_queue [of n r] by simp
  from Suc.IH [OF r1(1) this ws(1)] show ?case using r1(2) ws(2) by simp
qed simp

lemma ring_drain_queue:
  assumes "ring_ok n r" "ring_drain n m r = (ws, r')"
  shows "ring_ok n r' \<and> ws = take m (ring_queue n r) \<and> ring_queue n r' = drop m (ring_queue n r)"
  using drain_words_queue [OF assms(1), of "min (ring_pending n r) m" ws r'] assms(2)
  by (auto simp: ring_drain_def min_def)

text \<open>Resynchronising leaves the newest slot as the only unread word.\<close>

lemma ring_resync_queue:
  assumes "ring_ok n r" "1 < n"
  shows "ring_ok n (ring_resync n r) \<and>
     ring_queue n (ring_resync n r) = [rg_words r ! ((ring_head n r + n - 1) mod n)]"
proof -
  have h: "ring_head n r < n" using assms by (simp add: ring_head_def)
  have "(ring_head n r + n - (ring_head n r + n - 1) mod n) mod n = 1"
  proof (cases "ring_head n r")
    case 0 then show ?thesis using assms by simp
  next
    case (Suc k)
    then have "ring_head n r + n - 1 = k + n" "k < n" using h by simp_all
    then show ?thesis using h assms Suc by (simp add: mod_Suc)
  qed
  then show ?thesis
    using assms by (auto simp: ring_queue_def ring_pending_def ring_head_def ring_ok_def ring_resync_def)
qed

lemma ring_arm_ok:
  assumes "ring_arm n storage base = Some r" "length storage = n" "0 < n" "4 * n < 2 ^ 32"
  shows "ring_ok n r \<and> ring_queue n r = []"
proof -
  have r: "r = \<lparr>rg_words = storage, rg_base_addr = base, rg_write_addr = base, rg_last_tail = 0\<rparr>"
    using assms(1) by (auto simp: ring_arm_def split: if_splits)
  have "ring_ok n r" using assms r by (auto simp: ring_ok_def intro!: exI [of _ 0])
  then show ?thesis using assms r by (simp add: ring_queue_Nil ring_head_def)
qed

subsection \<open>The producer and the consumer\<close>

text \<open>
  The DMA deposits words on its own; the reader's task polls.  A schedule is the order in which the
  two happen: \<open>Some w\<close> is a deposit, \<open>None\<close> a poll.
\<close>

fun ring_schedule ::
  "('w \<Rightarrow> 'r \<Rightarrow> 'r) \<Rightarrow> ('r \<Rightarrow> ('w \<times> 'r) option) \<Rightarrow> 'w option list \<Rightarrow> 'r \<Rightarrow> 'w list \<times> 'r" where
  "ring_schedule put pop [] r = ([], r)"
| "ring_schedule put pop (Some w # ss) r = ring_schedule put pop ss (put w r)"
| "ring_schedule put pop (None # ss) r =
     (case pop r of
        None \<Rightarrow> ring_schedule put pop ss r
      | Some (w, r') \<Rightarrow> (let (ws, r'') = ring_schedule put pop ss r' in (w # ws, r'')))"

text \<open>The reader keeps up with a schedule if no deposit finds \<open>cap\<close> unread words.\<close>

fun keeps_up :: "nat \<Rightarrow> nat \<Rightarrow> 'w option list \<Rightarrow> bool" where
  "keeps_up cap k [] = True"
| "keeps_up cap k (Some w # ss) = (k < cap \<and> keeps_up cap (Suc k) ss)"
| "keeps_up cap k (None # ss) = keeps_up cap (k - 1) ss"

definition deposits :: "'w option list \<Rightarrow> 'w list" where
  "deposits ss = map the (filter (\<lambda>s. s \<noteq> None) ss)"

lemma deposits_simps [simp]:
  "deposits [] = []" "deposits (Some w # ss) = w # deposits ss" "deposits (None # ss) = deposits ss"
  by (simp_all add: deposits_def)

locale fifo =
  fixes ok :: "'r \<Rightarrow> bool" and queue :: "'r \<Rightarrow> 'w list"
    and put :: "'w \<Rightarrow> 'r \<Rightarrow> 'r" and pop :: "'r \<Rightarrow> ('w \<times> 'r) option" and cap :: nat
  assumes put_law: "ok r \<Longrightarrow> length (queue r) < cap \<Longrightarrow> ok (put w r) \<and> queue (put w r) = queue r @ [w]"
    and pop_none: "ok r \<Longrightarrow> pop r = None \<longleftrightarrow> queue r = []"
    and pop_some: "ok r \<Longrightarrow> pop r = Some (w, r') \<Longrightarrow> ok r' \<and> queue r = w # queue r'"
begin

lemma in_order:
  "ok r \<Longrightarrow> keeps_up cap (length (queue r)) ss \<Longrightarrow> ring_schedule put pop ss r = (ws, r') \<Longrightarrow>
     ok r' \<and> ws @ queue r' = queue r @ deposits ss"
proof (induction ss arbitrary: r ws)
  case (Cons s ss)
  show ?case
  proof (cases s)
    case None
    show ?thesis
    proof (cases "pop r")
      case None
      then show ?thesis using Cons \<open>s = None\<close> pop_none [of r] by auto
    next
      case (Some p)
      obtain w r1 where p: "p = (w, r1)" by (cases p)
      obtain ws1 where ws: "ws = w # ws1" "ring_schedule put pop ss r1 = (ws1, r')"
        using Cons.prems(3) \<open>s = None\<close> Some p by (auto split: prod.splits)
      have "ok r1 \<and> queue r = w # queue r1" using pop_some Cons.prems(1) Some p by simp
      then show ?thesis using Cons.IH [OF _ _ ws(2)] ws(1) Cons.prems(2) \<open>s = None\<close> by simp
    qed
  next
    case (Some w)
    have "ok (put w r) \<and> queue (put w r) = queue r @ [w]"
      using put_law Cons.prems Some by simp
    then show ?thesis using Cons.IH [of "put w r" ws] Cons.prems Some by simp
  qed
qed simp

end

lemma ring_fifo: "fifo (ring_ok n) (ring_queue n) (dma_store n) (ring_try_pop n) (n - 1)"
  by (rule fifo.intro) (auto simp: dma_store_facts ring_pop_none dest: ring_pop_some)

interpretation lpt_fifo: fifo "ring_ok LPT_RING_WORDS" "ring_queue LPT_RING_WORDS"
    "dma_store LPT_RING_WORDS" lpt_try_pop "LPT_RING_WORDS - 1"
  unfolding lpt_try_pop_def by (rule ring_fifo)

interpretation ps2_fifo: fifo "ring_ok PS2_RING_WORDS" "ring_queue PS2_RING_WORDS"
    "dma_store PS2_RING_WORDS" "ring_try_pop PS2_RING_WORDS" "PS2_RING_WORDS - 1"
  by (rule ring_fifo)

lemma armed_ok:
  assumes "ring_arm n storage base = Some r" "length storage = n" "n = LPT_RING_WORDS \<or> n = PS2_RING_WORDS"
  shows "ring_ok n r \<and> ring_queue n r = []"
  using ring_arm_ok [OF assms(1,2)] assms(3) by (auto simp: const_defs)

text \<open>
  The ring between the compat-in state machine and the byte receiver loses, repeats and reorders
  nothing: after any interleaving of deposits and polls in which no deposit finds 255 unread words,
  the words the polls returned, followed by the words still unread, are the deposited words in order.
\<close>

theorem lpt_ring_in_order:
  assumes "ring_arm LPT_RING_WORDS storage base = Some r" "length storage = LPT_RING_WORDS"
    and "keeps_up (LPT_RING_WORDS - 1) 0 ss"
    and "ring_schedule (dma_store LPT_RING_WORDS) lpt_try_pop ss r = (ws, r')"
  shows "ws @ ring_queue LPT_RING_WORDS r' = deposits ss"
  using armed_ok [OF assms(1,2)] lpt_fifo.in_order [of r ss ws r'] assms(3,4) by simp

theorem lpt_ring_in_order_witness:
  "\<exists>ws r'. ring_schedule (dma_store LPT_RING_WORDS) lpt_try_pop [Some 7, None, Some 9]
      \<lparr>rg_words = replicate 256 0, rg_base_addr = 0x20000400, rg_write_addr = 0x20000400, rg_last_tail = 0\<rparr>
    = (ws, r') \<and> ws @ ring_queue LPT_RING_WORDS r' = [7, 9]"
proof -
  let ?r = "\<lparr>rg_words = replicate 256 0, rg_base_addr = 0x20000400, rg_write_addr = 0x20000400, rg_last_tail = 0\<rparr> :: ring"
  obtain ws r' where e: "ring_schedule (dma_store LPT_RING_WORDS) lpt_try_pop [Some 7, None, Some 9] ?r = (ws, r')"
    by fastforce
  have "ring_arm LPT_RING_WORDS (replicate 256 0) 0x20000400 = Some ?r"
    by (simp add: ring_arm_def const_defs)
  from lpt_ring_in_order [OF this _ _ e] have "ws @ ring_queue LPT_RING_WORDS r' = [7, 9]"
    by (simp add: const_defs)
  with e show ?thesis by blast
qed



end
