(* ===== verification/Pio.thy ===== *)
theory Pio
  imports Prelude
begin

text \<open>
  The PIO programs of the firmware, as values, and the machine that runs them: one state machine with
  its shift registers, FIFOs, side-set and delays, stepped by the clock cycle.  Only the instructions
  the firmware assembles are in the instruction set.  Pins enter as the value of the pin window from
  \<^verbatim>\<open>IN_BASE\<close> upwards and as absolute GPIO levels; the OUT, SET and side-set groups are separate
  registers, as the firmware's configurations map them to different pins.
\<close>

subsection \<open>The machine\<close>

datatype wait_src = WaitGpio nat | WaitPin nat
datatype out_dest = OutPins | OutX | OutNull
datatype mov_src = MovX | MovPins
datatype set_dest = SetPins | SetY
datatype jmp_cond = JmpAlways | XIsZero | YDecNonZero

datatype pio_op =
    PWait bool wait_src
  | PIn nat
  | POut out_dest nat
  | PPush
  | PPull
  | PMovPins mov_src
  | PSet set_dest nat
  | PJmp jmp_cond nat
  | PNop

record pio_instr =
  pi_op :: pio_op
  pi_delay :: nat
  pi_side :: "bool option"

definition ins :: "pio_op \<Rightarrow> pio_instr" where
  "ins p = \<lparr>pi_op = p, pi_delay = 0, pi_side = None\<rparr>"

definition ins_delay :: "pio_op \<Rightarrow> nat \<Rightarrow> pio_instr" where
  "ins_delay p d = \<lparr>pi_op = p, pi_delay = d, pi_side = None\<rparr>"

definition ins_side :: "pio_op \<Rightarrow> nat \<Rightarrow> bool \<Rightarrow> pio_instr" where
  "ins_side p d b = \<lparr>pi_op = p, pi_delay = d, pi_side = Some b\<rparr>"

lemmas ins_defs = ins_def ins_delay_def ins_side_def

record sm_config =
  cf_prog :: "pio_instr list"
  cf_in_right :: bool
  cf_autopush :: "nat option"
  cf_out_count :: nat
  cf_rx_depth :: nat

text \<open>The window from \<^verbatim>\<open>IN_BASE\<close> and the absolute GPIO levels at one cycle.\<close>

type_synonym pio_input = "u32 \<times> (nat \<Rightarrow> bool)"

record sm_state =
  sm_pc :: nat
  sm_delay :: nat
  sm_x :: u32
  sm_y :: u32
  sm_osr :: u32
  sm_isr :: u32
  sm_isr_count :: nat
  sm_tx :: "u32 list"
  sm_rx :: "u32 list"
  sm_out :: u32
  sm_set :: u32
  sm_side :: bool

definition sm_advance :: "sm_config \<Rightarrow> sm_state \<Rightarrow> sm_state" where
  "sm_advance cf s =
     s\<lparr>sm_pc := (if Suc (sm_pc s) = length (cf_prog cf) then 0 else Suc (sm_pc s))\<rparr>"

text \<open>Shifting into the ISR: to the left the new bits enter at the bottom, to the right at the top.\<close>

definition isr_shift :: "bool \<Rightarrow> nat \<Rightarrow> u32 \<Rightarrow> u32 \<Rightarrow> u32" where
  "isr_shift right n bits isr =
     (if right then drop_bit n isr OR push_bit (32 - n) (bits AND mask n)
      else push_bit n isr OR (bits AND mask n))"

definition sm_push :: "sm_config \<Rightarrow> u32 \<Rightarrow> sm_state \<Rightarrow> sm_state option" where
  "sm_push cf w s =
     (if length (sm_rx s) < cf_rx_depth cf
      then Some (s\<lparr>sm_rx := sm_rx s @ [w], sm_isr := 0, sm_isr_count := 0\<rparr>) else None)"

text \<open>One instruction; \<open>None\<close> when it stalls.\<close>

definition sm_exec :: "sm_config \<Rightarrow> pio_input \<Rightarrow> pio_op \<Rightarrow> sm_state \<Rightarrow> sm_state option" where
  "sm_exec cf i p s =
     (case p of
        PWait v src \<Rightarrow>
          if (case src of WaitGpio g \<Rightarrow> snd i g | WaitPin k \<Rightarrow> bit (fst i) k) = v
          then Some (sm_advance cf s) else None
      | PIn n \<Rightarrow>
          (let isr = isr_shift (cf_in_right cf) n (fst i) (sm_isr s);
               count = sm_isr_count s + n
           in (case cf_autopush cf of
                 Some th \<Rightarrow>
                   if th \<le> count then map_option (sm_advance cf) (sm_push cf isr s)
                   else Some (sm_advance cf (s\<lparr>sm_isr := isr, sm_isr_count := count\<rparr>))
               | None \<Rightarrow> Some (sm_advance cf (s\<lparr>sm_isr := isr, sm_isr_count := min 32 count\<rparr>))))
      | POut d n \<Rightarrow>
          (let v = sm_osr s AND mask n;
               s = s\<lparr>sm_osr := drop_bit n (sm_osr s)\<rparr>
           in Some (sm_advance cf
                (case d of
                   OutPins \<Rightarrow> s\<lparr>sm_out := v AND mask (cf_out_count cf)\<rparr>
                 | OutX \<Rightarrow> s\<lparr>sm_x := v\<rparr>
                 | OutNull \<Rightarrow> s)))
      | PPush \<Rightarrow> map_option (sm_advance cf) (sm_push cf (sm_isr s) s)
      | PPull \<Rightarrow>
          (case sm_tx s of
             [] \<Rightarrow> None
           | w # ws \<Rightarrow> Some (sm_advance cf (s\<lparr>sm_osr := w, sm_tx := ws\<rparr>)))
      | PMovPins src \<Rightarrow>
          Some (sm_advance cf (s\<lparr>sm_out :=
            (case src of MovX \<Rightarrow> sm_x s | MovPins \<Rightarrow> fst i) AND mask (cf_out_count cf)\<rparr>))
      | PSet SetPins v \<Rightarrow> Some (sm_advance cf (s\<lparr>sm_set := of_nat v\<rparr>))
      | PSet SetY v \<Rightarrow> Some (sm_advance cf (s\<lparr>sm_y := of_nat v\<rparr>))
      | PJmp c t \<Rightarrow>
          (case c of
             JmpAlways \<Rightarrow> Some (s\<lparr>sm_pc := t\<rparr>)
           | XIsZero \<Rightarrow> Some (if sm_x s = 0 then s\<lparr>sm_pc := t\<rparr> else sm_advance cf s)
           | YDecNonZero \<Rightarrow>
               (let taken = (sm_y s \<noteq> 0); s = s\<lparr>sm_y := sm_y s - 1\<rparr>
                in Some (if taken then s\<lparr>sm_pc := t\<rparr> else sm_advance cf s)))
      | PNop \<Rightarrow> Some (sm_advance cf s))"

text \<open>One clock cycle: a pending delay, or an instruction with its side-set, which also applies while it stalls.\<close>

definition sm_cycle :: "sm_config \<Rightarrow> pio_input \<Rightarrow> sm_state \<Rightarrow> sm_state" where
  "sm_cycle cf i s =
     (if 0 < sm_delay s then s\<lparr>sm_delay := sm_delay s - 1\<rparr>
      else
        let c = cf_prog cf ! sm_pc s;
            s = (case pi_side c of Some b \<Rightarrow> s\<lparr>sm_side := b\<rparr> | None \<Rightarrow> s)
        in (case sm_exec cf i (pi_op c) s of
              None \<Rightarrow> s
            | Some s \<Rightarrow> s\<lparr>sm_delay := pi_delay c\<rparr>))"

text \<open>A run over the inputs of consecutive cycles, with the state after each cycle.\<close>

fun sm_run :: "sm_config \<Rightarrow> pio_input list \<Rightarrow> sm_state \<Rightarrow> sm_state \<times> sm_state list" where
  "sm_run cf [] s = (s, [])"
| "sm_run cf (i # is) s =
     (let s = sm_cycle cf i s; (t, tr) = sm_run cf is s in (t, s # tr))"

definition sm_start :: "u32 \<Rightarrow> u32 \<Rightarrow> bool \<Rightarrow> sm_state" where
  "sm_start out_pins set_pins side =
     \<lparr>sm_pc = 0, sm_delay = 0, sm_x = 0, sm_y = 0, sm_osr = 0, sm_isr = 0, sm_isr_count = 0,
      sm_tx = [], sm_rx = [], sm_out = out_pins, sm_set = set_pins, sm_side = side\<rparr>"

lemma sm_run_Cons [simp]:
  "fst (sm_run cf (i # is) s) = fst (sm_run cf is (sm_cycle cf i s))"
  "snd (sm_run cf (i # is) s) = sm_cycle cf i s # snd (sm_run cf is (sm_cycle cf i s))"
  by (simp_all add: Let_def case_prod_beta)

declare sm_run.simps(2) [simp del]

lemma sm_run_append:
  "sm_run cf (xs @ ys) s =
     (fst (sm_run cf ys (fst (sm_run cf xs s))),
      snd (sm_run cf xs s) @ snd (sm_run cf ys (fst (sm_run cf xs s))))"
  by (induction xs arbitrary: s) (simp_all add: prod_eq_iff)

lemma length_sm_run [simp]: "length (snd (sm_run cf is s)) = length is"
  by (induction "is" arbitrary: s) simp_all

text \<open>Waiting out a delay.\<close>

lemma sm_run_delay:
  "length is = sm_delay s \<Longrightarrow>
   fst (sm_run cf is s) = s\<lparr>sm_delay := 0\<rparr> \<and>
   (\<forall>t \<in> set (snd (sm_run cf is s)). \<exists>d. t = s\<lparr>sm_delay := d\<rparr>)"
proof (induction "is" arbitrary: s)
  case Nil
  then show ?case by simp
next
  case (Cons i "is")
  then have d: "sm_delay s = Suc (length is)" by simp
  then have c: "sm_cycle cf i s = s\<lparr>sm_delay := length is\<rparr>" by (simp add: sm_cycle_def)
  from Cons.IH [of "s\<lparr>sm_delay := length is\<rparr>"] show ?case
    by (auto simp: c)
qed

text \<open>An output that a delay cannot change stays put for as long as the delay lasts.\<close>

lemma sm_run_delay_out:
  assumes "length is = sm_delay s" "\<And>d. f (s\<lparr>sm_delay := d\<rparr>) = f s"
  shows "map f (snd (sm_run cf is s)) = replicate (length is) (f s)"
proof (rule replicate_eqI)
  fix y assume "y \<in> set (map f (snd (sm_run cf is s)))"
  then obtain t where "t \<in> set (snd (sm_run cf is s))" and y: "y = f t" by auto
  then obtain d where "t = s\<lparr>sm_delay := d\<rparr>" using sm_run_delay [OF assms(1), of cf] by blast
  then show "y = f s" using assms(2) y by simp
qed simp

lemma split_cycles:
  assumes "length is = m + n"
  obtains xs ys where "is = xs @ ys" "length xs = m" "length ys = n"
  using assms by (intro that [of "take m is" "drop m is"]) simp_all

text \<open>A run of a state machine whose receive FIFO the DMA empties after every cycle.\<close>

fun dma_run :: "sm_config \<Rightarrow> pio_input list \<Rightarrow> sm_state \<Rightarrow> sm_state \<times> u32 list" where
  "dma_run cf [] s = (s, [])"
| "dma_run cf (i # is) s =
     (let s = sm_cycle cf i s;
          (t, ws) = dma_run cf is (s\<lparr>sm_rx := []\<rparr>)
      in (t, sm_rx s @ ws))"

lemma dma_run_append:
  "dma_run cf (xs @ ys) s =
     (let (s1, ws1) = dma_run cf xs s; (s2, ws2) = dma_run cf ys s1 in (s2, ws1 @ ws2))"
  by (induction xs arbitrary: s) (simp_all add: Let_def case_prod_beta)

lemma dma_run_stall:
  assumes "\<forall>i \<in> set xs. sm_cycle cf i s = s" "sm_rx s = []"
  shows "dma_run cf xs s = (s, [])"
proof -
  have e: "s\<lparr>sm_rx := []\<rparr> = s" using assms(2) by (cases s) simp
  show ?thesis using assms(1) by (induction xs) (simp_all add: e assms(2))
qed

lemma sm_run_stall:
  assumes "\<forall>i \<in> set xs. sm_cycle cf i s = s"
  shows "sm_run cf xs s = (s, replicate (length xs) s)"
  using assms by (induction xs) (simp_all add: prod_eq_iff)

subsection \<open>The programs\<close>

text \<open>\<^verbatim>\<open>lpt_compat_in\<close>: wait for the strobe, sample it with the data, wait for its release.\<close>

definition compat_in_program :: "pio_instr list" where
  "compat_in_program =
     [ins (PWait False (WaitPin 0)),
      ins (PIn 9),
      ins (PWait True (WaitPin 0))]"

definition compat_in_config :: sm_config where
  "compat_in_config =
     \<lparr>cf_prog = compat_in_program, cf_in_right = False, cf_autopush = Some 9, cf_out_count = 0,
      cf_rx_depth = 8\<rparr>"

text \<open>\<^verbatim>\<open>lpt_nibble_out\<close>: two five-bit patterns per word, each held for a settle time.\<close>

definition nibble_out_program :: "pio_instr list" where
  "nibble_out_program =
     [ins PPull,
      ins (POut OutPins 5),
      ins_delay PNop 9,
      ins (POut OutPins 5),
      ins_delay PNop 9]"

definition nibble_out_config :: sm_config where
  "nibble_out_config =
     \<lparr>cf_prog = nibble_out_program, cf_in_right = False, cf_autopush = None, cf_out_count = 5,
      cf_rx_depth = 0\<rparr>"

text \<open>\<^verbatim>\<open>lpt_byte_rev\<close>: a byte per host request, acknowledged by the side-set line.\<close>

definition byte_rev_program :: "pio_instr list" where
  "byte_rev_program =
     [ins_side PPull 0 True,
      ins_side (PWait False (WaitPin 0)) 0 True,
      ins_side (POut OutPins 8) 0 True,
      ins_side PNop 4 False,
      ins_side (PWait True (WaitPin 0)) 0 True]"

definition byte_rev_config :: sm_config where
  "byte_rev_config =
     \<lparr>cf_prog = byte_rev_program, cf_in_right = False, cf_autopush = None, cf_out_count = 8,
      cf_rx_depth = 0\<rparr>"

definition NDATASTB_GPIO :: nat where [const_defs]: "NDATASTB_GPIO = 20"

text \<open>\<^verbatim>\<open>lpt_epp\<close>: the command word's lowest bit picks the branch.\<close>

definition epp_program :: "pio_instr list" where
  "epp_program =
     [ins_side PPull 0 True,
      ins_side (POut OutX 1) 0 True,
      ins_side (POut OutNull 23) 0 True,
      ins_side (PJmp XIsZero 9) 0 True,
      ins_side (POut OutPins 8) 0 True,
      ins_side (PWait False (WaitGpio NDATASTB_GPIO)) 0 True,
      ins_side PNop 4 False,
      ins_side (PWait True (WaitGpio NDATASTB_GPIO)) 0 True,
      ins_side (PJmp JmpAlways 0) 0 True,
      ins_side (PWait False (WaitGpio NDATASTB_GPIO)) 0 True,
      ins_side (PIn 8) 0 False,
      ins_side PPush 0 False,
      ins_side (PWait True (WaitGpio NDATASTB_GPIO)) 0 False,
      ins_side (PJmp JmpAlways 0) 0 True]"

definition epp_config :: sm_config where
  "epp_config =
     \<lparr>cf_prog = epp_program, cf_in_right = False, cf_autopush = None, cf_out_count = 8,
      cf_rx_depth = 4\<rparr>"

text \<open>\<^verbatim>\<open>lpt_ecp_fwd_dma\<close> and \<^verbatim>\<open>lpt_ecp_rev_dma\<close>.\<close>

definition HOSTACK_GPIO :: nat where [const_defs]: "HOSTACK_GPIO = 20"

definition ecp_fwd_program :: "pio_instr list" where
  "ecp_fwd_program =
     [ins_side (PWait False (WaitPin 0)) 0 True,
      ins_side (PIn 9) 0 True,
      ins_side PNop 2 False,
      ins_side PPush 0 False,
      ins_side (PWait True (WaitPin 0)) 0 True]"

definition ecp_fwd_config :: sm_config where
  "ecp_fwd_config =
     \<lparr>cf_prog = ecp_fwd_program, cf_in_right = False, cf_autopush = None, cf_out_count = 0,
      cf_rx_depth = 8\<rparr>"

definition ecp_rev_program :: "pio_instr list" where
  "ecp_rev_program =
     [ins_side PPull 0 True,
      ins_side (POut OutPins 8) 0 True,
      ins_side (PWait False (WaitGpio HOSTACK_GPIO)) 0 True,
      ins_side PNop 2 False,
      ins_side (PWait True (WaitGpio HOSTACK_GPIO)) 0 True]"

definition ecp_rev_config :: sm_config where
  "ecp_rev_config =
     \<lparr>cf_prog = ecp_rev_program, cf_in_right = False, cf_autopush = None, cf_out_count = 8,
      cf_rx_depth = 0\<rparr>"

text \<open>\<^verbatim>\<open>pio_dir_follower\<close>: the transceiver's direction mirrors the host's \<^verbatim>\<open>nWrite\<close>.\<close>

definition dir_follower_program :: "pio_instr list" where
  "dir_follower_program = [ins (PMovPins MovPins)]"

definition dir_follower_config :: sm_config where
  "dir_follower_config =
     \<lparr>cf_prog = dir_follower_program, cf_in_right = True, cf_autopush = None, cf_out_count = 1,
      cf_rx_depth = 4\<rparr>"

text \<open>\<^verbatim>\<open>ps2_kbd_tx\<close>: CLK is the SET pin, DATA the OUT pin.\<close>

definition AT_LOOP_INIT :: nat where [const_defs]: "AT_LOOP_INIT = 10"
definition XT_LOOP_INIT :: nat where [const_defs]: "XT_LOOP_INIT = 8"

definition ps2_tx_program :: "pio_instr list" where
  "ps2_tx_program =
     [ins (PSet SetY AT_LOOP_INIT),
      ins PPull,
      ins (POut OutX 1),
      ins_delay (PSet SetPins 0) 3,
      ins (PMovPins MovX),
      ins_delay (PSet SetPins 1) 3,
      ins (PJmp YDecNonZero 2),
      ins (PSet SetPins 1)]"

definition ps2_tx_config :: sm_config where
  "ps2_tx_config =
     \<lparr>cf_prog = ps2_tx_program, cf_in_right = False, cf_autopush = None, cf_out_count = 1,
      cf_rx_depth = 0\<rparr>"

text \<open>\<^verbatim>\<open>ps2_kbd_oversample\<close> and \<^verbatim>\<open>ps2_aux_oversample\<close>: one sample per cycle, autopushed.\<close>

definition kbd_oversample_program :: "pio_instr list" where
  "kbd_oversample_program = [ins (PIn 3)]"

definition kbd_oversample_config :: sm_config where
  "kbd_oversample_config =
     \<lparr>cf_prog = kbd_oversample_program, cf_in_right = True, cf_autopush = Some 30, cf_out_count = 0,
      cf_rx_depth = 8\<rparr>"

definition aux_oversample_program :: "pio_instr list" where
  "aux_oversample_program = [ins (PIn 4)]"

definition aux_oversample_config :: sm_config where
  "aux_oversample_config =
     \<lparr>cf_prog = aux_oversample_program, cf_in_right = True, cf_autopush = Some 28, cf_out_count = 0,
      cf_rx_depth = 8\<rparr>"

lemmas program_defs = compat_in_program_def compat_in_config_def nibble_out_program_def
  nibble_out_config_def byte_rev_program_def byte_rev_config_def epp_program_def epp_config_def
  ecp_fwd_program_def ecp_fwd_config_def ecp_rev_program_def ecp_rev_config_def
  dir_follower_program_def dir_follower_config_def ps2_tx_program_def ps2_tx_config_def
  kbd_oversample_program_def kbd_oversample_config_def aux_oversample_program_def
  aux_oversample_config_def

text \<open>Every program fits the 32 words of a PIO block's instruction memory, together with its partner.\<close>

lemma programs_fit:
  "length compat_in_program + length nibble_out_program = 8"
  "length compat_in_program + length byte_rev_program = 8"
  "length epp_program + length dir_follower_program = 15"
  "length ecp_fwd_program + length ecp_rev_program = 10"
  by (simp_all add: program_defs)

end
