(* ===== verification/Phys.thy ===== *)
theory Phys
  imports Transport RingDma Pio "HOL-Library.Monad_Syntax"
begin

text \<open>
  The parallel port: the hardware that all modes share (\<^verbatim>\<open>lpt/hardware.rs\<close>), the phys that are built
  on it and taken down again (\<^verbatim>\<open>compat.rs\<close>, \<^verbatim>\<open>byte.rs\<close>, \<^verbatim>\<open>epp.rs\<close>, \<^verbatim>\<open>ecp.rs\<close> and the drivers of
  their state machines), and the multiplexer that switches between them (\<^verbatim>\<open>lpt/mux.rs\<close>).  \<^verbatim>\<open>expect\<close>,
  \<^verbatim>\<open>assert!\<close> and a full instruction memory are panics, the value \<open>None\<close>.  What the state machines
  deliver in the future is part of the hardware's state: the words the DMA deposits before each poll,
  and the words of SM0's receive FIFO.
\<close>

subsection \<open>The shared hardware\<close>

definition FUNCSEL_SIO :: nat where [const_defs]: "FUNCSEL_SIO = 5"
definition FUNCSEL_PIO0 :: nat where [const_defs]: "FUNCSEL_PIO0 = 6"

text \<open>The GPIO numbers of \<^verbatim>\<open>LptPins\<close>.\<close>

definition GP_STROBE :: nat where [const_defs]: "GP_STROBE = 11"
definition GP_DATA :: "nat list" where [const_defs]: "GP_DATA = [12, 13, 14, 15, 16, 17, 18, 19]"
definition GP_AUTO_FD :: nat where [const_defs]: "GP_AUTO_FD = 20"
definition GP_NACK :: nat where [const_defs]: "GP_NACK = 23"
definition GP_BUSY :: nat where [const_defs]: "GP_BUSY = 24"
definition GP_STATUS :: "nat list" where [const_defs]: "GP_STATUS = [23, 24, 25, 26, 27]"
definition GP_DIR :: nat where [const_defs]: "GP_DIR = 29"

text \<open>What a state machine is configured with: its program and shift setup, its pin groups, its clock
  (\<open>None\<close> is the undivided system clock).\<close>

record sm_setup =
  su_config :: sm_config
  su_in :: "nat list"
  su_out :: "nat list"
  su_side :: "nat list"
  su_clk_hz :: "nat option"

record lpt_hardware =
  hw_memory :: "pio_instr list list"
  hw_setup :: "nat \<Rightarrow> sm_setup option"
  hw_pin_out :: "nat \<Rightarrow> bool"
  hw_pin_level :: "nat \<Rightarrow> bool"
  hw_parked_sm0 :: "nat option"
  hw_parked_sm1 :: "nat option"
  hw_parked_sm2 :: "nat option"
  hw_parked_dma_ch4 :: "nat option"
  hw_hd :: bool
  hw_dir_funcsel :: nat
  hw_dir_oe :: bool
  hw_dir_sio :: bool
  hw_ring_armed :: bool
  hw_ring_words :: "u32 list"
  hw_ring_base :: u32
  hw_bursts :: "u32 list list"
  hw_rx :: "u32 list"

text \<open>\<^verbatim>\<open>Common::load_program\<close> panics when the block's 32 words are used up.\<close>

definition load_program :: "pio_instr list \<Rightarrow> lpt_hardware \<Rightarrow> lpt_hardware option" where
  "load_program prg hw =
     (if sum_list (map length (hw_memory hw)) + length prg \<le> 32
      then Some (hw\<lparr>hw_memory := prg # hw_memory hw\<rparr>) else None)"

definition free_instr :: "pio_instr list \<Rightarrow> lpt_hardware \<Rightarrow> lpt_hardware" where
  "free_instr prg hw = hw\<lparr>hw_memory := remove1 prg (hw_memory hw)\<rparr>"

definition set_pins :: "bool \<Rightarrow> nat list \<Rightarrow> lpt_hardware \<Rightarrow> lpt_hardware" where
  "set_pins v gs hw = hw\<lparr>hw_pin_level := (\<lambda>g. if g \<in> set gs then v else hw_pin_level hw g)\<rparr>"

definition set_pin_dirs_out :: "nat list \<Rightarrow> lpt_hardware \<Rightarrow> lpt_hardware" where
  "set_pin_dirs_out gs hw = hw\<lparr>hw_pin_out := (\<lambda>g. g \<in> set gs \<or> hw_pin_out hw g)\<rparr>"

definition sm_enable :: "nat \<Rightarrow> sm_setup \<Rightarrow> lpt_hardware \<Rightarrow> lpt_hardware" where
  "sm_enable sm su hw = hw\<lparr>hw_setup := (hw_setup hw)(sm := Some su)\<rparr>"

definition sm_disable :: "nat \<Rightarrow> lpt_hardware \<Rightarrow> lpt_hardware" where
  "sm_disable sm hw = hw\<lparr>hw_setup := (hw_setup hw)(sm := None)\<rparr>"

definition drive_dir_sio :: "bool \<Rightarrow> lpt_hardware \<Rightarrow> lpt_hardware" where
  "drive_dir_sio v hw = hw\<lparr>hw_dir_sio := v\<rparr>"

definition set_dir_funcsel :: "nat \<Rightarrow> lpt_hardware \<Rightarrow> lpt_hardware" where
  "set_dir_funcsel f hw = hw\<lparr>hw_dir_funcsel := f\<rparr>"

definition enable_dir_sio_output :: "lpt_hardware \<Rightarrow> lpt_hardware" where
  "enable_dir_sio_output hw = hw\<lparr>hw_dir_oe := True\<rparr>"

text \<open>\<^verbatim>\<open>make_pio_pin\<close> left GP29 with the PIO; the boot defaults take it back.\<close>

definition hardware_new :: "u32 \<Rightarrow> u32 list list \<Rightarrow> u32 list \<Rightarrow> lpt_hardware" where
  "hardware_new ring_base bursts rx =
     drive_dir_sio False (enable_dir_sio_output (set_dir_funcsel FUNCSEL_SIO
       \<lparr>hw_memory = [], hw_setup = (\<lambda>_. None), hw_pin_out = (\<lambda>_. False), hw_pin_level = (\<lambda>_. False),
        hw_parked_sm0 = Some 0, hw_parked_sm1 = Some 1, hw_parked_sm2 = Some 2,
        hw_parked_dma_ch4 = Some 4, hw_hd = False, hw_dir_funcsel = FUNCSEL_PIO0, hw_dir_oe = False,
        hw_dir_sio = False, hw_ring_armed = False, hw_ring_words = replicate LPT_RING_WORDS 0,
        hw_ring_base = ring_base, hw_bursts = bursts, hw_rx = rx\<rparr>))"

definition set_transceiver_mode :: "lpt_mode \<Rightarrow> lpt_hardware \<Rightarrow> lpt_hardware" where
  "set_transceiver_mode target hw =
     (let (dir_level, hd_level) =
            (case target of
               Spp \<Rightarrow> (False, False)
             | SppNibble \<Rightarrow> (False, False)
             | _ \<Rightarrow> (False, True))
      in (drive_dir_sio dir_level hw)\<lparr>hw_hd := hd_level\<rparr>)"

definition set_data_direction :: "bool \<Rightarrow> lpt_hardware \<Rightarrow> lpt_hardware" where
  "set_data_direction peripheral_drives hw = drive_dir_sio peripheral_drives hw"

lemmas hw_step_defs = free_instr_def set_pins_def set_pin_dirs_out_def sm_enable_def sm_disable_def
  drive_dir_sio_def set_dir_funcsel_def enable_dir_sio_output_def

subsection \<open>The forward capture: \<^verbatim>\<open>PioCompatIn\<close>\<close>

record pio_compat_in =
  ci_sm0 :: nat
  ci_program :: "pio_instr list"
  ci_ring :: ring
  ci_bursts :: "u32 list list"

definition compat_in_setup :: sm_setup where
  "compat_in_setup =
     \<lparr>su_config = compat_in_config, su_in = GP_STROBE # GP_DATA, su_out = [], su_side = [],
      su_clk_hz = Some 150000000\<rparr>"

definition compat_in_new :: "nat \<Rightarrow> lpt_hardware \<Rightarrow> (pio_compat_in \<times> lpt_hardware) option" where
  "compat_in_new sm0 hw =
     do { hw \<leftarrow> load_program compat_in_program hw;
          let hw = sm_enable sm0 compat_in_setup hw;
          ring \<leftarrow> ring_arm LPT_RING_WORDS (hw_ring_words hw) (hw_ring_base hw);
          Some (\<lparr>ci_sm0 = sm0, ci_program = compat_in_program, ci_ring = ring, ci_bursts = hw_bursts hw\<rparr>,
                hw\<lparr>hw_ring_armed := True\<rparr>) }"

definition compat_in_dismantle :: "pio_compat_in \<Rightarrow> lpt_hardware \<Rightarrow> nat \<times> lpt_hardware" where
  "compat_in_dismantle ci hw =
     (let hw = hw\<lparr>hw_ring_armed := False, hw_ring_words := rg_words (ci_ring ci), hw_bursts := ci_bursts ci\<rparr>;
          hw = sm_disable (ci_sm0 ci) hw;
          hw = free_instr (ci_program ci) hw
      in (ci_sm0 ci, hw))"

definition POLL_INTERVAL_US :: nat where [const_defs]: "POLL_INTERVAL_US = 200"

text \<open>
  \<^verbatim>\<open>recv_byte\<close>: before each poll of the ring the DMA has deposited the next burst; when the ring is
  empty the task sleeps for \<^verbatim>\<open>POLL_INTERVAL_US\<close> and polls again.  Without further bursts it sleeps for
  ever.
\<close>

definition word_byte :: "u32 \<Rightarrow> u8" where
  "word_byte w = ucast (drop_bit 1 w AND 0xFF)"

fun ring_recv :: "u32 list list \<Rightarrow> ring \<Rightarrow> (u8 \<times> ring \<times> u32 list list) option" where
  "ring_recv [] r =
     (case lpt_try_pop r of
        None \<Rightarrow> None
      | Some (w, r) \<Rightarrow> Some (word_byte w, r, []))"
| "ring_recv (b # bs) r =
     (case lpt_try_pop (fold (dma_store LPT_RING_WORDS) b r) of
        None \<Rightarrow> ring_recv bs (fold (dma_store LPT_RING_WORDS) b r)
      | Some (w, r) \<Rightarrow> Some (word_byte w, r, bs))"

definition compat_in_recv_byte :: "pio_compat_in \<Rightarrow> (u8 \<times> pio_compat_in) option" where
  "compat_in_recv_byte ci =
     (case ring_recv (ci_bursts ci) (ci_ring ci) of
        None \<Rightarrow> None
      | Some (b, r, bs) \<Rightarrow> Some (b, ci\<lparr>ci_ring := r, ci_bursts := bs\<rparr>))"

text \<open>Used on its own, this phy only receives.\<close>

definition compat_in_phy_recv :: "pio_compat_in \<Rightarrow> ((lpt_error + u8) \<times> pio_compat_in) option" where
  "compat_in_phy_recv ci = map_option (\<lambda>(b, ci). (Inr b, ci)) (compat_in_recv_byte ci)"

definition compat_in_phy_send :: "u8 \<Rightarrow> pio_compat_in \<Rightarrow> (lpt_error + unit) \<times> pio_compat_in" where
  "compat_in_phy_send b ci = (Inl ModeMismatch, ci)"

subsection \<open>The reverse drivers\<close>

text \<open>
  A reverse driver owns its state machine, its DMA channel and its program; \<open>tx_words\<close> is what it has
  handed to the transmit FIFO, oldest first.
\<close>

record pio_tx =
  tx_sm :: nat
  tx_dma :: nat
  tx_program :: "pio_instr list"
  tx_words :: "u32 list"

definition dma_push :: "u32 list \<Rightarrow> pio_tx \<Rightarrow> pio_tx" where
  "dma_push ws tx = tx\<lparr>tx_words := tx_words tx @ ws\<rparr>"

text \<open>The teardown all drivers share: wait for the FIFO to drain, disable, free, hand back.\<close>

definition tx_dismantle :: "pio_tx \<Rightarrow> lpt_hardware \<Rightarrow> (nat \<times> nat) \<times> lpt_hardware" where
  "tx_dismantle tx hw =
     ((tx_sm tx, tx_dma tx), free_instr (tx_program tx) (sm_disable (tx_sm tx) hw))"

definition MAX_BATCH :: nat where [const_defs]: "MAX_BATCH = 256"

paragraph \<open>\<^verbatim>\<open>PioNibbleOut\<close>\<close>

definition nibble_out_setup :: sm_setup where
  "nibble_out_setup =
     \<lparr>su_config = nibble_out_config, su_in = [], su_out = GP_STATUS, su_side = [],
      su_clk_hz = Some 100000\<rparr>"

definition nibble_out_new :: "nat \<Rightarrow> nat \<Rightarrow> lpt_hardware \<Rightarrow> (pio_tx \<times> lpt_hardware) option" where
  "nibble_out_new sm1 dma hw =
     do { let hw = set_pin_dirs_out GP_STATUS (set_pins False GP_STATUS hw);
          hw \<leftarrow> load_program nibble_out_program hw;
          Some (\<lparr>tx_sm = sm1, tx_dma = dma, tx_program = nibble_out_program, tx_words = []\<rparr>,
                sm_enable sm1 nibble_out_setup hw) }"

definition pack_nibble :: "u8 \<Rightarrow> bool \<Rightarrow> u8" where
  "pack_nibble nibble phase =
     (drop_bit 3 nibble AND 1)
     OR push_bit 1 (of_bool phase)
     OR push_bit 2 (drop_bit 2 nibble AND 1)
     OR push_bit 3 (drop_bit 1 nibble AND 1)
     OR push_bit 4 (nibble AND 1)"

definition pack_byte :: "u8 \<Rightarrow> u32" where
  "pack_byte b =
     (let lo = ucast (pack_nibble (b AND 0x0F) True);
          hi = ucast (pack_nibble (drop_bit 4 b AND 0x0F) False)
      in lo OR push_bit 5 hi)"

definition nibble_send_byte :: "u8 \<Rightarrow> pio_tx \<Rightarrow> pio_tx" where
  "nibble_send_byte b tx = dma_push [pack_byte b] tx"

definition nibble_send_bytes :: "u8 list \<Rightarrow> pio_tx \<Rightarrow> pio_tx option" where
  "nibble_send_bytes bs tx =
     (if length bs \<le> MAX_BATCH then Some (dma_push (map pack_byte bs) tx) else None)"

text \<open>The driver as a phy of its own: it refuses to receive.\<close>

definition nibble_phy_recv :: "pio_tx \<Rightarrow> ((lpt_error + u8) \<times> pio_tx) option" where
  "nibble_phy_recv tx = Some (Inl ModeMismatch, tx)"

definition nibble_phy_send :: "u8 \<Rightarrow> pio_tx \<Rightarrow> (lpt_error + unit) \<times> pio_tx" where
  "nibble_phy_send b tx = (Inr (), nibble_send_byte b tx)"

definition nibble_phy_send_bytes :: "u8 list \<Rightarrow> pio_tx \<Rightarrow> ((lpt_error + unit) \<times> pio_tx) option" where
  "nibble_phy_send_bytes bs tx = map_option (Pair (Inr ())) (nibble_send_bytes bs tx)"

text \<open>Its batch is what the trait's default loop over single bytes would send.\<close>

lemma nibble_batch_is_default:
  assumes "length bs \<le> MAX_BATCH"
  shows "nibble_phy_send_bytes bs tx = Some (send_bytes_default nibble_phy_send bs tx)"
proof -
  have "send_bytes_default nibble_phy_send bs tx = (Inr (), dma_push (map pack_byte bs) tx)" for bs tx
    by (induction bs arbitrary: tx) (simp_all add: nibble_phy_send_def nibble_send_byte_def dma_push_def)
  then show ?thesis using assms by (simp add: nibble_phy_send_bytes_def nibble_send_bytes_def)
qed

paragraph \<open>\<^verbatim>\<open>PioByteRev\<close>\<close>

definition byte_rev_setup :: sm_setup where
  "byte_rev_setup =
     \<lparr>su_config = byte_rev_config, su_in = [GP_AUTO_FD], su_out = GP_DATA, su_side = [GP_NACK],
      su_clk_hz = Some 50000000\<rparr>"

definition byte_rev_new :: "nat \<Rightarrow> nat \<Rightarrow> lpt_hardware \<Rightarrow> (pio_tx \<times> lpt_hardware) option" where
  "byte_rev_new sm1 dma hw =
     do { let hw = set_pins False GP_DATA (set_pins True [GP_NACK] hw);
          let hw = set_pin_dirs_out [GP_NACK] (set_pin_dirs_out GP_DATA hw);
          hw \<leftarrow> load_program byte_rev_program hw;
          Some (\<lparr>tx_sm = sm1, tx_dma = dma, tx_program = byte_rev_program, tx_words = []\<rparr>,
                sm_enable sm1 byte_rev_setup hw) }"

definition word_send_byte :: "u8 \<Rightarrow> pio_tx \<Rightarrow> pio_tx" where
  "word_send_byte b tx = dma_push [ucast b] tx"

definition word_send_bytes :: "u8 list \<Rightarrow> pio_tx \<Rightarrow> pio_tx option" where
  "word_send_bytes bs tx =
     (if length bs \<le> MAX_BATCH then Some (dma_push (map ucast bs) tx) else None)"

paragraph \<open>\<^verbatim>\<open>PioEcpRev\<close> and \<^verbatim>\<open>PioEcpFwd\<close>\<close>

definition ecp_rev_setup :: sm_setup where
  "ecp_rev_setup =
     \<lparr>su_config = ecp_rev_config, su_in = [], su_out = GP_DATA, su_side = [GP_NACK],
      su_clk_hz = Some 30000000\<rparr>"

definition ecp_rev_new :: "nat \<Rightarrow> nat \<Rightarrow> lpt_hardware \<Rightarrow> (pio_tx \<times> lpt_hardware) option" where
  "ecp_rev_new sm1 dma hw =
     do { let hw = set_pins False GP_DATA (set_pins True [GP_NACK] hw);
          let hw = set_pin_dirs_out [GP_NACK] (set_pin_dirs_out GP_DATA hw);
          hw \<leftarrow> load_program ecp_rev_program hw;
          Some (\<lparr>tx_sm = sm1, tx_dma = dma, tx_program = ecp_rev_program, tx_words = []\<rparr>,
                sm_enable sm1 ecp_rev_setup hw) }"

record pio_ecp_fwd =
  ef_sm0 :: nat
  ef_program :: "pio_instr list"
  ef_rx :: "u32 list"

definition ecp_fwd_setup :: sm_setup where
  "ecp_fwd_setup =
     \<lparr>su_config = ecp_fwd_config, su_in = GP_STROBE # GP_DATA, su_out = [], su_side = [GP_BUSY],
      su_clk_hz = Some 30000000\<rparr>"

definition ecp_fwd_new :: "nat \<Rightarrow> lpt_hardware \<Rightarrow> (pio_ecp_fwd \<times> lpt_hardware) option" where
  "ecp_fwd_new sm0 hw =
     do { let hw = set_pin_dirs_out [GP_BUSY] (set_pins True [GP_BUSY] hw);
          hw \<leftarrow> load_program ecp_fwd_program hw;
          Some (\<lparr>ef_sm0 = sm0, ef_program = ecp_fwd_program, ef_rx = hw_rx hw\<rparr>,
                sm_enable sm0 ecp_fwd_setup hw) }"

definition ecp_fwd_recv_byte :: "pio_ecp_fwd \<Rightarrow> (u8 \<times> pio_ecp_fwd) option" where
  "ecp_fwd_recv_byte ef =
     (case ef_rx ef of [] \<Rightarrow> None | w # ws \<Rightarrow> Some (word_byte w, ef\<lparr>ef_rx := ws\<rparr>))"

definition ecp_fwd_dismantle :: "pio_ecp_fwd \<Rightarrow> lpt_hardware \<Rightarrow> nat \<times> lpt_hardware" where
  "ecp_fwd_dismantle ef hw =
     (ef_sm0 ef, free_instr (ef_program ef) (sm_disable (ef_sm0 ef) (hw\<lparr>hw_rx := ef_rx ef\<rparr>)))"

paragraph \<open>\<^verbatim>\<open>PioEpp\<close> and \<^verbatim>\<open>PioDirFollower\<close>\<close>

record pio_epp =
  ep_tx :: pio_tx
  ep_rx :: "u32 list"

definition epp_setup :: sm_setup where
  "epp_setup =
     \<lparr>su_config = epp_config, su_in = GP_DATA, su_out = GP_DATA, su_side = [GP_BUSY],
      su_clk_hz = Some 30000000\<rparr>"

definition pio_epp_new :: "nat \<Rightarrow> nat \<Rightarrow> lpt_hardware \<Rightarrow> (pio_epp \<times> lpt_hardware) option" where
  "pio_epp_new sm0 dma hw =
     do { hw \<leftarrow> load_program epp_program hw;
          Some (\<lparr>ep_tx = \<lparr>tx_sm = sm0, tx_dma = dma, tx_program = epp_program, tx_words = []\<rparr>,
                 ep_rx = hw_rx hw\<rparr>,
                sm_enable sm0 epp_setup hw) }"

definition encode_forward_cmd :: u32 where
  "encode_forward_cmd = 0"

definition encode_reverse_cmd :: "u8 \<Rightarrow> u32" where
  "encode_reverse_cmd b = 1 OR push_bit 24 (ucast b)"

definition send_forward_cmd :: "pio_epp \<Rightarrow> pio_epp" where
  "send_forward_cmd ep = ep\<lparr>ep_tx := dma_push [encode_forward_cmd] (ep_tx ep)\<rparr>"

definition send_reverse_byte :: "u8 \<Rightarrow> pio_epp \<Rightarrow> pio_epp" where
  "send_reverse_byte b ep = ep\<lparr>ep_tx := dma_push [encode_reverse_cmd b] (ep_tx ep)\<rparr>"

definition pio_epp_recv_byte :: "pio_epp \<Rightarrow> (u8 \<times> pio_epp) option" where
  "pio_epp_recv_byte ep =
     (case ep_rx ep of [] \<Rightarrow> None | w # ws \<Rightarrow> Some (ucast (w AND 0xFF), ep\<lparr>ep_rx := ws\<rparr>))"

definition pio_epp_dismantle :: "pio_epp \<Rightarrow> lpt_hardware \<Rightarrow> (nat \<times> nat) \<times> lpt_hardware" where
  "pio_epp_dismantle ep hw = tx_dismantle (ep_tx ep) (hw\<lparr>hw_rx := ep_rx ep\<rparr>)"

record pio_dir_follower =
  df_sm2 :: nat
  df_program :: "pio_instr list"

definition dir_follower_setup :: sm_setup where
  "dir_follower_setup =
     \<lparr>su_config = dir_follower_config, su_in = [GP_STROBE], su_out = [GP_DIR], su_side = [],
      su_clk_hz = None\<rparr>"

definition dir_follower_new :: "nat \<Rightarrow> lpt_hardware \<Rightarrow> (pio_dir_follower \<times> lpt_hardware) option" where
  "dir_follower_new sm2 hw =
     do { hw \<leftarrow> load_program dir_follower_program hw;
          let hw = set_dir_funcsel FUNCSEL_PIO0 (set_pin_dirs_out [GP_DIR] hw);
          Some (\<lparr>df_sm2 = sm2, df_program = dir_follower_program\<rparr>, sm_enable sm2 dir_follower_setup hw) }"

definition dir_follower_dismantle :: "pio_dir_follower \<Rightarrow> lpt_hardware \<Rightarrow> nat \<times> lpt_hardware" where
  "dir_follower_dismantle df hw =
     (df_sm2 df, set_dir_funcsel FUNCSEL_SIO (free_instr (df_program df) (sm_disable (df_sm2 df) hw)))"

subsection \<open>The phys\<close>

record duplex_phy =
  dp_compat_in :: pio_compat_in
  dp_tx :: pio_tx

text \<open>\<^verbatim>\<open>SppNibblePhy\<close> and \<^verbatim>\<open>BytePhy\<close> differ in the reverse driver they build.\<close>

definition duplex_build ::
  "(nat \<Rightarrow> nat \<Rightarrow> lpt_hardware \<Rightarrow> (pio_tx \<times> lpt_hardware) option) \<Rightarrow>
   lpt_hardware \<Rightarrow> (duplex_phy \<times> lpt_hardware) option" where
  "duplex_build tx_new hw =
     do { sm0 \<leftarrow> hw_parked_sm0 hw;
          let hw = hw\<lparr>hw_parked_sm0 := None\<rparr>;
          sm1 \<leftarrow> hw_parked_sm1 hw;
          let hw = hw\<lparr>hw_parked_sm1 := None\<rparr>;
          dma \<leftarrow> hw_parked_dma_ch4 hw;
          let hw = hw\<lparr>hw_parked_dma_ch4 := None\<rparr>;
          (ci, hw) \<leftarrow> compat_in_new sm0 hw;
          (tx, hw) \<leftarrow> tx_new sm1 dma hw;
          Some (\<lparr>dp_compat_in = ci, dp_tx = tx\<rparr>, hw) }"

definition spp_build :: "lpt_hardware \<Rightarrow> (duplex_phy \<times> lpt_hardware) option" where
  "spp_build = duplex_build nibble_out_new"

definition byte_build :: "lpt_hardware \<Rightarrow> (duplex_phy \<times> lpt_hardware) option" where
  "byte_build = duplex_build byte_rev_new"

definition duplex_dismantle :: "duplex_phy \<Rightarrow> lpt_hardware \<Rightarrow> lpt_hardware" where
  "duplex_dismantle dp hw =
     (let ((sm1, dma), hw) = tx_dismantle (dp_tx dp) hw;
          (sm0, hw) = compat_in_dismantle (dp_compat_in dp) hw
      in hw\<lparr>hw_parked_sm0 := Some sm0, hw_parked_sm1 := Some sm1, hw_parked_dma_ch4 := Some dma\<rparr>)"

definition duplex_recv :: "duplex_phy \<Rightarrow> ((lpt_error + u8) \<times> duplex_phy) option" where
  "duplex_recv dp =
     map_option (\<lambda>(b, ci). (Inr b, dp\<lparr>dp_compat_in := ci\<rparr>)) (compat_in_recv_byte (dp_compat_in dp))"

definition spp_send_byte :: "u8 \<Rightarrow> duplex_phy \<Rightarrow> (lpt_error + unit) \<times> duplex_phy" where
  "spp_send_byte b dp = (Inr (), dp\<lparr>dp_tx := nibble_send_byte b (dp_tx dp)\<rparr>)"

definition spp_send_bytes :: "u8 list \<Rightarrow> duplex_phy \<Rightarrow> ((lpt_error + unit) \<times> duplex_phy) option" where
  "spp_send_bytes bs dp = map_option (\<lambda>tx. (Inr (), dp\<lparr>dp_tx := tx\<rparr>)) (nibble_send_bytes bs (dp_tx dp))"

definition byte_send_byte :: "u8 \<Rightarrow> duplex_phy \<Rightarrow> (lpt_error + unit) \<times> duplex_phy" where
  "byte_send_byte b dp = (Inr (), dp\<lparr>dp_tx := word_send_byte b (dp_tx dp)\<rparr>)"

definition byte_send_bytes :: "u8 list \<Rightarrow> duplex_phy \<Rightarrow> ((lpt_error + unit) \<times> duplex_phy) option" where
  "byte_send_bytes bs dp = map_option (\<lambda>tx. (Inr (), dp\<lparr>dp_tx := tx\<rparr>)) (word_send_bytes bs (dp_tx dp))"

text \<open>\<^verbatim>\<open>EcpPhy\<close>.\<close>

record ecp_phy =
  ec_fwd :: pio_ecp_fwd
  ec_rev :: pio_tx

definition ecp_build :: "lpt_hardware \<Rightarrow> (ecp_phy \<times> lpt_hardware) option" where
  "ecp_build hw =
     do { sm0 \<leftarrow> hw_parked_sm0 hw;
          let hw = hw\<lparr>hw_parked_sm0 := None\<rparr>;
          sm1 \<leftarrow> hw_parked_sm1 hw;
          let hw = hw\<lparr>hw_parked_sm1 := None\<rparr>;
          dma \<leftarrow> hw_parked_dma_ch4 hw;
          let hw = hw\<lparr>hw_parked_dma_ch4 := None\<rparr>;
          (fwd, hw) \<leftarrow> ecp_fwd_new sm0 hw;
          (rev, hw) \<leftarrow> ecp_rev_new sm1 dma hw;
          Some (\<lparr>ec_fwd = fwd, ec_rev = rev\<rparr>, hw) }"

definition ecp_dismantle :: "ecp_phy \<Rightarrow> lpt_hardware \<Rightarrow> lpt_hardware" where
  "ecp_dismantle ec hw =
     (let ((sm1, dma), hw) = tx_dismantle (ec_rev ec) hw;
          (sm0, hw) = ecp_fwd_dismantle (ec_fwd ec) hw
      in hw\<lparr>hw_parked_sm0 := Some sm0, hw_parked_sm1 := Some sm1, hw_parked_dma_ch4 := Some dma\<rparr>)"

definition ecp_recv :: "ecp_phy \<Rightarrow> ((lpt_error + u8) \<times> ecp_phy) option" where
  "ecp_recv ec = map_option (\<lambda>(b, ef). (Inr b, ec\<lparr>ec_fwd := ef\<rparr>)) (ecp_fwd_recv_byte (ec_fwd ec))"

definition ecp_send_byte :: "u8 \<Rightarrow> ecp_phy \<Rightarrow> (lpt_error + unit) \<times> ecp_phy" where
  "ecp_send_byte b ec = (Inr (), ec\<lparr>ec_rev := word_send_byte b (ec_rev ec)\<rparr>)"

definition ecp_send_bytes :: "u8 list \<Rightarrow> ecp_phy \<Rightarrow> ((lpt_error + unit) \<times> ecp_phy) option" where
  "ecp_send_bytes bs ec = map_option (\<lambda>tx. (Inr (), ec\<lparr>ec_rev := tx\<rparr>)) (word_send_bytes bs (ec_rev ec))"

text \<open>\<^verbatim>\<open>EppPhy\<close>: SM1 is held but idle.\<close>

record epp_phy =
  ey_epp :: pio_epp
  ey_dir_follower :: "pio_dir_follower option"
  ey_parked_sm1 :: "nat option"

definition epp_build :: "lpt_hardware \<Rightarrow> (epp_phy \<times> lpt_hardware) option" where
  "epp_build hw =
     do { sm0 \<leftarrow> hw_parked_sm0 hw;
          let hw = hw\<lparr>hw_parked_sm0 := None\<rparr>;
          sm1 \<leftarrow> hw_parked_sm1 hw;
          let hw = hw\<lparr>hw_parked_sm1 := None\<rparr>;
          sm2 \<leftarrow> hw_parked_sm2 hw;
          let hw = hw\<lparr>hw_parked_sm2 := None\<rparr>;
          dma \<leftarrow> hw_parked_dma_ch4 hw;
          let hw = hw\<lparr>hw_parked_dma_ch4 := None\<rparr>;
          (epp, hw) \<leftarrow> pio_epp_new sm0 dma hw;
          (df, hw) \<leftarrow> dir_follower_new sm2 hw;
          Some (\<lparr>ey_epp = epp, ey_dir_follower = Some df, ey_parked_sm1 = Some sm1\<rparr>, hw) }"

definition epp_dismantle :: "epp_phy \<Rightarrow> lpt_hardware \<Rightarrow> lpt_hardware option" where
  "epp_dismantle ey hw =
     do { df \<leftarrow> ey_dir_follower ey;
          let (sm2, hw) = dir_follower_dismantle df hw;
          let ((sm0, dma), hw) = pio_epp_dismantle (ey_epp ey) hw;
          Some (hw\<lparr>hw_parked_sm0 := Some sm0, hw_parked_sm1 := ey_parked_sm1 ey,
                   hw_parked_sm2 := Some sm2, hw_parked_dma_ch4 := Some dma\<rparr>) }"

definition epp_recv :: "epp_phy \<Rightarrow> ((lpt_error + u8) \<times> epp_phy) option" where
  "epp_recv ey =
     map_option (\<lambda>(b, ep). (Inr b, ey\<lparr>ey_epp := ep\<rparr>)) (pio_epp_recv_byte (send_forward_cmd (ey_epp ey)))"

definition epp_send_byte :: "u8 \<Rightarrow> epp_phy \<Rightarrow> (lpt_error + unit) \<times> epp_phy" where
  "epp_send_byte b ey = (Inr (), ey\<lparr>ey_epp := send_reverse_byte b (ey_epp ey)\<rparr>)"

definition epp_send_bytes :: "u8 list \<Rightarrow> epp_phy \<Rightarrow> ((lpt_error + unit) \<times> epp_phy) option" where
  "epp_send_bytes bs ey = Some (Inr (), ey\<lparr>ey_epp := fold send_reverse_byte bs (ey_epp ey)\<rparr>)"

subsection \<open>The multiplexer\<close>

datatype active_phy =
    ActSppNibble duplex_phy
  | ActByte duplex_phy
  | ActEpp epp_phy
  | ActEcp ecp_phy

record lpt_mux =
  mx_hw :: lpt_hardware
  mx_active :: "active_phy option"

definition mux_new :: "lpt_hardware \<Rightarrow> lpt_mux option" where
  "mux_new hw =
     do { (phy, hw) \<leftarrow> spp_build hw;
          Some \<lparr>mx_hw = hw, mx_active = Some (ActSppNibble phy)\<rparr> }"

definition phy_mode :: "active_phy \<Rightarrow> lpt_mode" where
  "phy_mode a =
     (case a of ActSppNibble _ \<Rightarrow> SppNibble | ActByte _ \<Rightarrow> Byte | ActEpp _ \<Rightarrow> Epp | ActEcp _ \<Rightarrow> Ecp)"

definition mux_current_mode :: "lpt_mux \<Rightarrow> lpt_mode option" where
  "mux_current_mode mx = map_option phy_mode (mx_active mx)"

definition phy_dismantle :: "active_phy \<Rightarrow> lpt_hardware \<Rightarrow> lpt_hardware option" where
  "phy_dismantle a hw =
     (case a of
        ActSppNibble p \<Rightarrow> Some (duplex_dismantle p hw)
      | ActByte p \<Rightarrow> Some (duplex_dismantle p hw)
      | ActEpp p \<Rightarrow> epp_dismantle p hw
      | ActEcp p \<Rightarrow> Some (ecp_dismantle p hw))"

definition switch_to :: "lpt_mode \<Rightarrow> lpt_mux \<Rightarrow> ((lpt_error + unit) \<times> lpt_mux) option" where
  "switch_to target mx =
     do { old \<leftarrow> mx_active mx;
          hw \<leftarrow> phy_dismantle old (mx_hw mx);
          let phy_target = (case target of Spp \<Rightarrow> SppNibble | EcpDma \<Rightarrow> SppNibble | other \<Rightarrow> other);
          let hw = set_transceiver_mode phy_target hw;
          (case target of
             SppNibble \<Rightarrow>
               do { (p, hw) \<leftarrow> spp_build hw;
                    Some (Inr (), \<lparr>mx_hw = hw, mx_active = Some (ActSppNibble p)\<rparr>) }
           | Byte \<Rightarrow>
               do { (p, hw) \<leftarrow> byte_build hw;
                    Some (Inr (), \<lparr>mx_hw = hw, mx_active = Some (ActByte p)\<rparr>) }
           | Epp \<Rightarrow>
               do { (p, hw) \<leftarrow> epp_build hw;
                    Some (Inr (), \<lparr>mx_hw = hw, mx_active = Some (ActEpp p)\<rparr>) }
           | Ecp \<Rightarrow>
               do { (p, hw) \<leftarrow> ecp_build hw;
                    Some (Inr (), \<lparr>mx_hw = hw, mx_active = Some (ActEcp p)\<rparr>) }
           | _ \<Rightarrow>
               do { (p, hw) \<leftarrow> spp_build hw;
                    Some (Inl ModeMismatch, \<lparr>mx_hw = hw, mx_active = Some (ActSppNibble p)\<rparr>) }) }"

definition lift_phy :: "('p \<Rightarrow> active_phy) \<Rightarrow> lpt_mux \<Rightarrow> ('r \<times> 'p) option \<Rightarrow> ('r \<times> lpt_mux) option" where
  "lift_phy c mx x = map_option (\<lambda>(r, p). (r, mx\<lparr>mx_active := Some (c p)\<rparr>)) x"

text \<open>A pending receive and an empty phy slot (a panic that never happens, see \<open>mux_ok\<close>) are both \<open>None\<close>.\<close>

definition mux_recv :: "lpt_mux \<Rightarrow> ((lpt_error + u8) \<times> lpt_mux) option" where
  "mux_recv mx =
     (case mx_active mx of
        None \<Rightarrow> None
      | Some (ActSppNibble p) \<Rightarrow> lift_phy ActSppNibble mx (duplex_recv p)
      | Some (ActByte p) \<Rightarrow> lift_phy ActByte mx (duplex_recv p)
      | Some (ActEpp p) \<Rightarrow> lift_phy ActEpp mx (epp_recv p)
      | Some (ActEcp p) \<Rightarrow> lift_phy ActEcp mx (ecp_recv p))"

definition mux_send_byte :: "u8 \<Rightarrow> lpt_mux \<Rightarrow> ((lpt_error + unit) \<times> lpt_mux) option" where
  "mux_send_byte b mx =
     (case mx_active mx of
        None \<Rightarrow> None
      | Some (ActSppNibble p) \<Rightarrow> lift_phy ActSppNibble mx (Some (spp_send_byte b p))
      | Some (ActByte p) \<Rightarrow> lift_phy ActByte mx (Some (byte_send_byte b p))
      | Some (ActEpp p) \<Rightarrow> lift_phy ActEpp mx (Some (epp_send_byte b p))
      | Some (ActEcp p) \<Rightarrow> lift_phy ActEcp mx (Some (ecp_send_byte b p)))"

definition mux_send_bytes :: "u8 list \<Rightarrow> lpt_mux \<Rightarrow> ((lpt_error + unit) \<times> lpt_mux) option" where
  "mux_send_bytes bs mx =
     (case mx_active mx of
        None \<Rightarrow> None
      | Some (ActSppNibble p) \<Rightarrow> lift_phy ActSppNibble mx (spp_send_bytes bs p)
      | Some (ActByte p) \<Rightarrow> lift_phy ActByte mx (byte_send_bytes bs p)
      | Some (ActEpp p) \<Rightarrow> lift_phy ActEpp mx (epp_send_bytes bs p)
      | Some (ActEcp p) \<Rightarrow> lift_phy ActEcp mx (ecp_send_bytes bs p))"

subsection \<open>Mode changes\<close>

text \<open>What a mode has loaded and running, and how it sets the transceiver.\<close>

definition mode_programs :: "lpt_mode \<Rightarrow> pio_instr list list" where
  "mode_programs m =
     (case m of
        Byte \<Rightarrow> [byte_rev_program, compat_in_program]
      | Epp \<Rightarrow> [dir_follower_program, epp_program]
      | Ecp \<Rightarrow> [ecp_rev_program, ecp_fwd_program]
      | _ \<Rightarrow> [nibble_out_program, compat_in_program])"

definition mode_setup :: "lpt_mode \<Rightarrow> nat \<Rightarrow> sm_setup option" where
  "mode_setup m =
     (case m of
        Byte \<Rightarrow> [0 \<mapsto> compat_in_setup, 1 \<mapsto> byte_rev_setup]
      | Epp \<Rightarrow> [0 \<mapsto> epp_setup, 2 \<mapsto> dir_follower_setup]
      | Ecp \<Rightarrow> [0 \<mapsto> ecp_fwd_setup, 1 \<mapsto> ecp_rev_setup]
      | _ \<Rightarrow> [0 \<mapsto> compat_in_setup, 1 \<mapsto> nibble_out_setup])"

definition landing :: "lpt_mode \<Rightarrow> lpt_mode" where
  "landing m = (case m of Spp \<Rightarrow> SppNibble | EcpDma \<Rightarrow> SppNibble | m \<Rightarrow> m)"

definition hw_aligned :: "lpt_hardware \<Rightarrow> bool" where
  "hw_aligned hw \<longleftrightarrow> hw_ring_base hw AND 1023 = 0 \<and> length (hw_ring_words hw) = LPT_RING_WORDS \<and> hw_dir_oe hw"

definition hw_idle :: "lpt_hardware \<Rightarrow> bool" where
  "hw_idle hw \<longleftrightarrow> hw_aligned hw \<and> hw_memory hw = [] \<and> hw_setup hw = Map.empty \<and>
     hw_parked_sm0 hw = Some 0 \<and> hw_parked_sm1 hw = Some 1 \<and> hw_parked_sm2 hw = Some 2 \<and>
     hw_parked_dma_ch4 hw = Some 4 \<and> hw_dir_funcsel hw = FUNCSEL_SIO \<and> \<not> hw_ring_armed hw"

definition hw_running :: "lpt_mode \<Rightarrow> lpt_hardware \<Rightarrow> bool" where
  "hw_running m hw \<longleftrightarrow> hw_aligned hw \<and> hw_memory hw = mode_programs m \<and> hw_setup hw = mode_setup m \<and>
     hw_parked_sm0 hw = None \<and> hw_parked_sm1 hw = None \<and>
     hw_parked_sm2 hw = (if m = Epp then None else Some 2) \<and> hw_parked_dma_ch4 hw = None \<and>
     hw_dir_funcsel hw = (if m = Epp then FUNCSEL_PIO0 else FUNCSEL_SIO) \<and>
     hw_hd hw = (m \<notin> {Spp, SppNibble}) \<and> \<not> hw_dir_sio hw \<and>
     hw_ring_armed hw = (m \<in> {SppNibble, Byte})"

definition compat_in_ok :: "pio_compat_in \<Rightarrow> bool" where
  "compat_in_ok ci \<longleftrightarrow> ci_sm0 ci = 0 \<and> ci_program ci = compat_in_program \<and> ring_ok LPT_RING_WORDS (ci_ring ci)"

definition tx_ok :: "nat \<Rightarrow> pio_instr list \<Rightarrow> pio_tx \<Rightarrow> bool" where
  "tx_ok sm prg tx \<longleftrightarrow> tx_sm tx = sm \<and> tx_dma tx = 4 \<and> tx_program tx = prg"

definition phy_ok :: "active_phy \<Rightarrow> bool" where
  "phy_ok a =
     (case a of
        ActSppNibble p \<Rightarrow> compat_in_ok (dp_compat_in p) \<and> tx_ok 1 nibble_out_program (dp_tx p)
      | ActByte p \<Rightarrow> compat_in_ok (dp_compat_in p) \<and> tx_ok 1 byte_rev_program (dp_tx p)
      | ActEpp p \<Rightarrow> tx_ok 0 epp_program (ep_tx (ey_epp p)) \<and>
          ey_dir_follower p = Some \<lparr>df_sm2 = 2, df_program = dir_follower_program\<rparr> \<and> ey_parked_sm1 p = Some 1
      | ActEcp p \<Rightarrow> ef_sm0 (ec_fwd p) = 0 \<and> ef_program (ec_fwd p) = ecp_fwd_program \<and>
          tx_ok 1 ecp_rev_program (ec_rev p))"

definition mux_ok :: "lpt_mux \<Rightarrow> bool" where
  "mux_ok mx \<longleftrightarrow> (\<exists>a. mx_active mx = Some a \<and> phy_ok a \<and> hw_running (phy_mode a) (mx_hw mx))"

text \<open>Taking a phy down gives every resource back and leaves the pin directions as they are.\<close>

lemmas dismantle_defs = duplex_dismantle_def compat_in_dismantle_def tx_dismantle_def epp_dismantle_def
  dir_follower_dismantle_def pio_epp_dismantle_def ecp_dismantle_def ecp_fwd_dismantle_def

lemma dismantle_idle:
  assumes "phy_ok a" "hw_running (phy_mode a) hw"
  shows "\<exists>hw'. phy_dismantle a hw = Some hw' \<and> hw_idle hw' \<and> hw_pin_out hw' = hw_pin_out hw"
proof (cases a)
  case (ActSppNibble p)
  then show ?thesis using assms
    by (simp add: phy_dismantle_def dismantle_defs phy_ok_def compat_in_ok_def tx_ok_def hw_running_def
        hw_idle_def hw_aligned_def phy_mode_def mode_programs_def mode_setup_def hw_step_defs Let_def
        ring_ok_def fun_eq_iff)
next
  case (ActByte p)
  then show ?thesis using assms
    by (simp add: phy_dismantle_def dismantle_defs phy_ok_def compat_in_ok_def tx_ok_def hw_running_def
        hw_idle_def hw_aligned_def phy_mode_def mode_programs_def mode_setup_def hw_step_defs Let_def
        ring_ok_def fun_eq_iff)
next
  case (ActEpp p)
  then show ?thesis using assms
    by (simp add: phy_dismantle_def dismantle_defs phy_ok_def tx_ok_def hw_running_def
        hw_idle_def hw_aligned_def phy_mode_def mode_programs_def mode_setup_def hw_step_defs Let_def
        fun_eq_iff)
next
  case (ActEcp p)
  then show ?thesis using assms
    by (simp add: phy_dismantle_def dismantle_defs phy_ok_def tx_ok_def hw_running_def
        hw_idle_def hw_aligned_def phy_mode_def mode_programs_def mode_setup_def hw_step_defs Let_def
        fun_eq_iff)
qed

text \<open>Building a phy on idle hardware never panics; it drives the pins its mode drives.\<close>

definition set_for :: "lpt_mode \<Rightarrow> lpt_hardware \<Rightarrow> bool" where
  "set_for m hw \<longleftrightarrow> hw_hd hw = (m \<notin> {Spp, SppNibble}) \<and> \<not> hw_dir_sio hw"

lemma arm_idle:
  assumes "hw_aligned hw"
  obtains r where "ring_arm LPT_RING_WORDS (hw_ring_words hw) (hw_ring_base hw) = Some r"
    "ring_ok LPT_RING_WORDS r" "ring_queue LPT_RING_WORDS r = []"
proof -
  have "ring_arm LPT_RING_WORDS (hw_ring_words hw) (hw_ring_base hw) \<noteq> None"
    using assms by (simp add: ring_arm_def hw_aligned_def const_defs)
  then obtain r where r: "ring_arm LPT_RING_WORDS (hw_ring_words hw) (hw_ring_base hw) = Some r" by blast
  with armed_ok [OF r] that assms show thesis by (simp add: hw_aligned_def)
qed

lemma program_lengths [simp]:
  "length compat_in_program = 3" "length nibble_out_program = 5" "length byte_rev_program = 5"
  "length epp_program = 14" "length dir_follower_program = 1" "length ecp_fwd_program = 5"
  "length ecp_rev_program = 5"
  by (simp_all add: program_defs)

lemmas build_defs = duplex_build_def compat_in_new_def nibble_out_new_def byte_rev_new_def
  ecp_build_def ecp_fwd_new_def ecp_rev_new_def epp_build_def pio_epp_new_def dir_follower_new_def
  load_program_def

lemmas running_defs = hw_running_def hw_aligned_def phy_mode_def mode_programs_def mode_setup_def
  phy_ok_def compat_in_ok_def tx_ok_def

lemma spp_build_running:
  assumes "hw_idle hw" "set_for SppNibble hw"
  shows "\<exists>p hw'. spp_build hw = Some (p, hw') \<and> phy_ok (ActSppNibble p) \<and> hw_running SppNibble hw' \<and>
    (\<forall>g \<in> set GP_DATA. hw_pin_out hw' g = hw_pin_out hw g)"
proof -
  obtain r where r: "ring_arm LPT_RING_WORDS (hw_ring_words hw) (hw_ring_base hw) = Some r"
    "ring_ok LPT_RING_WORDS r" using arm_idle assms(1) by (metis hw_idle_def)
  then show ?thesis using assms
    by (simp add: spp_build_def build_defs running_defs hw_idle_def set_for_def hw_step_defs Let_def)
      (simp add: const_defs)
qed

lemma byte_build_running:
  assumes "hw_idle hw" "set_for Byte hw"
  shows "\<exists>p hw'. byte_build hw = Some (p, hw') \<and> phy_ok (ActByte p) \<and> hw_running Byte hw' \<and>
    (\<forall>g \<in> set GP_DATA. hw_pin_out hw' g)"
proof -
  obtain r where r: "ring_arm LPT_RING_WORDS (hw_ring_words hw) (hw_ring_base hw) = Some r"
    "ring_ok LPT_RING_WORDS r" using arm_idle assms(1) by (metis hw_idle_def)
  then show ?thesis using assms
    by (simp add: byte_build_def build_defs running_defs hw_idle_def set_for_def hw_step_defs Let_def)
qed

lemma ecp_build_running:
  assumes "hw_idle hw" "set_for Ecp hw"
  shows "\<exists>p hw'. ecp_build hw = Some (p, hw') \<and> phy_ok (ActEcp p) \<and> hw_running Ecp hw' \<and>
    (\<forall>g \<in> set GP_DATA. hw_pin_out hw' g)"
  using assms
  by (simp add: build_defs running_defs hw_idle_def set_for_def hw_step_defs Let_def)

lemma epp_build_running:
  assumes "hw_idle hw" "set_for Epp hw"
  shows "\<exists>p hw'. epp_build hw = Some (p, hw') \<and> phy_ok (ActEpp p) \<and> hw_running Epp hw' \<and>
    (\<forall>g \<in> set GP_DATA. hw_pin_out hw' g = hw_pin_out hw g)"
  using assms
  by (simp add: build_defs running_defs hw_idle_def set_for_def hw_step_defs Let_def fun_eq_iff)
    (simp add: const_defs)

lemma set_transceiver_idle:
  assumes "hw_idle hw"
  shows "hw_idle (set_transceiver_mode m hw) \<and> set_for m (set_transceiver_mode m hw) \<and>
    hw_pin_out (set_transceiver_mode m hw) = hw_pin_out hw"
  using assms by (cases m) (simp_all add: set_transceiver_mode_def hw_idle_def hw_aligned_def set_for_def
      drive_dir_sio_def)

text \<open>Modes whose reverse path drives the data lines.\<close>

definition drives_data :: "lpt_mode \<Rightarrow> bool" where
  "drives_data m \<longleftrightarrow> m = Byte \<or> m = Ecp"

definition switch_result :: "lpt_mode \<Rightarrow> lpt_error + unit" where
  "switch_result m = (if m = Spp \<or> m = EcpDma then Inl ModeMismatch else Inr ())"

lemma switch_to_ok:
  assumes "mux_ok mx"
  shows "\<exists>mx'. switch_to m mx = Some (switch_result m, mx') \<and> mux_ok mx' \<and>
    mux_current_mode mx' = Some (landing m) \<and>
    (\<forall>g \<in> set GP_DATA. hw_pin_out (mx_hw mx') g = (drives_data m \<or> hw_pin_out (mx_hw mx) g))"
proof -
  obtain a where a: "mx_active mx = Some a" "phy_ok a" "hw_running (phy_mode a) (mx_hw mx)"
    using assms by (auto simp: mux_ok_def)
  obtain hw1 where hw1: "phy_dismantle a (mx_hw mx) = Some hw1" "hw_idle hw1"
    "hw_pin_out hw1 = hw_pin_out (mx_hw mx)"
    using dismantle_idle [OF a(2,3)] by blast
  define hw2 where "hw2 = set_transceiver_mode (landing m) hw1"
  have hw2: "hw_idle hw2" "set_for (landing m) hw2" "hw_pin_out hw2 = hw_pin_out (mx_hw mx)"
    using set_transceiver_idle [OF hw1(2), of "landing m"] hw1(3) by (simp_all add: hw2_def)
  have phy_target: "(case m of Spp \<Rightarrow> SppNibble | EcpDma \<Rightarrow> SppNibble | other \<Rightarrow> other) = landing m"
    by (simp add: landing_def)
  have sw: "switch_to m mx =
      (case m of
         SppNibble \<Rightarrow> do { (p, hw) \<leftarrow> spp_build hw2; Some (Inr (), \<lparr>mx_hw = hw, mx_active = Some (ActSppNibble p)\<rparr>) }
       | Byte \<Rightarrow> do { (p, hw) \<leftarrow> byte_build hw2; Some (Inr (), \<lparr>mx_hw = hw, mx_active = Some (ActByte p)\<rparr>) }
       | Epp \<Rightarrow> do { (p, hw) \<leftarrow> epp_build hw2; Some (Inr (), \<lparr>mx_hw = hw, mx_active = Some (ActEpp p)\<rparr>) }
       | Ecp \<Rightarrow> do { (p, hw) \<leftarrow> ecp_build hw2; Some (Inr (), \<lparr>mx_hw = hw, mx_active = Some (ActEcp p)\<rparr>) }
       | _ \<Rightarrow> do { (p, hw) \<leftarrow> spp_build hw2; Some (Inl ModeMismatch, \<lparr>mx_hw = hw, mx_active = Some (ActSppNibble p)\<rparr>) })"
    unfolding switch_to_def a(1) by (simp add: hw1(1) phy_target flip: hw2_def)
  have finish: ?thesis
    if "switch_to m mx = Some (switch_result m, \<lparr>mx_hw = hw, mx_active = Some a\<rparr>)" "phy_ok a"
      "hw_running (landing m) hw" "phy_mode a = landing m"
      "\<forall>g \<in> set GP_DATA. hw_pin_out hw g = (drives_data m \<or> hw_pin_out (mx_hw mx) g)" for hw a
    using that by (simp add: mux_ok_def mux_current_mode_def)
  consider "m = Byte" | "m = Epp" | "m = Ecp" | "landing m = SppNibble" "m \<in> {Spp, SppNibble, EcpDma}"
    by (cases m) (auto simp: landing_def)
  then show ?thesis
  proof cases
    case 1
    obtain p hw where b: "byte_build hw2 = Some (p, hw)" "phy_ok (ActByte p)" "hw_running Byte hw"
      "\<forall>g \<in> set GP_DATA. hw_pin_out hw g"
      using byte_build_running [of hw2] hw2 1 by (auto simp: landing_def)
    have e: "switch_to m mx = Some (switch_result m, \<lparr>mx_hw = hw, mx_active = Some (ActByte p)\<rparr>)"
      unfolding sw using b(1) 1 by (auto simp: switch_result_def landing_def)
    show ?thesis by (rule finish [OF e b(2)])
      (use b 1 hw2(3) in \<open>auto simp: phy_mode_def landing_def drives_data_def\<close>)
  next
    case 2
    obtain p hw where b: "epp_build hw2 = Some (p, hw)" "phy_ok (ActEpp p)" "hw_running Epp hw"
      "\<forall>g \<in> set GP_DATA. hw_pin_out hw g = hw_pin_out hw2 g"
      using epp_build_running [of hw2] hw2 2 by (auto simp: landing_def)
    have e: "switch_to m mx = Some (switch_result m, \<lparr>mx_hw = hw, mx_active = Some (ActEpp p)\<rparr>)"
      unfolding sw using b(1) 2 by (auto simp: switch_result_def landing_def)
    show ?thesis by (rule finish [OF e b(2)])
      (use b 2 hw2(3) in \<open>auto simp: phy_mode_def landing_def drives_data_def\<close>)
  next
    case 3
    obtain p hw where b: "ecp_build hw2 = Some (p, hw)" "phy_ok (ActEcp p)" "hw_running Ecp hw"
      "\<forall>g \<in> set GP_DATA. hw_pin_out hw g"
      using ecp_build_running [of hw2] hw2 3 by (auto simp: landing_def)
    have e: "switch_to m mx = Some (switch_result m, \<lparr>mx_hw = hw, mx_active = Some (ActEcp p)\<rparr>)"
      unfolding sw using b(1) 3 by (auto simp: switch_result_def landing_def)
    show ?thesis by (rule finish [OF e b(2)])
      (use b 3 hw2(3) in \<open>auto simp: phy_mode_def landing_def drives_data_def\<close>)
  next
    case 4
    obtain p hw where b: "spp_build hw2 = Some (p, hw)" "phy_ok (ActSppNibble p)" "hw_running SppNibble hw"
      "\<forall>g \<in> set GP_DATA. hw_pin_out hw g = hw_pin_out hw2 g"
      using spp_build_running [of hw2] hw2 4 by (auto simp: landing_def)
    have e: "switch_to m mx = Some (switch_result m, \<lparr>mx_hw = hw, mx_active = Some (ActSppNibble p)\<rparr>)"
      unfolding sw using b(1) 4 by (auto simp: switch_result_def landing_def)
    show ?thesis by (rule finish [OF e b(2)])
      (use b 4 hw2(3) in \<open>auto simp: phy_mode_def landing_def drives_data_def\<close>)
  qed
qed

fun switch_all :: "lpt_mode list \<Rightarrow> lpt_mux \<Rightarrow> ((lpt_error + unit) list \<times> lpt_mux) option" where
  "switch_all [] mx = Some ([], mx)"
| "switch_all (m # ms) mx =
     do { (r, mx) \<leftarrow> switch_to m mx; (rs, mx) \<leftarrow> switch_all ms mx; Some (r # rs, mx) }"

lemma switch_all_ok:
  assumes "mux_ok mx"
  shows "\<exists>mx'. switch_all ms mx = Some (map switch_result ms, mx') \<and> mux_ok mx' \<and>
    mux_current_mode mx' = (if ms = [] then mux_current_mode mx else Some (landing (last ms))) \<and>
    (\<forall>g \<in> set GP_DATA. hw_pin_out (mx_hw mx') g = ((\<exists>m \<in> set ms. drives_data m) \<or> hw_pin_out (mx_hw mx) g))"
  using assms
proof (induction ms arbitrary: mx)
  case (Cons m ms)
  obtain mx1 where 1: "switch_to m mx = Some (switch_result m, mx1)" "mux_ok mx1"
    "mux_current_mode mx1 = Some (landing m)"
    "\<forall>g \<in> set GP_DATA. hw_pin_out (mx_hw mx1) g = (drives_data m \<or> hw_pin_out (mx_hw mx) g)"
    using switch_to_ok [OF Cons.prems] by blast
  from Cons.IH [OF 1(2)] 1 show ?case by auto
qed simp

lemma hardware_new_idle:
  "base AND 1023 = 0 \<Longrightarrow> hw_idle (hardware_new base bursts rx) \<and> set_for SppNibble (hardware_new base bursts rx) \<and>
     (\<forall>g. \<not> hw_pin_out (hardware_new base bursts rx) g)"
  by (simp add: hardware_new_def hw_idle_def hw_aligned_def set_for_def hw_step_defs const_defs fun_eq_iff)

lemma mux_new_ok:
  assumes "base AND 1023 = 0"
  shows "\<exists>mx. mux_new (hardware_new base bursts rx) = Some mx \<and> mux_ok mx \<and>
    mux_current_mode mx = Some SppNibble \<and> (\<forall>g \<in> set GP_DATA. \<not> hw_pin_out (mx_hw mx) g)"
  using spp_build_running [of "hardware_new base bursts rx"] hardware_new_idle [OF assms]
  by (auto simp: mux_new_def mux_ok_def mux_current_mode_def phy_mode_def)

subsection \<open>The phys keep the phy contract\<close>

text \<open>The reader keeps up if no burst between two polls finds too little room in the ring.\<close>

fun bursts_fit :: "nat \<Rightarrow> u32 list list \<Rightarrow> bool" where
  "bursts_fit k [] = True"
| "bursts_fit k (b # bs) = (k + length b < LPT_RING_WORDS \<and> bursts_fit (k + length b - 1) bs)"

lemma fold_dma_store:
  "ring_ok n r \<Longrightarrow> ring_pending n r + length ws < n \<Longrightarrow>
     ring_ok n (fold (dma_store n) ws r) \<and> ring_queue n (fold (dma_store n) ws r) = ring_queue n r @ ws"
proof (induction ws arbitrary: r)
  case (Cons w ws)
  have s: "ring_ok n (dma_store n w r)" "ring_queue n (dma_store n w r) = ring_queue n r @ [w]"
    using dma_store_facts [OF Cons.prems(1), of w] Cons.prems(2) by auto
  then have "ring_pending n (dma_store n w r) = Suc (ring_pending n r)"
    by (metis length_append_singleton length_ring_queue)
  with Cons.IH [OF s(1)] s(2) Cons.prems(2) show ?case by simp
qed simp

lemma ring_recv_spec:
  assumes "ring_ok LPT_RING_WORDS r" "bursts_fit (ring_pending LPT_RING_WORDS r) bs"
  shows "case ring_recv bs r of
      None \<Rightarrow> ring_queue LPT_RING_WORDS r @ concat bs = []
    | Some (b, r', bs') \<Rightarrow>
        ring_ok LPT_RING_WORDS r' \<and> bursts_fit (ring_pending LPT_RING_WORDS r') bs' \<and>
        map word_byte (ring_queue LPT_RING_WORDS r @ concat bs) =
          b # map word_byte (ring_queue LPT_RING_WORDS r' @ concat bs')"
  using assms
proof (induction bs arbitrary: r)
  case Nil
  then show ?case
    using lpt_fifo.pop_none [of r] lpt_fifo.pop_some [of r]
    by (auto split: option.splits)
next
  case (Cons b bs)
  define r1 where "r1 = fold (dma_store LPT_RING_WORDS) b r"
  have r1: "ring_ok LPT_RING_WORDS r1" "ring_queue LPT_RING_WORDS r1 = ring_queue LPT_RING_WORDS r @ b"
    using fold_dma_store [OF Cons.prems(1), of b] Cons.prems(2) by (simp_all add: r1_def)
  then have p1: "ring_pending LPT_RING_WORDS r1 = ring_pending LPT_RING_WORDS r + length b"
    by (metis length_append length_ring_queue)
  have q: "ring_queue LPT_RING_WORDS r @ concat (b # bs) = ring_queue LPT_RING_WORDS r1 @ concat bs"
    using r1(2) by simp
  show ?case
  proof (cases "lpt_try_pop r1")
    case None
    then have "ring_queue LPT_RING_WORDS r1 = []" using lpt_fifo.pop_none [OF r1(1)] by simp
    then have z: "ring_pending LPT_RING_WORDS r1 = 0" by (simp flip: length_ring_queue)
    then have "bursts_fit (ring_pending LPT_RING_WORDS r1) bs" using Cons.prems(2) p1 by simp
    moreover have "ring_recv (b # bs) r = ring_recv bs r1" using None by (simp add: r1_def)
    ultimately show ?thesis unfolding q using Cons.IH [OF r1(1)] by simp
  next
    case (Some x)
    obtain w r2 where x: "x = (w, r2)" by (cases x)
    have r2: "ring_ok LPT_RING_WORDS r2" "ring_queue LPT_RING_WORDS r1 = w # ring_queue LPT_RING_WORDS r2"
      using lpt_fifo.pop_some [OF r1(1)] Some x by simp_all
    then have "ring_pending LPT_RING_WORDS r1 = Suc (ring_pending LPT_RING_WORDS r2)"
      by (metis length_Cons length_ring_queue)
    then have "bursts_fit (ring_pending LPT_RING_WORDS r2) bs" using Cons.prems(2) p1 by simp
    moreover have "ring_recv (b # bs) r = Some (word_byte w, r2, bs)" using Some x by (simp add: r1_def)
    ultimately show ?thesis unfolding q using r2 by simp
  qed
qed

definition compat_in_live :: "pio_compat_in \<Rightarrow> bool" where
  "compat_in_live ci \<longleftrightarrow> ring_ok LPT_RING_WORDS (ci_ring ci) \<and>
     bursts_fit (ring_pending LPT_RING_WORDS (ci_ring ci)) (ci_bursts ci)"

definition compat_in_bytes :: "pio_compat_in \<Rightarrow> u8 list" where
  "compat_in_bytes ci = map word_byte (ring_queue LPT_RING_WORDS (ci_ring ci) @ concat (ci_bursts ci))"

lemma compat_in_recv_none:
  "compat_in_live ci \<Longrightarrow> compat_in_recv_byte ci = None \<Longrightarrow> compat_in_bytes ci = []"
  using ring_recv_spec [of "ci_ring ci" "ci_bursts ci"]
  by (auto simp: compat_in_recv_byte_def compat_in_live_def compat_in_bytes_def split: option.splits)

lemma compat_in_recv_some:
  "compat_in_live ci \<Longrightarrow> compat_in_recv_byte ci = Some (b, ci') \<Longrightarrow>
     compat_in_live ci' \<and> compat_in_bytes ci = b # compat_in_bytes ci' \<and> (compat_in_ok ci \<longrightarrow> compat_in_ok ci')"
  using ring_recv_spec [of "ci_ring ci" "ci_bursts ci"]
  by (auto simp: compat_in_recv_byte_def compat_in_live_def compat_in_bytes_def compat_in_ok_def
      split: option.splits prod.splits)

text \<open>What the host reads out of a word of the nibble driver: low nibble first.\<close>

definition unpack_nibble :: "u32 \<Rightarrow> u8" where
  "unpack_nibble w =
     (if bit w 0 then 8 else 0) + (if bit w 2 then 4 else 0) + (if bit w 3 then 2 else 0) +
     (if bit w 4 then 1 else 0)"

definition unpack_byte :: "u32 \<Rightarrow> u8" where
  "unpack_byte w = unpack_nibble w OR push_bit 4 (unpack_nibble (drop_bit 5 w))"

lemma bit_and_one: "bit ((x :: 'a :: len word) AND 1) n = (n = 0 \<and> bit x 0)"
  by (auto simp: bit_simps)

lemma bit_pack_nibble:
  "bit (pack_nibble b ph) n = (n = 0 \<and> bit b 3 \<or> n = 1 \<and> ph \<or> n = 2 \<and> bit b 2 \<or> n = 3 \<and> bit b 1 \<or> n = 4 \<and> bit b 0)"
proof -
  consider "n = 0" | "n = 1" | "n = 2" | "n = 3" | "n = 4" | "5 \<le> n" by linarith
  then show ?thesis
    unfolding pack_nibble_def bit_or_iff bit_and_one bit_push_bit_iff bit_drop_bit_eq bit_of_bool_iff
    by cases simp_all
qed

lemma bit_pack_byte:
  "bit (pack_byte b) n = (if n < 5 then bit (pack_nibble (b AND 0x0F) True) n else bit (pack_nibble (drop_bit 4 b AND 0x0F) False) (n - 5))"
  unfolding pack_byte_def Let_def bit_or_iff bit_push_bit_iff bit_ucast_iff bit_pack_nibble
  by (auto simp: )

lemma bit_0F: "bit (x AND 0x0F :: u8) n = (n < 4 \<and> bit x n)"
proof -
  have "(0x0F :: u8) = mask 4" by (simp add: mask_eq_exp_minus_1)
  then show ?thesis by (simp only: bit_and_iff bit_mask_iff) auto
qed

lemma unpack_nibble_pack: 
  assumes "bit w 0 = bit b 3" "bit w 2 = bit b 2" "bit w 3 = bit b 1" "bit w 4 = bit b 0"
  shows "unpack_nibble w = b AND 0x0F"
proof (rule bit_word_eqI)
  fix n assume "n < LENGTH(8)"
  then consider "n = 0" | "n = 1" | "n = 2" | "n = 3" | "n = 4" | "n = 5" | "n = 6" | "n = 7"
    by (auto simp: less_Suc_eq numeral_eq_Suc)
  then show "bit (unpack_nibble w) n = bit (b AND 0x0F) n"
    unfolding bit_0F unpack_nibble_def assms
    by cases (simp_all split: if_split)
qed


lemma unpack_pack_byte: "unpack_byte (pack_byte b) = b"
proof -
  have lo: "unpack_nibble (pack_byte b) = b AND 0x0F"
    by (rule unpack_nibble_pack) (simp_all add: bit_pack_byte bit_pack_nibble bit_0F)
  have hi: "unpack_nibble (drop_bit 5 (pack_byte b)) = drop_bit 4 b AND 0x0F"
    by (rule unpack_nibble_pack) (simp_all add: bit_pack_byte bit_pack_nibble bit_drop_bit_eq bit_0F)
  show ?thesis
    unfolding unpack_byte_def lo hi
  proof (rule bit_word_eqI)
    fix n assume "n < LENGTH(8)"
    then show "bit ((b AND 0x0F) OR push_bit 4 (drop_bit 4 b AND 0x0F)) n = bit b n"
      unfolding bit_or_iff bit_push_bit_iff bit_drop_bit_eq bit_0F by auto
  qed
qed

text \<open>The live phys: what they still receive, and what they have sent.\<close>

definition phy_live :: "active_phy \<Rightarrow> bool" where
  "phy_live a =
     (case a of
        ActSppNibble p \<Rightarrow> compat_in_live (dp_compat_in p)
      | ActByte p \<Rightarrow> compat_in_live (dp_compat_in p)
      | _ \<Rightarrow> True)"

definition phy_incoming :: "active_phy \<Rightarrow> u8 list" where
  "phy_incoming a =
     (case a of
        ActSppNibble p \<Rightarrow> compat_in_bytes (dp_compat_in p)
      | ActByte p \<Rightarrow> compat_in_bytes (dp_compat_in p)
      | ActEpp p \<Rightarrow> map (\<lambda>w. ucast (w AND 0xFF)) (ep_rx (ey_epp p))
      | ActEcp p \<Rightarrow> map word_byte (ef_rx (ec_fwd p)))"

definition epp_reverse_bytes :: "u32 list \<Rightarrow> u8 list" where
  "epp_reverse_bytes ws = map (\<lambda>w. ucast (drop_bit 24 w)) (filter (\<lambda>w. bit w 0) ws)"

definition phy_outgoing :: "active_phy \<Rightarrow> u8 list" where
  "phy_outgoing a =
     (case a of
        ActSppNibble p \<Rightarrow> map unpack_byte (tx_words (dp_tx p))
      | ActByte p \<Rightarrow> map ucast (tx_words (dp_tx p))
      | ActEpp p \<Rightarrow> epp_reverse_bytes (tx_words (ep_tx (ey_epp p)))
      | ActEcp p \<Rightarrow> map ucast (tx_words (ec_rev p)))"

definition mux_incoming :: "lpt_mux \<Rightarrow> u8 list" where
  "mux_incoming mx = (case mx_active mx of None \<Rightarrow> [] | Some a \<Rightarrow> phy_incoming a)"

definition mux_outgoing :: "lpt_mux \<Rightarrow> u8 list" where
  "mux_outgoing mx = (case mx_active mx of None \<Rightarrow> [] | Some a \<Rightarrow> phy_outgoing a)"

definition mux_live :: "lpt_mux \<Rightarrow> bool" where
  "mux_live mx \<longleftrightarrow> mux_ok mx \<and> phy_live (the (mx_active mx))"

lemma encode_reverse_byte: "epp_reverse_bytes [encode_reverse_cmd b] = [b]"
proof -
  have "bit (encode_reverse_cmd b) 0" by (simp add: encode_reverse_cmd_def bit_simps)
  moreover have "(ucast (drop_bit 24 (encode_reverse_cmd b)) :: u8) = b"
    by (rule bit_word_eqI) (simp add: encode_reverse_cmd_def bit_ucast_iff bit_drop_bit_eq bit_or_iff
        bit_push_bit_iff bit_1_iff)
  ultimately show ?thesis by (simp add: epp_reverse_bytes_def)
qed

lemma epp_reverse_bytes_simps:
  "epp_reverse_bytes (ws @ [encode_forward_cmd]) = epp_reverse_bytes ws"
  "epp_reverse_bytes (ws @ [encode_reverse_cmd b]) = epp_reverse_bytes ws @ [b]"
  using encode_reverse_byte [of b] by (simp_all add: epp_reverse_bytes_def encode_forward_cmd_def)

lemma fold_send_reverse:
  "epp_reverse_bytes (tx_words (ep_tx (fold send_reverse_byte bs ep))) =
     epp_reverse_bytes (tx_words (ep_tx ep)) @ bs \<and>
   ep_rx (fold send_reverse_byte bs ep) = ep_rx ep \<and>
   (tx_ok sm prg (ep_tx (fold send_reverse_byte bs ep)) = tx_ok sm prg (ep_tx ep))"
  by (induction bs arbitrary: ep)
    (simp_all add: send_reverse_byte_def dma_push_def epp_reverse_bytes_simps tx_ok_def)

lemma ucast_u32_u8: "(ucast (ucast (b :: u8) :: u32) :: u8) = b"
  by (rule bit_word_eqI) (simp add: bit_ucast_iff)

text \<open>A receive and a send on a live multiplexer keep the mode and the phy contract.\<close>

lemma mux_recv_none: "mux_live mx \<Longrightarrow> mux_recv mx = None \<Longrightarrow> mux_incoming mx = []"
  using compat_in_recv_none
  by (auto simp: mux_live_def mux_ok_def mux_recv_def mux_incoming_def phy_incoming_def lift_phy_def phy_live_def
      duplex_recv_def epp_recv_def ecp_recv_def pio_epp_recv_byte_def ecp_fwd_recv_byte_def send_forward_cmd_def
      split: active_phy.splits list.splits)

lemma mux_recv_some:
  assumes "mux_live mx" "mux_recv mx = Some (r, mx')"
  shows "mux_live mx' \<and> mux_incoming mx = unwrap_or 0 r # mux_incoming mx' \<and> mux_outgoing mx' = mux_outgoing mx"
proof -
  obtain a where a: "mx_active mx = Some a" "phy_ok a" "hw_running (phy_mode a) (mx_hw mx)" "phy_live a"
    using assms(1) by (auto simp: mux_live_def mux_ok_def)
  show ?thesis
  proof (cases a)
    case (ActSppNibble p)
    then show ?thesis using assms(2) a compat_in_recv_some [of "dp_compat_in p"]
      by (fastforce simp: mux_recv_def lift_phy_def duplex_recv_def mux_live_def mux_ok_def mux_incoming_def
          mux_outgoing_def phy_incoming_def phy_outgoing_def phy_live_def phy_ok_def phy_mode_def unwrap_or_def)
  next
    case (ActByte p)
    then show ?thesis using assms(2) a compat_in_recv_some [of "dp_compat_in p"]
      by (fastforce simp: mux_recv_def lift_phy_def duplex_recv_def mux_live_def mux_ok_def mux_incoming_def
          mux_outgoing_def phy_incoming_def phy_outgoing_def phy_live_def phy_ok_def phy_mode_def unwrap_or_def)
  next
    case (ActEpp p)
    then show ?thesis using assms(2) a
      by (auto simp: mux_recv_def lift_phy_def epp_recv_def pio_epp_recv_byte_def send_forward_cmd_def mux_live_def
          mux_ok_def mux_incoming_def mux_outgoing_def phy_incoming_def phy_outgoing_def phy_live_def phy_ok_def
          phy_mode_def unwrap_or_def dma_push_def epp_reverse_bytes_simps tx_ok_def split: list.splits)
  next
    case (ActEcp p)
    then show ?thesis using assms(2) a
      by (auto simp: mux_recv_def lift_phy_def ecp_recv_def ecp_fwd_recv_byte_def mux_live_def
          mux_ok_def mux_incoming_def mux_outgoing_def phy_incoming_def phy_outgoing_def phy_live_def phy_ok_def
          phy_mode_def unwrap_or_def split: list.splits)
  qed
qed

lemma mux_send_some:
  assumes "mux_live mx" "mux_send_bytes bs mx = Some (x, mx')"
  shows "mux_live mx' \<and> mux_incoming mx' = mux_incoming mx \<and>
    (x = Inr () \<longrightarrow> mux_outgoing mx' = mux_outgoing mx @ bs)"
proof -
  obtain a where a: "mx_active mx = Some a" "phy_ok a" "hw_running (phy_mode a) (mx_hw mx)" "phy_live a"
    using assms(1) by (auto simp: mux_live_def mux_ok_def)
  note defs = mux_send_bytes_def lift_phy_def mux_live_def mux_ok_def mux_incoming_def mux_outgoing_def
    phy_incoming_def phy_outgoing_def phy_live_def phy_ok_def phy_mode_def dma_push_def tx_ok_def
  show ?thesis
  proof (cases a)
    case (ActSppNibble p)
    then show ?thesis using assms(2) a
      by (auto simp: defs spp_send_bytes_def nibble_send_bytes_def unpack_pack_byte comp_def split: if_splits)
  next
    case (ActByte p)
    then show ?thesis using assms(2) a
      by (auto simp: defs byte_send_bytes_def word_send_bytes_def ucast_u32_u8 comp_def split: if_splits)
  next
    case (ActEpp p)
    then show ?thesis using assms(2) a fold_send_reverse [of bs "ey_epp p" 0 epp_program]
      by (auto simp: defs epp_send_bytes_def)
  next
    case (ActEcp p)
    then show ?thesis using assms(2) a
      by (auto simp: defs ecp_send_bytes_def word_send_bytes_def ucast_u32_u8 comp_def split: if_splits)
  qed
qed

lemma mux_send_total:
  "mux_live mx \<Longrightarrow> length bs \<le> MAX_PACKET \<Longrightarrow> \<exists>mx'. mux_send_bytes bs mx = Some (Inr (), mx')"
  by (auto simp: mux_live_def mux_ok_def mux_send_bytes_def lift_phy_def spp_send_bytes_def byte_send_bytes_def
      epp_send_bytes_def ecp_send_bytes_def nibble_send_bytes_def word_send_bytes_def const_defs
      split: active_phy.splits)

interpretation lpt: reliable_phy mux_recv mux_send_bytes mux_live mux_incoming mux_outgoing
  by unfold_locales (auto dest: mux_recv_none mux_recv_some mux_send_some mux_send_total)

text \<open>The capture on its own keeps the contract too, but refuses every byte it is asked to send.\<close>

definition compat_in_phy_send_bytes :: "u8 list \<Rightarrow> pio_compat_in \<Rightarrow> ((lpt_error + unit) \<times> pio_compat_in) option" where
  "compat_in_phy_send_bytes bs ci = Some (send_bytes_default compat_in_phy_send bs ci)"

lemma compat_in_send_default:
  "send_bytes_default compat_in_phy_send bs ci = ((if bs = [] then Inr () else Inl ModeMismatch), ci)"
  by (cases bs) (simp_all add: compat_in_phy_send_def)

interpretation capture: lpt_phy compat_in_phy_recv compat_in_phy_send_bytes compat_in_live compat_in_bytes "\<lambda>_. []"
proof unfold_locales
  fix ci assume "compat_in_live ci" "compat_in_phy_recv ci = None"
  then show "compat_in_bytes ci = []"
    using compat_in_recv_none by (simp add: compat_in_phy_recv_def)
next
  fix ci r ci' assume "compat_in_live ci" "compat_in_phy_recv ci = Some (r, ci')"
  then show "compat_in_live ci' \<and> compat_in_bytes ci = unwrap_or 0 r # compat_in_bytes ci' \<and> ([] :: u8 list) = []"
    using compat_in_recv_some by (auto simp: compat_in_phy_recv_def unwrap_or_def)
next
  fix ci bs x ci' assume "compat_in_live ci" "compat_in_phy_send_bytes bs ci = Some (x, ci')"
  then show "compat_in_live ci' \<and> compat_in_bytes ci' = compat_in_bytes ci \<and> (x = Inr () \<longrightarrow> [] = [] @ bs)"
    by (auto simp: compat_in_phy_send_bytes_def compat_in_send_default split: if_splits)
qed

text \<open>
  Built over idle hardware, the SPP-nibble phy receives what the DMA will deposit, and has sent nothing;
  so at boot, and after a reload before anything has arrived.
\<close>

lemma spp_build_live:
  assumes "hw_idle hw" "set_for SppNibble hw" "bursts_fit 0 (hw_bursts hw)"
  shows "\<exists>p hw'. spp_build hw = Some (p, hw') \<and> ci_bursts (dp_compat_in p) = hw_bursts hw \<and>
    mux_live \<lparr>mx_hw = hw', mx_active = Some (ActSppNibble p)\<rparr> \<and>
    mux_incoming \<lparr>mx_hw = hw', mx_active = Some (ActSppNibble p)\<rparr> = map word_byte (concat (hw_bursts hw)) \<and>
    mux_outgoing \<lparr>mx_hw = hw', mx_active = Some (ActSppNibble p)\<rparr> = []"
proof -
  obtain r where r: "ring_arm LPT_RING_WORDS (hw_ring_words hw) (hw_ring_base hw) = Some r"
    "ring_ok LPT_RING_WORDS r" "ring_queue LPT_RING_WORDS r = []"
    using arm_idle assms(1) by (metis hw_idle_def)
  have "ring_pending LPT_RING_WORDS r = 0" using r(3) by (simp flip: length_ring_queue)
  moreover have "\<exists>hw' ci tx. spp_build hw = Some (\<lparr>dp_compat_in = ci, dp_tx = tx\<rparr>, hw') \<and>
      ci_ring ci = r \<and> ci_bursts ci = hw_bursts hw \<and> tx_words tx = [] \<and>
      phy_ok (ActSppNibble \<lparr>dp_compat_in = ci, dp_tx = tx\<rparr>) \<and> hw_running SppNibble hw'"
    using r assms(1,2)
    by (simp add: spp_build_def build_defs running_defs hw_idle_def set_for_def hw_step_defs Let_def)
  ultimately show ?thesis
    using assms(3) r
    by (auto simp: mux_live_def mux_ok_def phy_live_def compat_in_live_def phy_mode_def
        mux_incoming_def phy_incoming_def compat_in_bytes_def mux_outgoing_def phy_outgoing_def)
qed

lemma hardware_new_bursts [simp]: "hw_bursts (hardware_new base bursts rx) = bursts"
  by (simp add: hardware_new_def hw_step_defs)

lemma mux_new_live:
  assumes "base AND 1023 = 0" "bursts_fit 0 bursts"
  shows "\<exists>mx. mux_new (hardware_new base bursts rx) = Some mx \<and> mux_live mx \<and>
    mux_incoming mx = map word_byte (concat bursts) \<and> mux_outgoing mx = []"
  using spp_build_live [of "hardware_new base bursts rx"] hardware_new_idle [OF assms(1), of bursts rx] assms(2)
  by (auto simp: mux_new_def)

subsection \<open>Properties of the mode changes\<close>

text \<open>
  C13. Mode changes never panic and never lose a resource: starting from the boot configuration, any
  sequence of \<^verbatim>\<open>switch_to\<close> calls succeeds, answers \<^verbatim>\<open>ModeMismatch\<close> exactly for the two modes without
  a phy (and lands in SPP-nibble for them), and leaves exactly the programs, state machines, transceiver
  levels and DIR ownership of the mode it ends in.
\<close>

theorem mux_mode_changes:
  assumes "base AND 1023 = 0"
  shows "\<exists>mx0 mx. mux_new (hardware_new base bursts rx) = Some mx0 \<and>
    switch_all ms mx0 = Some (map switch_result ms, mx) \<and>
    mux_current_mode mx = Some (landing (last (SppNibble # ms))) \<and>
    hw_running (landing (last (SppNibble # ms))) (mx_hw mx)"
proof -
  obtain mx0 where 0: "mux_new (hardware_new base bursts rx) = Some mx0" "mux_ok mx0"
    "mux_current_mode mx0 = Some SppNibble"
    using mux_new_ok [OF assms] by blast
  obtain mx where 1: "switch_all ms mx0 = Some (map switch_result ms, mx)" "mux_ok mx"
    "mux_current_mode mx = (if ms = [] then mux_current_mode mx0 else Some (landing (last ms)))"
    using switch_all_ok [OF 0(2)] by blast
  have m: "mux_current_mode mx = Some (landing (last (SppNibble # ms)))"
    using 1(3) 0(3) by (simp add: landing_def)
  then have "hw_running (landing (last (SppNibble # ms))) (mx_hw mx)"
    using 1(2) by (auto simp: mux_ok_def mux_current_mode_def)
  with 0 1 m show ?thesis by blast
qed

theorem mux_mode_changes_witness:
  "\<exists>mx0 mx. mux_new (hardware_new 0x20000400 [] []) = Some mx0 \<and>
    switch_all [Byte, Epp, Spp] mx0 = Some ([Inr (), Inr (), Inl ModeMismatch], mx) \<and>
    mux_current_mode mx = Some SppNibble"
proof -
  have "(0x20000400 :: u32) AND 1023 = 0" by simp
  from mux_mode_changes [OF this, of "[]" "[]" "[Byte, Epp, Spp]"] show ?thesis
    by (auto simp: switch_result_def landing_def)
qed

text \<open>
  C39. Nothing ever turns a data line back into an input: after any sequence of mode changes the Pico
  drives D0..D7 exactly if Byte or ECP mode has been visited since boot.  So the host's bytes collide
  with the Pico's own outputs in every SPP-nibble or EPP session after a Byte or ECP one, and an EPP
  session entered from boot never drives the bytes it sends.
\<close>

theorem data_lines_follow_history:
  assumes "base AND 1023 = 0"
  shows "\<exists>mx0 rs mx. mux_new (hardware_new base bursts rx) = Some mx0 \<and> switch_all ms mx0 = Some (rs, mx) \<and>
    (\<forall>g \<in> set GP_DATA. hw_pin_out (mx_hw mx) g = (Byte \<in> set ms \<or> Ecp \<in> set ms))"
proof -
  obtain mx0 where 0: "mux_new (hardware_new base bursts rx) = Some mx0" "mux_ok mx0"
    "\<forall>g \<in> set GP_DATA. \<not> hw_pin_out (mx_hw mx0) g"
    using mux_new_ok [OF assms] by blast
  from switch_all_ok [OF 0(2), of ms] 0 show ?thesis
    by (fastforce simp: drives_data_def)
qed

theorem data_lines_follow_history_witness:
  "\<exists>mx0 rs mx. mux_new (hardware_new 0x20000400 [] []) = Some mx0 \<and>
    switch_all [Byte, SppNibble] mx0 = Some (rs, mx) \<and> hw_pin_out (mx_hw mx) 12"
proof -
  have "(0x20000400 :: u32) AND 1023 = 0" by simp
  from data_lines_follow_history [OF this, of "[]" "[]" "[Byte, SppNibble]"] show ?thesis
    by (auto simp: const_defs)
qed

text \<open>
  The serve loop over the parallel port, in whatever mode the port is: on a wire that delivers any
  number of frames, each after noise without a start byte, it takes one round per frame and hands the
  port exactly the frames that the protocol's specification prescribes as replies, in order.
\<close>

theorem lpt_serves_stream:
  assumes "mux_live mx" "mux_incoming mx = noisy_stream xs @ rest" "clean_packets xs"
  shows "\<exists>s' buf' mx' t'.
    serve_rounds mux_recv mux_send_bytes emit (length xs) (s, reassembler_new, mx, t) =
      Served (s', buf', mx', t') \<and> mux_live mx' \<and> mux_incoming mx' = rest \<and>
    mux_outgoing mx' = mux_outgoing mx @
      reply_frames (replies_spec (es2_crc (ss_blob s)) (ss_tx_seq s) (map snd xs))"
  using lpt.serve_rounds_stream [OF assms(1) _ assms(3,2), of reassembler_new emit s t]
  by (simp add: reassembler_new_def const_defs)

text \<open>The word the capture makes of a byte: the strobe, low, below the data.\<close>

definition captured :: "u8 \<Rightarrow> u32" where
  "captured b = push_bit 1 (ucast b)"

lemma word_byte_captured [simp]: "word_byte (captured b) = b"
proof (rule bit_word_eqI)
  fix n assume n: "n < LENGTH(8)"
  have m: "(0xFF :: u32) = mask 8" by (simp add: mask_eq_exp_minus_1)
  show "bit (word_byte (captured b)) n = bit b n"
    unfolding word_byte_def captured_def m bit_ucast_iff bit_and_iff bit_mask_iff bit_drop_bit_eq bit_push_bit_iff
    using n by simp
qed

theorem lpt_serves_stream_witness:
  "\<exists>mx s' buf' mx' t'. mux_new (hardware_new 0x20000400
       [map captured (noisy_stream [([0xFF], \<lparr>in_cmd = CMD_PING, in_seq = 0, in_payload = [7]\<rparr>)])] []) = Some mx \<and>
     serve_rounds mux_recv mux_send_bytes noop_emit 1 (session_new, reassembler_new, mx, ()) =
       Served (s', buf', mx', t') \<and> mux_outgoing mx' = frame CMD_PONG 0 [7]"
proof -
  let ?xs = "[([0xFF], \<lparr>in_cmd = CMD_PING, in_seq = 0, in_payload = [7]\<rparr>)] :: (u8 list \<times> incoming_packet) list"
  have len: "length (noisy_stream ?xs) = 10"
    by (simp add: noisy_stream_def packet_frame_def)
  obtain mx where mx: "mux_new (hardware_new 0x20000400 [map captured (noisy_stream ?xs)] []) = Some mx"
    "mux_live mx" "mux_incoming mx = noisy_stream ?xs @ []" "mux_outgoing mx = []"
    using mux_new_live [where base = "0x20000400" and bursts = "[map captured (noisy_stream ?xs)]" and rx = "[]"] len
    by (auto simp: const_defs comp_def)
  have clean: "clean_packets ?xs" by (simp add: clean_packets_def const_defs)
  from lpt_serves_stream [OF mx(2,3) clean, where emit = noop_emit and s = session_new and t = "()"] mx(1,4)
  show ?thesis
    by (auto simp: reply_spec_def cmd_defs session_new_def session_with_blob_def reply_seq_def)
qed

end
