(* ===== verification/Wire.thy ===== *)
theory Wire
  imports Phys
begin

text \<open>
  The parallel port on the wire: what the state machines of \<open>Pio\<close> do with the words and levels they
  are given, against the host's side of the protocol (\<^verbatim>\<open>dos/stage0/lpt_nibble.inc\<close>).  The lemmas show
  the waveform of the nibble driver and that the host reads the bytes out of it, and that the capture
  turns strobe pulses into the words the receiver decodes.
\<close>

subsection \<open>The nibble driver's waveform\<close>

definition lo_pins :: "u8 \<Rightarrow> u32" where
  "lo_pins b = ucast (pack_nibble (b AND 0x0F) True)"

definition hi_pins :: "u8 \<Rightarrow> u32" where
  "hi_pins b = ucast (pack_nibble (drop_bit 4 b AND 0x0F) False)"

lemma pack_byte_pins: "pack_byte b AND mask 5 = lo_pins b" "drop_bit 5 (pack_byte b) AND mask 5 = hi_pins b"
proof -
  show "pack_byte b AND mask 5 = lo_pins b"
  proof (rule bit_word_eqI)
    fix n assume "n < LENGTH(32)"
    then show "bit (pack_byte b AND mask 5) n = bit (lo_pins b) n"
      unfolding lo_pins_def bit_and_iff bit_mask_iff bit_pack_byte bit_ucast_iff
      by (auto simp: bit_pack_nibble)
  qed
  show "drop_bit 5 (pack_byte b) AND mask 5 = hi_pins b"
  proof (rule bit_word_eqI)
    fix n assume "n < LENGTH(32)"
    then show "bit (drop_bit 5 (pack_byte b) AND mask 5) n = bit (hi_pins b) n"
      unfolding hi_pins_def bit_and_iff bit_mask_iff bit_drop_bit_eq bit_pack_byte bit_ucast_iff comp_def
      by (auto simp: bit_pack_nibble)
  qed
qed

lemma pins_mask: "lo_pins b AND mask 5 = lo_pins b" "hi_pins b AND mask 5 = hi_pins b"
  unfolding pack_byte_pins [symmetric] by (simp_all add: and.assoc)

text \<open>A byte takes 23 cycles: the pull, then each pattern for 11.\<close>

lemma nibble_byte_run:
  assumes "sm_pc s = 0" "sm_delay s = 0" "sm_tx s = pack_byte b # ws" "length is = 23"
  defines "t \<equiv> fst (sm_run nibble_out_config is s)"
  shows "sm_pc t = 0 \<and> sm_delay t = 0 \<and> sm_tx t = ws \<and> sm_out t = hi_pins b \<and>
     map sm_out (snd (sm_run nibble_out_config is s)) =
       sm_out s # replicate 11 (lo_pins b) @ replicate 11 (hi_pins b)"
proof -
  obtain xs ys where xs: "is = xs @ ys" "length xs = 3" "length ys = 20"
    by (rule split_cycles [of "is" 3 20]) (use assms(4) in simp_all)
  obtain d1 zs where zs: "ys = d1 @ zs" "length d1 = 9" "length zs = 11"
    by (rule split_cycles [of ys 9 11]) (use xs in simp_all)
  obtain us d2 where us: "zs = us @ d2" "length us = 2" "length d2 = 9"
    by (rule split_cycles [of zs 2 9]) (use zs in simp_all)
  obtain i0 i1 i2 where i: "xs = [i0, i1, i2]" using xs(2) by (auto simp: length_Suc_conv numeral_eq_Suc)
  obtain i3 i4 where j: "us = [i3, i4]" using us(2) by (auto simp: length_Suc_conv numeral_eq_Suc)
  note step = sm_cycle_def sm_exec_def sm_advance_def program_defs ins_defs Let_def
  define s1 where "s1 = s\<lparr>sm_pc := 3, sm_delay := 9, sm_tx := ws, sm_osr := drop_bit 5 (pack_byte b), sm_out := lo_pins b\<rparr>"
  have 1: "sm_run nibble_out_config xs s = (s1, snd (sm_run nibble_out_config xs s))"
    "map sm_out (snd (sm_run nibble_out_config xs s)) = [sm_out s, lo_pins b, lo_pins b]"
    using assms(1-3) pack_byte_pins(1) [of b]
    by (simp_all add: prod_eq_iff i step s1_def pins_mask numeral_3_eq_3)
  define s2 where "s2 = s1\<lparr>sm_delay := 0\<rparr>"
  have 2: "fst (sm_run nibble_out_config d1 s1) = s2"
    "map sm_out (snd (sm_run nibble_out_config d1 s1)) = replicate 9 (lo_pins b)"
    using sm_run_delay [of d1 s1] sm_run_delay_out [of d1 s1 sm_out nibble_out_config] zs(2)
    by (simp_all add: s1_def s2_def)
  define s3 where "s3 = s2\<lparr>sm_pc := 0, sm_delay := 9, sm_osr := drop_bit 10 (pack_byte b), sm_out := hi_pins b\<rparr>"
  have 3: "fst (sm_run nibble_out_config us s2) = s3"
    "map sm_out (snd (sm_run nibble_out_config us s2)) = [hi_pins b, hi_pins b]"
    using pack_byte_pins(2) [of b] by (simp_all add: j step s1_def s2_def s3_def pins_mask)
  have 4: "fst (sm_run nibble_out_config d2 s3) = s3\<lparr>sm_delay := 0\<rparr>"
    "map sm_out (snd (sm_run nibble_out_config d2 s3)) = replicate 9 (hi_pins b)"
    using sm_run_delay [of d2 s3] sm_run_delay_out [of d2 s3 sm_out nibble_out_config] us(3)
    by (simp_all add: s3_def)
  have r: "replicate 11 x = [x, x] @ replicate 9 (x :: u32)" for x
    by (simp add: numeral_eq_Suc)
  show ?thesis
    unfolding t_def xs(1) zs(1) us(1) sm_run_append fst_conv snd_conv map_append 2 3 4 r
      1(2) arg_cong [OF 1(1), of fst, unfolded fst_conv]
    by (simp add: s1_def s2_def s3_def numeral_eq_Suc)
qed

text \<open>A message: each byte's patterns, the high one held through the next pull.\<close>

definition byte_holds :: "u8 \<Rightarrow> (nat \<times> u32) list" where
  "byte_holds b = [(11, lo_pins b), (12, hi_pins b)]"

definition expand :: "(nat \<times> 'a) list \<Rightarrow> 'a list" where
  "expand hs = concat (map (\<lambda>(n, v). replicate n v) hs)"

lemma expand_simps [simp]:
  "expand [] = []" "expand ((n, v) # hs) = replicate n v @ expand hs" "expand (hs @ ks) = expand hs @ expand ks"
  by (simp_all add: expand_def)

lemma nibble_message_run:
  assumes "sm_pc s = 0" "sm_delay s = 0" "sm_tx s = map pack_byte bs" "length is = 23 * length bs"
  shows "map sm_out (snd (sm_run nibble_out_config is s)) @ [sm_out (fst (sm_run nibble_out_config is s))] =
    sm_out s # expand (concat (map byte_holds bs))"
  using assms
proof (induction bs arbitrary: "is" s)
  case (Cons b bs)
  obtain xs ys where xs: "is = xs @ ys" "length xs = 23" "length ys = 23 * length bs"
    by (rule split_cycles [of "is" 23 "23 * length bs"]) (use Cons.prems(4) in simp_all)
  define t where "t = fst (sm_run nibble_out_config xs s)"
  have t: "sm_pc t = 0" "sm_delay t = 0" "sm_tx t = map pack_byte bs" "sm_out t = hi_pins b"
    "map sm_out (snd (sm_run nibble_out_config xs s)) =
       sm_out s # replicate 11 (lo_pins b) @ replicate 11 (hi_pins b)"
    using nibble_byte_run [OF Cons.prems(1,2) _ xs(2), of b "map pack_byte bs"] Cons.prems(3)
    by (simp_all add: t_def)
  from Cons.IH [OF t(1-3) xs(3)] t(4,5) show ?case
    by (simp add: xs(1) sm_run_append byte_holds_def t_def [symmetric] replicate_app_Cons_same
        flip: replicate_Suc [of 11])
qed simp

subsection \<open>The host's reader\<close>

text \<open>
  The host reads the status register: bit 3 to 6 the nibble, bit 7 the phase, which the port's hardware
  may invert.  \<open>dos_recv_nibble\<close> is the loop of \<^verbatim>\<open>lpt_recv_nibble\<close> over the values that successive
  reads return: wait for the phase to differ, read again, and take the nibble if it still differs.
  Running out of reads is its timeout.
\<close>

definition status_of :: "bool \<Rightarrow> u32 \<Rightarrow> u8" where
  "status_of inverted w =
     (if bit w 0 then 0x40 else 0) + (if bit w 1 \<noteq> inverted then 0x80 else 0) +
     (if bit w 2 then 0x20 else 0) + (if bit w 3 then 0x10 else 0) + (if bit w 4 then 0x08 else 0)"

definition nibble_bits :: "u8 \<Rightarrow> u8" where
  "nibble_bits a = drop_bit 3 (a AND 0x78) AND 0x0F"

fun dos_recv_nibble :: "bool \<Rightarrow> u8 list \<Rightarrow> (u8 \<times> bool \<times> u8 list) option" where
  "dos_recv_nibble phase (a # b # rest) =
     (if bit a 7 = phase then dos_recv_nibble phase (b # rest)
      else if bit b 7 = phase then dos_recv_nibble phase rest
      else Some (nibble_bits b, bit b 7, rest))"
| "dos_recv_nibble phase _ = None"

fun dos_recv_bytes :: "nat \<Rightarrow> bool \<Rightarrow> u8 list \<Rightarrow> u8 list option" where
  "dos_recv_bytes 0 phase reads = Some []"
| "dos_recv_bytes (Suc n) phase reads =
     do { (lo, phase, reads) \<leftarrow> dos_recv_nibble phase reads;
          (hi, phase, reads) \<leftarrow> dos_recv_nibble phase reads;
          bs \<leftarrow> dos_recv_bytes n phase reads;
          Some ((push_bit 4 hi OR lo) # bs) }"

lemma status_phase: "bit (status_of pol w) 7 = (bit w 1 \<noteq> pol)"
  by (simp add: status_of_def split: if_split)

lemma status_nibble: "nibble_bits (status_of pol w) = unpack_nibble w"
  by (simp add: nibble_bits_def status_of_def unpack_nibble_def split: if_split)

lemma pins_phase: "bit (lo_pins b) 1" "\<not> bit (hi_pins b) 1"
  by (simp_all add: lo_pins_def hi_pins_def bit_ucast_iff bit_pack_nibble)

lemma pins_nibble: "unpack_nibble (lo_pins b) = b AND 0x0F" "unpack_nibble (hi_pins b) = drop_bit 4 b AND 0x0F"
  by (rule unpack_nibble_pack;
      simp add: lo_pins_def hi_pins_def bit_ucast_iff bit_pack_nibble bit_0F bit_drop_bit_eq)+

lemma nibbles_join: "push_bit 4 (drop_bit 4 (b :: u8) AND 0x0F) OR (b AND 0x0F) = b"
proof (rule bit_word_eqI)
  fix n assume "n < LENGTH(8)"
  then show "bit (push_bit 4 (drop_bit 4 b AND 0x0F) OR (b AND 0x0F)) n = bit b n"
    unfolding bit_or_iff bit_push_bit_iff bit_drop_bit_eq bit_0F by auto
qed

lemma dos_recv_nibble_hold:
  assumes "\<And>v. v \<in> set idle \<Longrightarrow> bit v 7 = phase" "bit v 7 \<noteq> phase" "2 \<le> k"
  shows "dos_recv_nibble phase (idle @ replicate k v @ rest) =
    Some (nibble_bits v, bit v 7, replicate (k - 2) v @ rest)"
proof -
  obtain j where k: "k = Suc (Suc j)" using assms(3) by (metis Suc_le_D numeral_2_eq_2 Suc_le_mono)
  have "dos_recv_nibble phase (idle @ v # v # replicate j v @ rest) =
      Some (nibble_bits v, bit v 7, replicate j v @ rest)"
    using assms(1)
  proof (induction idle)
    case (Cons i "is")
    obtain x xs where "is @ v # v # replicate j v @ rest = x # xs" by (cases "is") auto
    with Cons show ?case by (simp del: replicate.simps) 
  qed (use assms(2) in simp)
  then show ?thesis by (simp add: k)
qed

text \<open>The host may read as often as it likes, but at least twice while a pattern is held.\<close>

fun host_reads :: "bool \<Rightarrow> nat list \<Rightarrow> (nat \<times> u32) list \<Rightarrow> u8 list" where
  "host_reads pol (k # ks) ((n, w) # hs) = replicate k (status_of pol w) @ host_reads pol ks hs"
| "host_reads pol _ _ = []"

lemma dos_recv_message:
  assumes "\<And>v. v \<in> set idle \<Longrightarrow> bit v 7 = pol" "length ks = 2 * length bs" "\<forall>k \<in> set ks. 2 \<le> k"
  shows "dos_recv_bytes (length bs) pol (idle @ host_reads pol ks (concat (map byte_holds bs))) = Some bs"
  using assms
proof (induction bs arbitrary: idle ks)
  case (Cons b bs)
  obtain k1 k2 ks' where ks: "ks = k1 # k2 # ks'" "length ks' = 2 * length bs"
    using Cons.prems(2) by (cases ks; cases "tl ks") auto
  let ?lo = "status_of pol (lo_pins b)" and ?hi = "status_of pol (hi_pins b)"
  let ?rest = "host_reads pol ks' (concat (map byte_holds bs))"
  have ph: "bit ?lo 7 = (\<not> pol)" "bit ?hi 7 = pol"
    using pins_phase [of b] by (simp_all add: status_phase)
  have lo: "dos_recv_nibble pol (idle @ replicate k1 ?lo @ replicate k2 ?hi @ ?rest) =
      Some (b AND 0x0F, \<not> pol, replicate (k1 - 2) ?lo @ replicate k2 ?hi @ ?rest)"
    using dos_recv_nibble_hold [OF Cons.prems(1), where v = ?lo and k = k1] Cons.prems(3) ks ph
    by (simp add: status_nibble pins_nibble)
  have hi: "dos_recv_nibble (\<not> pol) (replicate (k1 - 2) ?lo @ replicate k2 ?hi @ ?rest) =
      Some (drop_bit 4 b AND 0x0F, pol, replicate (k2 - 2) ?hi @ ?rest)"
    using dos_recv_nibble_hold [where idle = "replicate (k1 - 2) ?lo" and phase = "\<not> pol" and v = ?hi and k = k2]
      Cons.prems(3) ks ph
    by (auto simp: status_nibble pins_nibble)
  have "dos_recv_bytes (length bs) pol (replicate (k2 - 2) ?hi @ ?rest) = Some bs"
    using Cons.IH [of "replicate (k2 - 2) ?hi" ks'] Cons.prems(3) ks ph by auto
  moreover have "host_reads pol ks (concat (map byte_holds (b # bs))) = replicate k1 ?lo @ replicate k2 ?hi @ ?rest"
    by (simp add: byte_holds_def ks(1))
  ultimately show ?case
    using lo hi nibbles_join [of b] by (simp del: list.map concat.simps)
qed simp

lemma nibble_waveform:
  assumes "sm_pc s = 0" "sm_delay s = 0" "sm_tx s = map pack_byte bs" "length is = 23 * length bs"
    and "\<not> bit (sm_out s) 1" "length ks = 2 * length bs" "\<forall>k \<in> set ks. 2 \<le> k"
  shows "\<exists>holds. map sm_out (snd (sm_run nibble_out_config is s)) @ [sm_out (fst (sm_run nibble_out_config is s))] =
      sm_out s # expand holds \<and> (\<forall>(n, w) \<in> set holds. 11 \<le> n) \<and>
      dos_recv_bytes (length bs) pol (replicate k0 (status_of pol (sm_out s)) @ host_reads pol ks holds) = Some bs"
proof (intro exI conjI)
  show "map sm_out (snd (sm_run nibble_out_config is s)) @ [sm_out (fst (sm_run nibble_out_config is s))] =
      sm_out s # expand (concat (map byte_holds bs))"
    by (rule nibble_message_run [OF assms(1-4)])
  show "\<forall>(n, w) \<in> set (concat (map byte_holds bs)). 11 \<le> n"
    by (auto simp: byte_holds_def)
  show "dos_recv_bytes (length bs) pol
      (replicate k0 (status_of pol (sm_out s)) @ host_reads pol ks (concat (map byte_holds bs))) = Some bs"
    by (rule dos_recv_message) (use assms(5-7) in \<open>auto simp: status_phase\<close>)
qed

text \<open>
  The reverse channel works.  Handed the packed words of any message, the nibble driver puts each
  byte's two patterns on the status lines for at least 11 of its 10 us cycles, and a host that starts
  in the idle phase and reads the status register at least twice during each of those holds, as often
  as it likes otherwise and whatever polarity its Busy bit has, receives exactly the message.
\<close>

theorem nibble_link:
  assumes "sm_pc s = 0" "sm_delay s = 0" "sm_tx s = map pack_byte bs" "length is = 23 * length bs"
    and "\<not> bit (sm_out s) 1" "length ks = 2 * length bs" "\<forall>k \<in> set ks. 2 \<le> k"
  shows "\<exists>holds. map sm_out (snd (sm_run nibble_out_config is s)) @ [sm_out (fst (sm_run nibble_out_config is s))] =
      sm_out s # expand holds \<and> (\<forall>(n, w) \<in> set holds. 11 \<le> n) \<and>
      dos_recv_bytes (length bs) pol (replicate k0 (status_of pol (sm_out s)) @ host_reads pol ks holds) = Some bs"
  using assms by (rule nibble_waveform)

theorem nibble_link_witness:
  "\<exists>holds. dos_recv_bytes 2 True (replicate 5 (status_of True 0) @ host_reads True [3, 2, 4, 2] holds) = Some [0x41, 0xFE] \<and>
     map sm_out (snd (sm_run nibble_out_config (replicate 46 (0, \<lambda>_. False)) ((sm_start 0 0 False)\<lparr>sm_tx := map pack_byte [0x41, 0xFE]\<rparr>)))
       @ [sm_out (fst (sm_run nibble_out_config (replicate 46 (0, \<lambda>_. False)) ((sm_start 0 0 False)\<lparr>sm_tx := map pack_byte [0x41, 0xFE]\<rparr>)))]
     = 0 # expand holds"
  using nibble_link [of "(sm_start 0 0 False)\<lparr>sm_tx := map pack_byte [0x41, 0xFE]\<rparr>" "[0x41, 0xFE]"
      "replicate 46 (0, \<lambda>_. False)" "[3, 2, 4, 2]" True 5]
  by (fastforce simp: sm_start_def numeral_2_eq_2)

subsection \<open>The capture\<close>

text \<open>
  What the host does with the strobe (bit 0 of the window) and the data lines above it: between
  pulses anything may be on the data lines; a pulse holds the strobe low with stable data for at
  least two cycles of the 150 MHz state machine.
\<close>

inductive strobes :: "u8 list \<Rightarrow> pio_input list \<Rightarrow> bool" where
  quiet: "\<forall>i \<in> set xs. bit (fst i) 0 \<Longrightarrow> strobes [] xs"
| pulse: "\<forall>i \<in> set xs. bit (fst i) 0 \<Longrightarrow> 2 \<le> length ys \<Longrightarrow> \<forall>i \<in> set ys. fst i AND mask 9 = captured b \<Longrightarrow>
    bit (fst z) 0 \<Longrightarrow> strobes bs is \<Longrightarrow> strobes (b # bs) (xs @ ys @ z # is)"

definition capture_ready :: "sm_state \<Rightarrow> bool" where
  "capture_ready s \<longleftrightarrow> sm_pc s = 0 \<and> sm_delay s = 0 \<and> sm_isr s = 0 \<and> sm_isr_count s = 0 \<and> sm_rx s = []"

lemma not_bit_captured: "w AND mask 9 = captured b \<Longrightarrow> \<not> bit w 0"
proof
  assume e: "w AND mask 9 = captured b" and w: "bit w 0"
  have "bit (w AND mask 9) 0" unfolding bit_and_iff bit_mask_iff using w by simp
  then show False unfolding e captured_def bit_push_bit_iff by simp
qed

lemma compat_in_run:
  assumes "strobes bs is" "capture_ready s"
  shows "dma_run compat_in_config is s = (s, map captured bs)"
  using assms
proof (induction rule: strobes.induct)
  case (quiet xs)
  then show ?case unfolding list.map
    by (intro dma_run_stall) (auto simp: capture_ready_def sm_cycle_def sm_exec_def program_defs ins_defs)
next
  case (pulse xs ys b z bs "is")
  note step = sm_cycle_def sm_exec_def sm_advance_def sm_push_def isr_shift_def program_defs ins_defs
    capture_ready_def
  have xs: "dma_run compat_in_config xs s = (s, [])"
    using pulse by (intro dma_run_stall) (auto simp: step)
  obtain y1 y2 ys' where ys: "ys = y1 # y2 # ys'"
    using pulse.hyps(2) by (metis Suc_le_length_iff numeral_2_eq_2)
  define s1 where "s1 = s\<lparr>sm_pc := 1\<rparr>"
  define s2 where "s2 = s\<lparr>sm_pc := 2\<rparr>"
  have y1: "sm_cycle compat_in_config y1 s = s1" and y2: "sm_cycle compat_in_config y2 s1 = s2\<lparr>sm_rx := [captured b]\<rparr>"
    using pulse.hyps(3) pulse.prems not_bit_captured [of "fst y1" b]
    by (simp_all add: ys step s1_def s2_def)
  have rx: "s1\<lparr>sm_rx := []\<rparr> = s1" "s2\<lparr>sm_rx := []\<rparr> = s2" "sm_rx s1 = []" "sm_rx s2 = []"
    using pulse.prems by (simp_all add: s1_def s2_def capture_ready_def)
  have e: "s\<lparr>sm_rx := []\<rparr> = s" using pulse.prems by (cases s) (simp add: capture_ready_def)
  have ys': "dma_run compat_in_config ys' s2 = (s2, [])"
    using pulse.hyps(3) pulse.prems not_bit_captured
    by (intro dma_run_stall) (auto simp: ys step s2_def)
  have z: "sm_cycle compat_in_config z s2 = s"
    using pulse.hyps(4) pulse.prems by (simp add: step s2_def)
  have "dma_run compat_in_config (ys @ z # is) s = (s, captured b # map captured bs)"
    using pulse.IH [OF pulse.prems] pulse.prems
    by (simp add: ys y1 y2 rx dma_run_append ys' z capture_ready_def Let_def e)
  then show ?case by (simp add: dma_run_append xs)
qed

subsection \<open>End to end\<close>

text \<open>The multiplexer in SPP-nibble mode, with every word it has sent a packed byte.\<close>

definition spp_words :: "lpt_mux \<Rightarrow> u32 list" where
  "spp_words mx = (case mx_active mx of Some (ActSppNibble p) \<Rightarrow> tx_words (dp_tx p) | _ \<Rightarrow> [])"

definition spp_live :: "lpt_mux \<Rightarrow> bool" where
  "spp_live mx \<longleftrightarrow> mux_live mx \<and> mux_current_mode mx = Some SppNibble \<and>
     spp_words mx = map pack_byte (mux_outgoing mx)"

lemma current_mode_SppNibble:
  assumes "mux_current_mode mx = Some SppNibble"
  shows "\<exists>p. mx_active mx = Some (ActSppNibble p)"
proof -
  obtain a where a: "mx_active mx = Some a" using assms by (auto simp: mux_current_mode_def)
  then show ?thesis using assms by (cases a) (simp_all add: mux_current_mode_def phy_mode_def)
qed

lemma spp_live_active: "spp_live mx \<Longrightarrow> \<exists>p. mx_active mx = Some (ActSppNibble p)"
  by (simp add: spp_live_def current_mode_SppNibble)

lemma spp_recv_mode:
  "mx_active mx = Some (ActSppNibble p) \<Longrightarrow> mux_recv mx = Some (r, mx') \<Longrightarrow>
     mux_current_mode mx' = Some SppNibble \<and> spp_words mx' = spp_words mx"
  by (auto simp: mux_recv_def lift_phy_def duplex_recv_def mux_current_mode_def phy_mode_def spp_words_def)

lemma spp_send_mode:
  "mx_active mx = Some (ActSppNibble p) \<Longrightarrow> mux_send_bytes bs mx = Some (x, mx') \<Longrightarrow>
     mux_current_mode mx' = Some SppNibble \<and> spp_words mx' = spp_words mx @ map pack_byte bs \<and> x = Inr ()"
  by (auto simp: mux_send_bytes_def lift_phy_def spp_send_bytes_def nibble_send_bytes_def dma_push_def
      mux_current_mode_def phy_mode_def spp_words_def split: if_splits)

interpretation spp: reliable_phy mux_recv mux_send_bytes spp_live mux_incoming mux_outgoing
proof unfold_locales
  fix mx assume "spp_live mx" "mux_recv mx = None"
  then show "mux_incoming mx = []" using mux_recv_none by (simp add: spp_live_def)
next
  fix mx r mx' assume a: "spp_live mx" "mux_recv mx = Some (r, mx')"
  obtain p where "mx_active mx = Some (ActSppNibble p)" using spp_live_active [OF a(1)] by blast
  with a show "spp_live mx' \<and> mux_incoming mx = unwrap_or 0 r # mux_incoming mx' \<and> mux_outgoing mx' = mux_outgoing mx"
    using mux_recv_some [of mx r mx'] spp_recv_mode [of mx p r mx'] by (simp add: spp_live_def)
next
  fix mx bs x mx' assume a: "spp_live mx" "mux_send_bytes bs mx = Some (x, mx')"
  obtain p where "mx_active mx = Some (ActSppNibble p)" using spp_live_active [OF a(1)] by blast
  with a show "spp_live mx' \<and> mux_incoming mx' = mux_incoming mx \<and>
      (x = Inr () \<longrightarrow> mux_outgoing mx' = mux_outgoing mx @ bs)"
    using mux_send_some [of mx bs x mx'] spp_send_mode [of mx p bs x mx'] by (simp add: spp_live_def)
next
  fix mx and bs :: "u8 list" assume "spp_live mx" "length bs \<le> MAX_PACKET"
  then show "\<exists>mx'. mux_send_bytes bs mx = Some (Inr (), mx')"
    using mux_send_total by (simp add: spp_live_def)
qed

lemma mux_new_spp_live:
  assumes "base AND 1023 = 0" "bursts_fit 0 bursts"
  shows "\<exists>mx. mux_new (hardware_new base bursts rx) = Some mx \<and> spp_live mx \<and>
    mux_incoming mx = map word_byte (concat bursts) \<and> mux_outgoing mx = []"
proof -
  obtain mx where mx: "mux_new (hardware_new base bursts rx) = Some mx" "mux_live mx"
    "mux_incoming mx = map word_byte (concat bursts)" "mux_outgoing mx = []"
    using mux_new_live [OF assms] by blast
  have m: "mux_current_mode mx = Some SppNibble"
    using mux_new_ok [OF assms(1), of bursts rx] mx(1) by auto
  then obtain p where p: "mx_active mx = Some (ActSppNibble p)"
    using current_mode_SppNibble by blast
  then have "spp_words mx = []"
    using mx(4) by (simp add: spp_words_def mux_outgoing_def phy_outgoing_def)
  with mx m show ?thesis by (auto simp: spp_live_def)
qed

text \<open>From the capture's words to the host's bytes, for a port that has sent nothing yet.\<close>

lemma captured_requests:
  assumes "strobes bs is" "concat bursts = snd (dma_run compat_in_config is (sm_start 0 0 False))"
  shows "map word_byte (concat bursts) = bs"
proof -
  have "capture_ready (sm_start 0 0 False)" by (simp add: capture_ready_def sm_start_def)
  then show ?thesis using compat_in_run [OF assms(1)] assms(2) by (simp add: comp_def)
qed

lemma spp_port_serves:
  assumes "spp_live mx0" "mux_incoming mx0 = noisy_stream xs" "mux_outgoing mx0 = []" "clean_packets xs"
    and "answer = reply_frames (replies_spec (es2_crc (ss_blob s)) (ss_tx_seq s) (map snd xs))"
    and "length os = 23 * length answer" "length ks = 2 * length answer" "\<forall>k \<in> set ks. 2 \<le> k"
  shows "\<exists>s' buf' mx t' run holds.
    serve_rounds mux_recv mux_send_bytes emit (length xs) (s, reassembler_new, mx0, t) = Served (s', buf', mx, t') \<and>
    sm_run nibble_out_config os ((sm_start 0 0 False)\<lparr>sm_tx := spp_words mx\<rparr>) = run \<and>
    map sm_out (snd run) @ [sm_out (fst run)] = 0 # expand holds \<and>
    dos_recv_bytes (length answer) pol (host_reads pol ks holds) = Some answer"
proof -
  obtain s' buf' mx t' where 1: "serve_rounds mux_recv mux_send_bytes emit (length xs)
      (s, reassembler_new, mx0, t) = Served (s', buf', mx, t')" "spp_live mx" "mux_outgoing mx = answer"
    using spp.serve_rounds_stream [OF assms(1) _ assms(4), of reassembler_new "[]" emit s t] assms(2,3,5)
    by (auto simp: reassembler_new_def const_defs)
  then have "spp_words mx = map pack_byte answer" by (simp add: spp_live_def)
  with nibble_waveform [of "(sm_start 0 0 False)\<lparr>sm_tx := spp_words mx\<rparr>" answer os ks pol 0] 1(1) assms(6-8)
  show ?thesis by (auto simp: sm_start_def)
qed

text \<open>
  C1. The data plane end to end, from wire to wire.  The host strobes any number of requests onto the
  port, each after noise without a start byte; the capture program and the DMA fill the ring, which the
  firmware polls before it runs full.  Then the firmware, from boot, answers every request, and the
  waveform the nibble driver makes of its answers is one from which the host, reading at least twice
  per hold, receives exactly the reply frames the protocol prescribes.
\<close>

theorem data_plane_end_to_end:
  assumes "strobes (noisy_stream xs) is" "clean_packets xs"
    and "base AND 1023 = 0" "concat bursts = snd (dma_run compat_in_config is (sm_start 0 0 False))"
      "bursts_fit 0 bursts"
    and "answer = reply_frames (replies_spec (es2_crc (ss_blob s)) (ss_tx_seq s) (map snd xs))"
    and "length os = 23 * length answer" "length ks = 2 * length answer" "\<forall>k \<in> set ks. 2 \<le> k"
  shows "\<exists>mx0 s' buf' mx t' run holds.
    mux_new (hardware_new base bursts rx) = Some mx0 \<and>
    serve_rounds mux_recv mux_send_bytes emit (length xs) (s, reassembler_new, mx0, t) = Served (s', buf', mx, t') \<and>
    sm_run nibble_out_config os ((sm_start 0 0 False)\<lparr>sm_tx := spp_words mx\<rparr>) = run \<and>
    map sm_out (snd run) @ [sm_out (fst run)] = 0 # expand holds \<and>
    dos_recv_bytes (length answer) pol (host_reads pol ks holds) = Some answer"
proof -
  obtain mx0 where 0: "mux_new (hardware_new base bursts rx) = Some mx0" "spp_live mx0"
    "mux_incoming mx0 = noisy_stream xs" "mux_outgoing mx0 = []"
    using mux_new_spp_live [OF assms(3,5)] captured_requests [OF assms(1,4)] by auto
  from spp_port_serves [OF 0(2-4) assms(2) assms(6-9), of emit t pol] 0(1) show ?thesis by blast
qed

definition host_pulses :: "u8 list \<Rightarrow> pio_input list" where
  "host_pulses bs =
     concat (map (\<lambda>b. [(captured b, \<lambda>_. False), (captured b, \<lambda>_. False), (1, \<lambda>_. False)]) bs)"

lemma strobes_host_pulses: "strobes bs (host_pulses bs)"
proof (induction bs)
  case (Cons b bs)
  have m: "captured b AND mask 9 = captured b"
    by (rule bit_word_eqI)
      (unfold captured_def bit_and_iff bit_mask_iff bit_push_bit_iff bit_ucast_iff, auto dest: bit_imp_le_length)
  show ?case
    using strobes.pulse [of "[]" "[(captured b, \<lambda>_. False), (captured b, \<lambda>_. False)]" b "(1, \<lambda>_. False)" bs, OF _ _ _ _ Cons]
    by (simp add: host_pulses_def m)
qed (simp add: host_pulses_def strobes.quiet)

theorem data_plane_end_to_end_witness:
  "\<exists>mx0 s' buf' mx t' holds.
     mux_new (hardware_new 0x20000400
       [map captured (noisy_stream [([0xFF], \<lparr>in_cmd = CMD_PING, in_seq = 0, in_payload = [7]\<rparr>)])] []) = Some mx0 \<and>
     serve_rounds mux_recv mux_send_bytes noop_emit 1 (session_new, reassembler_new, mx0, ()) = Served (s', buf', mx, t') \<and>
     dos_recv_bytes 9 True (host_reads True (replicate 18 2) holds) = Some (frame CMD_PONG 0 [7])"
proof -
  let ?xs = "[([0xFF], \<lparr>in_cmd = CMD_PING, in_seq = 0, in_payload = [7]\<rparr>)] :: (u8 list \<times> incoming_packet) list"
  let ?bs = "noisy_stream ?xs"
  have len: "length ?bs = 10" by (simp add: noisy_stream_def packet_frame_def)
  have ready: "capture_ready (sm_start 0 0 False)" by (simp add: capture_ready_def sm_start_def)
  have clean: "clean_packets ?xs" by (simp add: clean_packets_def const_defs)
  have answer: "frame CMD_PONG 0 [7] =
      reply_frames (replies_spec (es2_crc (ss_blob session_new)) (ss_tx_seq session_new) (map snd ?xs))"
    by (simp add: reply_spec_def cmd_defs session_new_def session_with_blob_def reply_seq_def)
  have l: "length (frame CMD_PONG 0 [7]) = 9" by simp
  have "concat [map captured ?bs] = snd (dma_run compat_in_config (host_pulses ?bs) (sm_start 0 0 False))"
    using compat_in_run [OF strobes_host_pulses ready, of ?bs] by simp
  from data_plane_end_to_end [OF strobes_host_pulses clean _ this _ answer,
      where base = "0x20000400" and rx = "[]" and emit = noop_emit and t = "()" and pol = True
        and os = "replicate 207 (0, \<lambda>_. False)" and ks = "replicate 18 2"]
  show ?thesis unfolding l using len by (auto simp: const_defs)
qed

end
