(* ===== verification/Framer.thy ===== *)
theory Framer
  imports Prelude
begin

text \<open>
  The PS/2 wire decoder (\<^verbatim>\<open>crates/ps2-framer/src/framer.rs\<close>) and the frame packer
  (\<^verbatim>\<open>packer.rs\<close>).  Timestamps are \<^verbatim>\<open>u64\<close> words; the bit counter (a \<^verbatim>\<open>u8\<close> that never passes 10,
  lemma \<open>framer_inv\<close>) and the signed skew are unbounded.  The lemmas show that any well-timed wire
  frame is decoded to the byte it carries, in both formats, and what the glitch filter does.
\<close>

definition GLITCH_THRESHOLD_US :: u32 where [const_defs]: "GLITCH_THRESHOLD_US = 4"
definition IDLE_TIMEOUT_US :: u32 where [const_defs]: "IDLE_TIMEOUT_US = 200"
definition XT_BIT_COUNT :: nat where [const_defs]: "XT_BIT_COUNT = 9"
definition AT_BIT_COUNT :: nat where [const_defs]: "AT_BIT_COUNT = 11"

datatype frame_kind = FkAt | FkXt | FkInvalid

record frame_timing =
  bit_periods_us :: "u16 list"
  clk_data_skew_us :: int
  glitch_count :: u8

record ps2_frame =
  pf_kind :: frame_kind
  pf_data :: u8
  pf_parity_ok :: bool
  pf_framing_ok :: bool
  pf_start_timestamp_us :: u64
  pf_timing :: frame_timing

datatype framer_state = Idle | Receiving (fs_bits: nat)

record framer =
  fr_state :: framer_state
  fr_last_clk :: "bool option"
  fr_last_edge_us :: u64
  fr_assembled :: u16
  fr_frame_start_us :: u64
  fr_last_falling_us :: u64
  fr_periods_us :: "u16 list"
  fr_glitch_count :: u8
  fr_clk_data_skew_us :: int
  fr_last_data_change_us :: u64
  fr_last_data :: "bool option"

definition framer_new :: framer where
  "framer_new =
     \<lparr>fr_state = Idle, fr_last_clk = None, fr_last_edge_us = 0, fr_assembled = 0,
      fr_frame_start_us = 0, fr_last_falling_us = 0, fr_periods_us = replicate 11 0,
      fr_glitch_count = 0, fr_clk_data_skew_us = 0, fr_last_data_change_us = 0,
      fr_last_data = None\<rparr>"

definition reset_idle :: "framer \<Rightarrow> framer" where
  "reset_idle f =
     f\<lparr>fr_state := Idle, fr_assembled := 0, fr_frame_start_us := 0, fr_last_falling_us := 0,
       fr_periods_us := replicate 11 0, fr_glitch_count := 0, fr_clk_data_skew_us := 0\<rparr>"

definition sat_sub :: "u64 \<Rightarrow> u64 \<Rightarrow> u64" where
  "sat_sub a b = (if b \<le> a then a - b else 0)"

text \<open>\<^verbatim>\<open>a.saturating_sub(b) as u32\<close>, which keeps the low half.\<close>

definition elapsed32 :: "u64 \<Rightarrow> u64 \<Rightarrow> u32" where
  "elapsed32 a b = ucast (sat_sub a b)"

definition frame_timing_of :: "framer \<Rightarrow> frame_timing" where
  "frame_timing_of f =
     \<lparr>bit_periods_us = fr_periods_us f, clk_data_skew_us = fr_clk_data_skew_us f,
      glitch_count = fr_glitch_count f\<rparr>"

definition count_ones8 :: "u8 \<Rightarrow> nat" where
  "count_ones8 b = length (List.filter (\<lambda>i. bit b i) [0..<8])"

definition build_frame :: "framer \<Rightarrow> nat \<Rightarrow> ps2_frame" where
  "build_frame f total_bits =
     (let data = (ucast (drop_bit 1 (fr_assembled f) AND 0xFF) :: u8);
          (kind, parity_ok, framing_ok) =
            (if total_bits = AT_BIT_COUNT then
               let parity_bit = (ucast (drop_bit 9 (fr_assembled f) AND 1) :: u8);
                   stop_bit = (ucast (drop_bit 10 (fr_assembled f) AND 1) :: u8);
                   start_bit = (ucast (fr_assembled f AND 1) :: u8);
                   ones = of_nat (count_ones8 data) + parity_bit
               in (FkAt, ones AND 1 = 1, start_bit = 0 \<and> stop_bit = 1)
             else
               let start_bit = (ucast (fr_assembled f AND 1) :: u8)
               in (FkXt, True, start_bit = 1))
      in \<lparr>pf_kind = kind, pf_data = data, pf_parity_ok = parity_ok, pf_framing_ok = framing_ok,
          pf_start_timestamp_us = fr_frame_start_us f, pf_timing = frame_timing_of f\<rparr>)"

definition build_frame_invalid :: "framer \<Rightarrow> ps2_frame" where
  "build_frame_invalid f =
     \<lparr>pf_kind = FkInvalid, pf_data = ucast (drop_bit 1 (fr_assembled f) AND 0xFF),
      pf_parity_ok = False, pf_framing_ok = False,
      pf_start_timestamp_us = fr_frame_start_us f, pf_timing = frame_timing_of f\<rparr>"

definition emit_on_timeout :: "framer \<Rightarrow> nat \<Rightarrow> ps2_frame option" where
  "emit_on_timeout f bits =
     (if bits \<ge> AT_BIT_COUNT then None
      else if bits = XT_BIT_COUNT \<and> fr_assembled f AND 1 \<noteq> 0 then Some (build_frame f XT_BIT_COUNT)
      else if bits > 0 then Some (build_frame_invalid f)
      else None)"

definition on_clk_fall :: "framer \<Rightarrow> bool \<Rightarrow> u64 \<Rightarrow> framer \<times> ps2_frame option" where
  "on_clk_fall f data t_us =
     (case fr_state f of
        Idle \<Rightarrow>
          let skew_us = sint t_us - sint (fr_last_data_change_us f) in
          (f\<lparr>fr_assembled := of_bool data, fr_frame_start_us := t_us, fr_last_falling_us := t_us,
             fr_periods_us := replicate 11 0, fr_glitch_count := 0,
             fr_clk_data_skew_us := max (- 128) (min 127 skew_us), fr_state := Receiving 1\<rparr>, None)
      | Receiving bits \<Rightarrow>
          let period_us = (ucast (sat_sub t_us (fr_last_falling_us f)) :: u16);
              f = (if bits \<le> length (fr_periods_us f)
                   then f\<lparr>fr_periods_us := (fr_periods_us f)[bits - 1 := period_us]\<rparr> else f);
              f = f\<lparr>fr_last_falling_us := t_us,
                    fr_assembled := fr_assembled f OR push_bit bits (of_bool data)\<rparr>;
              bits = bits + 1;
              f = f\<lparr>fr_state := Receiving bits\<rparr>
          in if bits \<ge> AT_BIT_COUNT then (reset_idle f, Some (build_frame f AT_BIT_COUNT))
             else (f, None))"

definition ingest_sample :: "framer \<Rightarrow> bool \<Rightarrow> bool \<Rightarrow> u64 \<Rightarrow> framer \<times> ps2_frame option" where
  "ingest_sample f clk data t_us =
     (let f = (if fr_last_data f \<noteq> Some data
               then f\<lparr>fr_last_data_change_us := t_us, fr_last_data := Some data\<rparr> else f);
          prev_clk = fr_last_clk f;
          f = f\<lparr>fr_last_clk := Some clk\<rparr>
      in case prev_clk of
           None \<Rightarrow> (f, None)
         | Some prev_level \<Rightarrow>
             if prev_level = clk then (f, None)
             else
               let dur_us = elapsed32 t_us (fr_last_edge_us f);
                   f = f\<lparr>fr_last_edge_us := t_us\<rparr>
               in if dur_us < GLITCH_THRESHOLD_US
                  then (case fr_state f of
                          Receiving _ \<Rightarrow>
                            (f\<lparr>fr_glitch_count := saturating_inc (fr_glitch_count f)\<rparr>, None)
                        | Idle \<Rightarrow> (f, None))
                  else if prev_level \<and> \<not> clk then on_clk_fall f data t_us
                  else (f, None))"

definition ingest :: "framer \<Rightarrow> bool \<Rightarrow> bool \<Rightarrow> u64 \<Rightarrow> framer \<times> ps2_frame option" where
  "ingest f clk data t_us =
     (case fr_state f of
        Receiving bits \<Rightarrow>
          if elapsed32 t_us (fr_last_falling_us f) \<ge> IDLE_TIMEOUT_US
          then ((reset_idle f)\<lparr>fr_last_clk := Some clk, fr_last_data := Some data\<rparr>,
                emit_on_timeout f bits)
          else ingest_sample f clk data t_us
      | Idle \<Rightarrow> ingest_sample f clk data t_us)"

text \<open>A run over samples, collecting the frames.\<close>

fun feed :: "framer \<Rightarrow> (bool \<times> bool \<times> u64) list \<Rightarrow> framer \<times> ps2_frame list" where
  "feed f [] = (f, [])"
| "feed f ((c, d, t) # xs) =
     (let (f, r) = ingest f c d t; (g, rs) = feed f xs
      in (g, (case r of Some x \<Rightarrow> x # rs | None \<Rightarrow> rs)))"

subsection \<open>The packer\<close>

definition pack_at_frame :: "u8 \<Rightarrow> u32" where
  "pack_at_frame byte =
     (let w = 0xFFFFF800;
          w = w OR push_bit 1 (ucast byte);
          parity = (if count_ones8 byte mod 2 = 0 then 1 else 0);
          w = w OR push_bit 9 parity;
          w = w OR push_bit 10 1
      in w)"

definition pack_xt_frame :: "u8 \<Rightarrow> u32" where
  "pack_xt_frame byte =
     (let w = 0xFFFFFE00;
          w = w OR 1;
          w = w OR push_bit 1 (ucast byte)
      in w)"

subsection \<open>The state invariant\<close>

definition framer_inv :: "framer \<Rightarrow> bool" where
  "framer_inv f \<longleftrightarrow> length (fr_periods_us f) = 11 \<and>
     (case fr_state f of Idle \<Rightarrow> True
      | Receiving n \<Rightarrow> 1 \<le> n \<and> n \<le> 10 \<and> (\<forall>i. bit (fr_assembled f) i \<longrightarrow> i < n))"

lemma framer_inv_reset: "framer_inv (reset_idle f)"
  by (simp add: framer_inv_def reset_idle_def)

lemma bit_of_bool_word: "bit (of_bool b :: 'a::len word) i \<longleftrightarrow> b \<and> i = 0"
  by (cases b) (auto simp: bit_simps)

lemma bit_or_push:
  assumes "n < LENGTH('a)"
  shows "bit ((w::'a::len word) OR push_bit n (of_bool d)) i \<longleftrightarrow> bit w i \<or> i = n \<and> d"
  unfolding bit_or_iff bit_push_bit_iff bit_of_bool_word using assms by auto

lemma framer_inv_fall:
  assumes "framer_inv f" shows "framer_inv (fst (on_clk_fall f d t))"
proof (cases "fr_state f")
  case Idle
  then show ?thesis by (simp add: framer_inv_def on_clk_fall_def Let_def bit_of_bool_word)
next
  case (Receiving n)
  then show ?thesis
    using assms
    by (auto simp: framer_inv_reset on_clk_fall_def Let_def AT_BIT_COUNT_def)
      (auto simp: framer_inv_def bit_simps bit_of_bool_word dest: bit_imp_le_length)
qed

lemma framer_inv_ingest:
  assumes "framer_inv f" shows "framer_inv (fst (ingest f c d t))"
proof -
  have data: "framer_inv (f\<lparr>fr_last_data_change_us := u, fr_last_data := v\<rparr>)"
    "framer_inv (f\<lparr>fr_last_data := v\<rparr>)" for u v
    using assms by (simp_all add: framer_inv_def split: framer_state.splits)
  have clk: "framer_inv (g\<lparr>fr_last_clk := v\<rparr>)" "framer_inv (g\<lparr>fr_last_edge_us := u\<rparr>)"
    "framer_inv (g\<lparr>fr_glitch_count := k\<rparr>)" if "framer_inv g" for g v u k
    using that by (simp_all add: framer_inv_def split: framer_state.splits)
  have "framer_inv (fst (ingest_sample f c d t))"
    unfolding ingest_sample_def Let_def
    by (auto split: option.split framer_state.split intro!: framer_inv_fall clk data assms)
  moreover have "framer_inv ((reset_idle f)\<lparr>fr_last_clk := u, fr_last_data := v\<rparr>)" for u v
    by (simp add: framer_inv_def reset_idle_def)
  ultimately show ?thesis
    by (simp add: ingest_def split: framer_state.split)
qed

lemma framer_inv_feed: "framer_inv f \<Longrightarrow> framer_inv (fst (feed f xs))"
proof (induction f xs rule: feed.induct)
  case (2 f c d t xs)
  from framer_inv_ingest [OF 2(2), of c d t] 2(1)
  show ?case by (auto simp: Let_def split: prod.split)
qed simp

subsection \<open>The bits of a frame\<close>

definition at_bits :: "u8 \<Rightarrow> bool list" where
  "at_bits b = [False] @ map (bit b) [0..<8] @ [even (count_ones8 b)] @ [True]"

definition xt_bits :: "u8 \<Rightarrow> bool list" where
  "xt_bits b = [True] @ map (bit b) [0..<8]"

lemma length_at_bits [simp]: "length (at_bits b) = 11"
  by (simp add: at_bits_def)

lemma length_xt_bits [simp]: "length (xt_bits b) = 9"
  by (simp add: xt_bits_def)

definition carries :: "u16 \<Rightarrow> bool list \<Rightarrow> bool" where
  "carries w bs \<longleftrightarrow> (\<forall>i. bit w i \<longleftrightarrow> i < length bs \<and> bs ! i)"

lemma carries_snoc:
  assumes "carries w bs" "length bs < 16"
  shows "carries (w OR push_bit (length bs) (of_bool d)) (bs @ [d])"
proof -
  have a: "bit (w OR push_bit (length bs) (of_bool d)) i \<longleftrightarrow> bit w i \<or> i = length bs \<and> d" for i
    using assms(2) by (intro bit_or_push) simp
  have b: "bit w i \<longleftrightarrow> i < length bs \<and> bs ! i" for i
    using assms(1) by (simp add: carries_def)
  show ?thesis
    unfolding carries_def a b by (auto simp: nth_append less_Suc_eq)
qed

lemma carries_single: "carries (of_bool d) [d]"
  by (auto simp: carries_def bit_of_bool_word)

lemma carries_data:
  assumes "carries w (x # map (bit b) [0..<8] @ ys)"
  shows "(ucast (drop_bit 1 w AND 0xFF) :: u8) = b"
proof (rule bit_word_eqI)
  fix n assume n: "n < LENGTH(8)"
  have "bit w (Suc n) \<longleftrightarrow> bit b n"
    using assms n by (simp add: carries_def nth_append)
  moreover have m: "(0xFF :: u16) = mask 8" by (simp add: mask_eq_exp_minus_1)
  ultimately show "bit (ucast (drop_bit 1 w AND 0xFF) :: u8) n \<longleftrightarrow> bit b n"
    unfolding m using n by (simp add: bit_simps)
qed

lemma and_1_bit: "(ucast (drop_bit n (w::u16) AND 1) :: u8) = of_bool (bit w n)"
  by (simp add: and_one_eq bit_iff_odd_drop_bit mod_2_eq_odd)

lemma and_1_bit0: "(ucast ((w::u16) AND 1) :: u8) = of_bool (bit w 0)"
  using and_1_bit [of 0 w] by simp

lemma parity_of_count:
  "((of_nat c + of_bool (even c) :: u8) AND 1 = 1)" "((of_nat c + of_bool p :: u8) AND 1 = 1) \<longleftrightarrow> p = even c"
  by (auto simp: and_one_eq mod_2_eq_odd)

lemma build_frame_at:
  assumes "carries (fr_assembled f) (at_bits b)"
  shows "build_frame f AT_BIT_COUNT =
    \<lparr>pf_kind = FkAt, pf_data = b, pf_parity_ok = True, pf_framing_ok = True,
     pf_start_timestamp_us = fr_frame_start_us f, pf_timing = frame_timing_of f\<rparr>"
proof -
  have bits: "bit (fr_assembled f) 9 = even (count_ones8 b)" "bit (fr_assembled f) 10"
    "\<not> bit (fr_assembled f) 0"
    using assms by (simp_all add: carries_def at_bits_def nth_append)
  have "(ucast (drop_bit 1 (fr_assembled f) AND 0xFF) :: u8) = b"
    using assms unfolding at_bits_def by (intro carries_data) simp
  then show ?thesis
    using bits by (simp add: build_frame_def Let_def and_1_bit and_1_bit0 bit_drop_bit_eq
        parity_of_count)
qed

lemma build_frame_xt:
  assumes "carries (fr_assembled f) (xt_bits b)"
  shows "build_frame f XT_BIT_COUNT =
    \<lparr>pf_kind = FkXt, pf_data = b, pf_parity_ok = True, pf_framing_ok = True,
     pf_start_timestamp_us = fr_frame_start_us f, pf_timing = frame_timing_of f\<rparr>"
proof -
  have "bit (fr_assembled f) 0"
    using assms by (simp add: carries_def xt_bits_def)
  moreover have "(ucast (drop_bit 1 (fr_assembled f) AND 0xFF) :: u8) = b"
    using assms unfolding xt_bits_def by (intro carries_data [where ys = "[]"]) simp
  ultimately show ?thesis
    by (simp add: build_frame_def Let_def and_1_bit0 XT_BIT_COUNT_def AT_BIT_COUNT_def)
qed

subsection \<open>Well-timed wires\<close>

text \<open>
  A bit on the wire as the oversampler sees it: the sample with the falling clock edge, which alone
  decides the bit, samples while the clock stays low, the rising edge, samples while it stays high.
  The data line may do anything except at the falling edge.
\<close>

record wire_cell =
  c_data :: bool
  c_fall :: u64
  c_low :: "(bool \<times> u64) list"
  c_rise_data :: bool
  c_rise :: u64
  c_high :: "(bool \<times> u64) list"

definition level :: "bool \<Rightarrow> (bool \<times> u64) list \<Rightarrow> (bool \<times> bool \<times> u64) list" where
  "level c xs = map (\<lambda>(d, t). (c, d, t)) xs"

definition cell_samples :: "wire_cell \<Rightarrow> (bool \<times> bool \<times> u64) list" where
  "cell_samples c =
     (False, c_data c, c_fall c) # level False (c_low c) @
     (True, c_rise_data c, c_rise c) # level True (c_high c)"

definition near :: "u64 \<Rightarrow> u64 \<Rightarrow> bool" where
  "near t0 t \<longleftrightarrow> unat t - unat t0 < 200"

definition gap_ok :: "u64 \<Rightarrow> u64 \<Rightarrow> bool" where
  "gap_ok e t \<longleftrightarrow> 4 \<le> (unat t - unat e) mod 2 ^ 32"

definition cell_ok :: "wire_cell \<Rightarrow> bool" where
  "cell_ok c \<longleftrightarrow> gap_ok (c_fall c) (c_rise c) \<and> near (c_fall c) (c_rise c) \<and>
     (\<forall>(d, t) \<in> set (c_low c @ c_high c). near (c_fall c) t)"

fun cells_ok :: "u64 \<Rightarrow> wire_cell list \<Rightarrow> bool" where
  "cells_ok e [] \<longleftrightarrow> True"
| "cells_ok e (c # cs) \<longleftrightarrow> gap_ok e (c_fall c) \<and> cell_ok c \<and>
     (cs \<noteq> [] \<longrightarrow> near (c_fall c) (c_fall (hd cs))) \<and> cells_ok (c_rise c) cs"

definition wire :: "wire_cell list \<Rightarrow> (bool \<times> bool \<times> u64) list" where
  "wire cs = concat (map cell_samples cs)"

lemma unat_elapsed32: "unat (elapsed32 a b) = (unat a - unat b) mod 2 ^ 32"
proof -
  have "unat (sat_sub a b) = unat a - unat b"
    by (cases "b \<le> a") (auto simp: sat_sub_def unat_sub word_le_nat_alt)
  then show ?thesis
    by (simp add: elapsed32_def unsigned_ucast_eq take_bit_eq_mod)
qed

lemma near_elapsed: "near t0 t \<Longrightarrow> \<not> IDLE_TIMEOUT_US \<le> elapsed32 t t0"
  by (simp add: near_def word_le_nat_alt unat_elapsed32 const_defs)

lemma gap_elapsed: "gap_ok e t \<longleftrightarrow> \<not> elapsed32 t e < GLITCH_THRESHOLD_US"
  by (simp add: gap_ok_def word_less_nat_alt unat_elapsed32 const_defs not_less)

definition in_time :: "framer \<Rightarrow> u64 \<Rightarrow> bool" where
  "in_time f t \<longleftrightarrow> fr_state f \<noteq> Idle \<longrightarrow> near (fr_last_falling_us f) t"

lemma ingest_in_time: "in_time f t \<Longrightarrow> ingest f c d t = ingest_sample f c d t"
  by (auto simp: ingest_def in_time_def dest: near_elapsed split: framer_state.split)

lemma ingest_hold:
  assumes "fr_last_clk f = Some c" "in_time f t"
  shows "\<exists>u v. ingest f c d t = (f\<lparr>fr_last_data_change_us := u, fr_last_data := v\<rparr>, None)"
proof (cases "fr_last_data f = Some d")
  case True
  then have "ingest f c d t = (f, None)"
    using assms by (simp add: ingest_in_time ingest_sample_def)
  then show ?thesis
    by (intro exI [of _ "fr_last_data_change_us f"] exI [of _ "fr_last_data f"]) simp
next
  case False
  then have "ingest f c d t = (f\<lparr>fr_last_data_change_us := t, fr_last_data := Some d\<rparr>, None)"
    using assms by (simp add: ingest_in_time ingest_sample_def Let_def)
  then show ?thesis by blast
qed

lemma feed_hold:
  assumes "fr_last_clk f = Some c" "\<forall>(d, t) \<in> set xs. in_time f t"
  shows "\<exists>u v. feed f (level c xs) = (f\<lparr>fr_last_data_change_us := u, fr_last_data := v\<rparr>, [])"
  using assms
proof (induction xs arbitrary: f)
  case Nil
  then show ?case
    by (intro exI [of _ "fr_last_data_change_us f"] exI [of _ "fr_last_data f"]) (simp add: level_def)
next
  case (Cons x xs)
  obtain d t where x: "x = (d, t)" by (cases x)
  obtain u v where 1: "ingest f c d t = (f\<lparr>fr_last_data_change_us := u, fr_last_data := v\<rparr>, None)"
    using ingest_hold [of f c t d] Cons.prems x by auto
  have "\<forall>(d, t) \<in> set xs. in_time (f\<lparr>fr_last_data_change_us := u, fr_last_data := v\<rparr>) t"
    using Cons.prems by (auto simp: in_time_def)
  with Cons.IH [of "f\<lparr>fr_last_data_change_us := u, fr_last_data := v\<rparr>"] Cons.prems obtain u' v'
    where "feed (f\<lparr>fr_last_data_change_us := u, fr_last_data := v\<rparr>) (level c xs) =
      (f\<lparr>fr_last_data_change_us := u', fr_last_data := v'\<rparr>, [])" by auto
  then show ?case using 1 x by (auto simp: level_def)
qed

lemma ingest_edge:
  assumes "fr_last_clk f = Some (\<not> c)" "in_time f t" "gap_ok (fr_last_edge_us f) t"
  shows "\<exists>u v. ingest f c d t =
    (if c then (f\<lparr>fr_last_data_change_us := u, fr_last_data := v, fr_last_clk := Some c,
                  fr_last_edge_us := t\<rparr>, None)
     else on_clk_fall (f\<lparr>fr_last_data_change_us := u, fr_last_data := v, fr_last_clk := Some c,
                  fr_last_edge_us := t\<rparr>) d t)"
proof (cases "fr_last_data f = Some d")
  case True
  have "ingest f c d t = ingest_sample f c d t" "\<not> elapsed32 t (fr_last_edge_us f) < GLITCH_THRESHOLD_US"
    using assms by (simp_all add: ingest_in_time gap_elapsed)
  then show ?thesis
    using True assms(1)
    by (intro exI [of _ "fr_last_data_change_us f"] exI [of _ "fr_last_data f"])
      (cases f, auto simp: ingest_sample_def Let_def)
next
  case False
  then show ?thesis
    using assms
    by (intro exI [of _ t] exI [of _ "Some d"])
      (auto simp: ingest_in_time ingest_sample_def Let_def gap_elapsed)
qed

lemma feed_append: "feed f (xs @ ys) =
    (fst (feed (fst (feed f xs)) ys), snd (feed f xs) @ snd (feed (fst (feed f xs)) ys))"
  by (induction f xs rule: feed.induct) (auto simp: Let_def split: prod.splits option.splits)

text \<open>Between frames, and inside one that has delivered the bits \<open>bs\<close>.\<close>

definition idle_at :: "framer \<Rightarrow> u64 \<Rightarrow> bool" where
  "idle_at f e \<longleftrightarrow> fr_state f = Idle \<and> fr_last_clk f = Some True \<and> fr_last_edge_us f = e"

definition mid_frame :: "framer \<Rightarrow> bool list \<Rightarrow> u64 \<Rightarrow> u64 \<Rightarrow> u64 \<Rightarrow> bool" where
  "mid_frame f bs start t0 e \<longleftrightarrow>
     fr_state f = Receiving (length bs) \<and> carries (fr_assembled f) bs \<and> bs \<noteq> [] \<and>
     fr_glitch_count f = 0 \<and> fr_frame_start_us f = start \<and> fr_last_falling_us f = t0 \<and>
     fr_last_clk f = Some True \<and> fr_last_edge_us f = e"

text \<open>The rest of a cell after its falling edge has been taken.\<close>

lemma feed_cell_tail:
  assumes "cell_ok c" "fr_last_clk f = Some False" "fr_last_edge_us f = c_fall c"
    "fr_state f \<noteq> Idle \<Longrightarrow> fr_last_falling_us f = c_fall c"
  shows "\<exists>u v. feed f (level False (c_low c) @ (True, c_rise_data c, c_rise c) # level True (c_high c)) =
    (f\<lparr>fr_last_data_change_us := u, fr_last_data := v, fr_last_clk := Some True,
       fr_last_edge_us := c_rise c\<rparr>, [])"
proof -
  have time: "in_time g t" if "near (c_fall c) t" "fr_state g = fr_state f"
    "fr_last_falling_us g = fr_last_falling_us f" for g t
    using assms(4) that by (auto simp: in_time_def)
  have low: "\<forall>(d, t) \<in> set (c_low c). in_time f t"
    using assms(1) by (auto simp: cell_ok_def intro!: time)
  have high: "\<forall>(d, t) \<in> set (c_high c). in_time g t" if "fr_state g = fr_state f"
    "fr_last_falling_us g = fr_last_falling_us f" for g
    using assms(1) that by (auto simp: cell_ok_def intro!: time)
  obtain u v where 1: "feed f (level False (c_low c)) =
      (f\<lparr>fr_last_data_change_us := u, fr_last_data := v\<rparr>, [])"
    using feed_hold [OF assms(2) low] by blast
  let ?f1 = "f\<lparr>fr_last_data_change_us := u, fr_last_data := v\<rparr>"
  have "in_time ?f1 (c_rise c)"
    using assms(1) by (auto simp: cell_ok_def intro!: time)
  then obtain u2 v2 where 2: "ingest ?f1 True (c_rise_data c) (c_rise c) =
      (?f1\<lparr>fr_last_data_change_us := u2, fr_last_data := v2, fr_last_clk := Some True,
           fr_last_edge_us := c_rise c\<rparr>, None)"
    using ingest_edge [of ?f1 True "c_rise c" "c_rise_data c"] assms
    by (auto simp: cell_ok_def intro!: time)
  let ?f2 = "f\<lparr>fr_last_data_change_us := u2, fr_last_data := v2, fr_last_clk := Some True,
           fr_last_edge_us := c_rise c\<rparr>"
  obtain u3 v3 where 3: "feed ?f2 (level True (c_high c)) =
      (?f2\<lparr>fr_last_data_change_us := u3, fr_last_data := v3\<rparr>, [])"
    using feed_hold [of ?f2 True "c_high c"] high [of ?f2] by auto
  show ?thesis
    using 1 2 3 by (intro exI [of _ u3] exI [of _ v3]) (simp add: feed_append)
qed

lemma on_clk_fall_keeps:
  "fr_last_clk (fst (on_clk_fall f d t)) = fr_last_clk f"
  "fr_last_edge_us (fst (on_clk_fall f d t)) = fr_last_edge_us f"
  by (auto simp: on_clk_fall_def Let_def reset_idle_def split: framer_state.split)

text \<open>One cell, from its falling edge on.\<close>

lemma feed_cell:
  assumes c: "cell_ok c" and e: "gap_ok (fr_last_edge_us f) (c_fall c)"
    and clk: "fr_last_clk f = Some True" and time: "in_time f (c_fall c)"
  obtains u v u' v' where
    "fst (feed f (cell_samples c)) =
      (fst (on_clk_fall (f\<lparr>fr_last_data_change_us := u, fr_last_data := v, fr_last_clk := Some False,
                          fr_last_edge_us := c_fall c\<rparr>) (c_data c) (c_fall c)))
        \<lparr>fr_last_data_change_us := u', fr_last_data := v', fr_last_clk := Some True,
         fr_last_edge_us := c_rise c\<rparr>"
    "snd (feed f (cell_samples c)) =
      (case snd (on_clk_fall (f\<lparr>fr_last_data_change_us := u, fr_last_data := v,
            fr_last_clk := Some False, fr_last_edge_us := c_fall c\<rparr>) (c_data c) (c_fall c)) of
         Some x \<Rightarrow> [x] | None \<Rightarrow> [])"
proof -
  obtain u v where 1: "ingest f False (c_data c) (c_fall c) =
      on_clk_fall (f\<lparr>fr_last_data_change_us := u, fr_last_data := v, fr_last_clk := Some False,
                          fr_last_edge_us := c_fall c\<rparr>) (c_data c) (c_fall c)"
    using ingest_edge [of f False "c_fall c" "c_data c"] clk e time by auto
  let ?f = "f\<lparr>fr_last_data_change_us := u, fr_last_data := v, fr_last_clk := Some False,
              fr_last_edge_us := c_fall c\<rparr>"
  obtain g r where gr: "on_clk_fall ?f (c_data c) (c_fall c) = (g, r)"
    by (cases "on_clk_fall ?f (c_data c) (c_fall c)")
  have keep: "fr_last_clk g = Some False" "fr_last_edge_us g = c_fall c"
    using on_clk_fall_keeps [of ?f "c_data c" "c_fall c"] gr by simp_all
  have "fr_state g \<noteq> Idle \<Longrightarrow> fr_last_falling_us g = c_fall c"
    using gr by (auto simp: on_clk_fall_def Let_def reset_idle_def split: framer_state.splits if_splits)
  from feed_cell_tail [OF c keep this] obtain u' v' where
    "feed g (level False (c_low c) @ (True, c_rise_data c, c_rise c) # level True (c_high c)) =
      (g\<lparr>fr_last_data_change_us := u', fr_last_data := v', fr_last_clk := Some True,
         fr_last_edge_us := c_rise c\<rparr>, [])" by blast
  then show thesis
    using that [of v' u' v u] 1 gr by (simp add: cell_samples_def Let_def split: option.split)
qed

lemma feed_first_cell:
  assumes "idle_at f e" "cell_ok c" "gap_ok e (c_fall c)"
  shows "snd (feed f (cell_samples c)) = [] \<and>
    mid_frame (fst (feed f (cell_samples c))) [c_data c] (c_fall c) (c_fall c) (c_rise c)"
proof -
  have pre: "gap_ok (fr_last_edge_us f) (c_fall c)" "fr_last_clk f = Some True"
    "in_time f (c_fall c)" and idle: "fr_state f = Idle"
    using assms by (simp_all add: idle_at_def in_time_def)
  show ?thesis
    by (rule feed_cell [OF assms(2) pre])
      (use idle in \<open>simp add: mid_frame_def on_clk_fall_def Let_def carries_single\<close>)
qed

lemma feed_next_cell:
  assumes "mid_frame f bs start t0 e" "cell_ok c" "gap_ok e (c_fall c)" "near t0 (c_fall c)"
    "length bs < 10"
  shows "snd (feed f (cell_samples c)) = [] \<and>
    mid_frame (fst (feed f (cell_samples c))) (bs @ [c_data c]) start (c_fall c) (c_rise c)"
proof -
  have pre: "gap_ok (fr_last_edge_us f) (c_fall c)" "fr_last_clk f = Some True"
    "in_time f (c_fall c)"
    using assms by (simp_all add: mid_frame_def in_time_def)
  show ?thesis
    by (rule feed_cell [OF assms(2) pre])
      (use assms(1,5) in \<open>simp add: mid_frame_def on_clk_fall_def Let_def carries_snoc AT_BIT_COUNT_def\<close>)
qed

lemma on_clk_fall_last:
  assumes "fr_state f = Receiving 10"
  shows "\<exists>g. on_clk_fall f d t = (reset_idle g, Some (build_frame g AT_BIT_COUNT)) \<and>
    fr_assembled g = fr_assembled f OR push_bit 10 (of_bool d) \<and>
    fr_frame_start_us g = fr_frame_start_us f \<and> fr_glitch_count g = fr_glitch_count f"
  by (intro exI [of _ "(if 10 \<le> length (fr_periods_us f)
        then f\<lparr>fr_periods_us := (fr_periods_us f)
               [10 - 1 := ucast (sat_sub t (fr_last_falling_us f))]\<rparr> else f)
      \<lparr>fr_last_falling_us := t, fr_assembled := fr_assembled f OR push_bit 10 (of_bool d),
       fr_state := Receiving 11\<rparr>"])
    (simp add: assms on_clk_fall_def Let_def AT_BIT_COUNT_def)

lemma feed_last_cell:
  assumes "mid_frame f bs start t0 e" "cell_ok c" "gap_ok e (c_fall c)" "near t0 (c_fall c)"
    "length bs = 10"
  obtains g where "carries (fr_assembled g) (bs @ [c_data c])" "fr_frame_start_us g = start"
    "fr_glitch_count g = 0"
    "snd (feed f (cell_samples c)) = [build_frame g AT_BIT_COUNT]"
    "idle_at (fst (feed f (cell_samples c))) (c_rise c)"
proof -
  have pre: "gap_ok (fr_last_edge_us f) (c_fall c)" "fr_last_clk f = Some True"
    "in_time f (c_fall c)"
    using assms by (simp_all add: mid_frame_def in_time_def)
  obtain u v u' v' where r: "fst (feed f (cell_samples c)) =
      (fst (on_clk_fall (f\<lparr>fr_last_data_change_us := u, fr_last_data := v, fr_last_clk := Some False,
                          fr_last_edge_us := c_fall c\<rparr>) (c_data c) (c_fall c)))
        \<lparr>fr_last_data_change_us := u', fr_last_data := v', fr_last_clk := Some True,
         fr_last_edge_us := c_rise c\<rparr>"
    "snd (feed f (cell_samples c)) =
      (case snd (on_clk_fall (f\<lparr>fr_last_data_change_us := u, fr_last_data := v,
            fr_last_clk := Some False, fr_last_edge_us := c_fall c\<rparr>) (c_data c) (c_fall c)) of
         Some x \<Rightarrow> [x] | None \<Rightarrow> [])"
    by (rule feed_cell [OF assms(2) pre])
  let ?f = "f\<lparr>fr_last_data_change_us := u, fr_last_data := v, fr_last_clk := Some False,
              fr_last_edge_us := c_fall c\<rparr>"
  have "fr_state ?f = Receiving 10" using assms(1,5) by (simp add: mid_frame_def)
  from on_clk_fall_last [OF this, of "c_data c" "c_fall c"] obtain g
    where g: "on_clk_fall ?f (c_data c) (c_fall c) = (reset_idle g, Some (build_frame g AT_BIT_COUNT))"
      "fr_assembled g = fr_assembled f OR push_bit 10 (of_bool (c_data c))"
      "fr_frame_start_us g = fr_frame_start_us f" "fr_glitch_count g = fr_glitch_count f"
    by auto
  have "carries (fr_assembled f) bs" using assms(1) by (simp add: mid_frame_def)
  then have "carries (fr_assembled g) (bs @ [c_data c])"
    unfolding g(2) by (rule carries_snoc [of _ bs, unfolded assms(5)]) simp
  moreover have "fr_frame_start_us g = start" "fr_glitch_count g = 0"
    using g(3,4) assms(1) by (simp_all add: mid_frame_def)
  moreover have "snd (feed f (cell_samples c)) = [build_frame g AT_BIT_COUNT]"
    unfolding r(2) g(1) by simp
  moreover have "idle_at (fst (feed f (cell_samples c))) (c_rise c)"
    unfolding r(1) g(1) by (simp add: idle_at_def reset_idle_def)
  ultimately show thesis by (rule that)
qed

lemma wire_simps [simp]:
  "wire [] = []" "wire (c # cs) = cell_samples c @ wire cs" "wire (cs @ ds) = wire cs @ wire ds"
  by (simp_all add: wire_def)

lemma cells_ok_append:
  "cells_ok e (cs @ ds) \<Longrightarrow> cells_ok e cs \<and> cells_ok (if cs = [] then e else c_rise (last cs)) ds \<and>
     (cs \<noteq> [] \<longrightarrow> ds \<noteq> [] \<longrightarrow> near (c_fall (last cs)) (c_fall (hd ds)))"
  by (induction cs arbitrary: e) (auto split: if_splits)

lemma feed_mid_cells:
  assumes "mid_frame f bs start t0 e" "cells_ok e cs" "cs \<noteq> [] \<Longrightarrow> near t0 (c_fall (hd cs))"
    "length bs + length cs \<le> 10"
  shows "snd (feed f (wire cs)) = [] \<and>
    mid_frame (fst (feed f (wire cs))) (bs @ map c_data cs) start
      (if cs = [] then t0 else c_fall (last cs)) (if cs = [] then e else c_rise (last cs))"
  using assms
proof (induction cs arbitrary: f bs t0 e)
  case Nil
  then show ?case by simp
next
  case (Cons c cs)
  from Cons.prems have c: "cell_ok c" "gap_ok e (c_fall c)" "near t0 (c_fall c)" "length bs < 10"
    and cs: "cells_ok (c_rise c) cs" "cs \<noteq> [] \<Longrightarrow> near (c_fall c) (c_fall (hd cs))"
    by auto
  from feed_next_cell [OF Cons.prems(1) c] Cons.prems(4)
    Cons.IH [OF _ cs, of "fst (feed f (cell_samples c))" "bs @ [c_data c]"]
  show ?case by (auto simp: feed_append)
qed

lemma feed_bits:
  assumes "idle_at f e" "cells_ok e cs" "cs \<noteq> []" "length cs \<le> 10"
  shows "snd (feed f (wire cs)) = [] \<and>
    mid_frame (fst (feed f (wire cs))) (map c_data cs) (c_fall (hd cs)) (c_fall (last cs)) (c_rise (last cs))"
proof -
  obtain c ds where cs: "cs = c # ds" using assms(3) by (cases cs) auto
  have c: "cell_ok c" "gap_ok e (c_fall c)" "cells_ok (c_rise c) ds"
    "ds \<noteq> [] \<Longrightarrow> near (c_fall c) (c_fall (hd ds))"
    using assms(2) cs by auto
  from feed_first_cell [OF assms(1) c(1,2)] assms(4) cs
    feed_mid_cells [OF _ c(3,4), of "fst (feed f (cell_samples c))" "[c_data c]" "c_fall c"]
  show ?thesis by (auto simp: cs feed_append)
qed

lemma feed_at:
  assumes "idle_at f e" "cells_ok e cs" "map c_data cs = at_bits b"
  shows "\<exists>tm. snd (feed f (wire cs)) =
      [\<lparr>pf_kind = FkAt, pf_data = b, pf_parity_ok = True, pf_framing_ok = True,
        pf_start_timestamp_us = c_fall (hd cs), pf_timing = tm\<rparr>] \<and> glitch_count tm = 0 \<and>
    idle_at (fst (feed f (wire cs))) (c_rise (last cs))"
proof -
  have len: "length cs = 11" using arg_cong [OF assms(3), of length] by simp
  then obtain ds c where cs: "cs = ds @ [c]" by (cases cs rule: rev_cases) auto
  then have ds: "length ds = 10" using len by simp
  then have ne: "ds \<noteq> []" by auto
  from assms(2) ne cs have ok: "cells_ok e ds" "gap_ok (c_rise (last ds)) (c_fall c)" "cell_ok c"
    "near (c_fall (last ds)) (c_fall c)"
    using cells_ok_append [of e ds "[c]"] by auto
  from feed_bits [OF assms(1) ok(1) ne] ds
  have pre: "snd (feed f (wire ds)) = []"
    "mid_frame (fst (feed f (wire ds))) (map c_data ds) (c_fall (hd ds)) (c_fall (last ds)) (c_rise (last ds))"
    by auto
  obtain g where g: "carries (fr_assembled g) (map c_data ds @ [c_data c])"
    "fr_frame_start_us g = c_fall (hd ds)" "fr_glitch_count g = 0"
    "snd (feed (fst (feed f (wire ds))) (cell_samples c)) = [build_frame g AT_BIT_COUNT]"
    "idle_at (fst (feed (fst (feed f (wire ds))) (cell_samples c))) (c_rise c)"
    by (rule feed_last_cell [OF pre(2) ok(3,2,4)]) (use ds in auto)
  have "carries (fr_assembled g) (at_bits b)" using g(1) assms(3) cs by simp
  from build_frame_at [OF this] g pre(1) ne show ?thesis
    by (intro exI [of _ "frame_timing_of g"]) (simp add: cs feed_append frame_timing_of_def)
qed

text \<open>
  An XT frame has no stop bit: it is delivered by the first sample at least 200 microseconds after
  the last falling edge.
\<close>

lemma feed_xt:
  assumes "idle_at f e" "cells_ok e cs" "map c_data cs = xt_bits b"
    "\<forall>(d, t) \<in> set hold. near (c_fall (last cs)) t"
    "200 \<le> (unat t - unat (c_fall (last cs))) mod 2 ^ 32"
  shows "\<exists>tm. snd (feed f (wire cs @ level True hold @ [(True, d, t)])) =
      [\<lparr>pf_kind = FkXt, pf_data = b, pf_parity_ok = True, pf_framing_ok = True,
        pf_start_timestamp_us = c_fall (hd cs), pf_timing = tm\<rparr>] \<and> glitch_count tm = 0 \<and>
    idle_at (fst (feed f (wire cs @ level True hold @ [(True, d, t)]))) (c_rise (last cs))"
proof -
  have len: "length cs = 9" using arg_cong [OF assms(3), of length] by simp
  then have ne: "cs \<noteq> []" by auto
  let ?f = "fst (feed f (wire cs))"
  have pre: "snd (feed f (wire cs)) = []"
    "mid_frame ?f (xt_bits b) (c_fall (hd cs)) (c_fall (last cs)) (c_rise (last cs))"
    using feed_bits [OF assms(1,2) ne] len assms(3) by auto
  have "\<forall>(d, t) \<in> set hold. in_time ?f t"
    using assms(4) pre(2) by (auto simp: in_time_def mid_frame_def)
  with feed_hold [of ?f True hold] pre(2) obtain u v
    where h: "feed ?f (level True hold) = (?f\<lparr>fr_last_data_change_us := u, fr_last_data := v\<rparr>, [])"
    by (auto simp: mid_frame_def)
  let ?g = "?f\<lparr>fr_last_data_change_us := u, fr_last_data := v\<rparr>"
  have g: "fr_state ?g = Receiving 9" "carries (fr_assembled ?g) (xt_bits b)"
    "fr_last_falling_us ?g = c_fall (last cs)" "fr_glitch_count ?g = 0"
    "fr_frame_start_us ?g = c_fall (hd cs)" "fr_last_edge_us ?g = c_rise (last cs)"
    using pre(2) by (simp_all add: mid_frame_def)
  have "bit (fr_assembled ?g) 0" using g(2) by (simp add: carries_def xt_bits_def)
  then have one: "fr_assembled ?g AND 1 \<noteq> 0"
    by (auto simp: and_one_eq mod_2_eq_odd bit_0)
  have late: "IDLE_TIMEOUT_US \<le> elapsed32 t (fr_last_falling_us ?g)"
    unfolding g(3) word_le_nat_alt unat_elapsed32 using assms(5) by (simp add: const_defs)
  have "emit_on_timeout ?g 9 = Some (build_frame ?g XT_BIT_COUNT)"
    using one by (simp add: emit_on_timeout_def XT_BIT_COUNT_def AT_BIT_COUNT_def)
  then have "ingest ?g True d t =
      ((reset_idle ?g)\<lparr>fr_last_clk := Some True, fr_last_data := Some d\<rparr>, Some (build_frame ?g XT_BIT_COUNT))"
    unfolding ingest_def g(1) using late by simp
  then have step: "feed ?g [(True, d, t)] =
      ((reset_idle ?g)\<lparr>fr_last_clk := Some True, fr_last_data := Some d\<rparr>, [build_frame ?g XT_BIT_COUNT])"
    by simp
  have all: "feed f (wire cs @ level True hold @ [(True, d, t)]) = feed ?g [(True, d, t)]"
    by (simp only: feed_append pre(1) h fst_conv snd_conv append_Nil prod.collapse)
  have "idle_at ((reset_idle ?g)\<lparr>fr_last_clk := Some True, fr_last_data := Some d\<rparr>) (c_rise (last cs))"
    using g(6) by (simp add: idle_at_def reset_idle_def)
  then show ?thesis
    unfolding all step build_frame_xt [OF g(2)] g(5) using g(4)
    by (intro exI [of _ "frame_timing_of ?g"]) (simp add: frame_timing_of_def)
qed

subsection \<open>Packed words\<close>

lemma pack_at_bit:
  assumes "i < 32"
  shows "bit (pack_at_frame b) i \<longleftrightarrow>
    11 \<le> i \<or> i = 10 \<or> (i = 9 \<and> even (count_ones8 b)) \<or> (1 \<le> i \<and> bit b (i - 1))"
proof -
  have pad: "(0xFFFFF800 :: u32) = NOT (mask 11)" by (simp add: mask_eq_exp_minus_1)
  have par: "(if count_ones8 b mod 2 = 0 then 1 else 0) = (of_bool (even (count_ones8 b)) :: u32)"
    by (simp add: even_iff_mod_2_eq_zero)
  have one: "(1 :: u32) = of_bool True" by simp
  have "bit b (i - 1) \<Longrightarrow> i - 1 < 8" by (auto dest: bit_imp_le_length)
  then show ?thesis
    using assms unfolding pack_at_frame_def Let_def pad par
    by (subst one) (auto simp only: bit_or_iff bit_push_bit_iff bit_not_iff bit_mask_iff
        bit_of_bool_word bit_ucast_iff, auto)
qed

lemma pack_xt_bit:
  assumes "i < 32"
  shows "bit (pack_xt_frame b) i \<longleftrightarrow> 9 \<le> i \<or> i = 0 \<or> (1 \<le> i \<and> bit b (i - 1))"
proof -
  have pad: "(0xFFFFFE00 :: u32) = NOT (mask 9)" by (simp add: mask_eq_exp_minus_1)
  have one: "(1 :: u32) = of_bool True" by simp
  have "bit b (i - 1) \<Longrightarrow> i - 1 < 8" by (auto dest: bit_imp_le_length)
  then show ?thesis
    using assms unfolding pack_xt_frame_def Let_def pad
    by (subst one) (auto simp only: bit_or_iff bit_push_bit_iff bit_not_iff bit_mask_iff
        bit_of_bool_word bit_ucast_iff, auto)
qed

lemma pack_at_bits: "map (bit (pack_at_frame b)) [0..<11] = at_bits b"
  by (rule nth_equalityI) (auto simp: at_bits_def nth_append pack_at_bit nth_Cons' less_Suc_eq
      dest: bit_imp_le_length)

lemma pack_xt_bits: "map (bit (pack_xt_frame b)) [0..<9] = xt_bits b"
  by (rule nth_equalityI) (auto simp: xt_bits_def pack_xt_bit nth_Cons')

subsection \<open>Streams of frames\<close>

text \<open>What arrives: the bits of a packed word, well timed; an XT frame with the silence after it.\<close>

datatype wire_frame =
    AtWire u8 "wire_cell list"
  | XtWire u8 "wire_cell list" "(bool \<times> u64) list" bool u64

fun wf_samples :: "wire_frame \<Rightarrow> (bool \<times> bool \<times> u64) list" where
  "wf_samples (AtWire b cs) = wire cs"
| "wf_samples (XtWire b cs hold d t) = wire cs @ level True hold @ [(True, d, t)]"

fun wf_end :: "wire_frame \<Rightarrow> u64" where
  "wf_end (AtWire b cs) = c_rise (last cs)"
| "wf_end (XtWire b cs hold d t) = c_rise (last cs)"

fun wf_meaning :: "wire_frame \<Rightarrow> frame_kind \<times> u8 \<times> bool \<times> bool \<times> u8" where
  "wf_meaning (AtWire b cs) = (FkAt, b, True, True, 0)"
| "wf_meaning (XtWire b cs hold d t) = (FkXt, b, True, True, 0)"

fun wf_ok :: "u64 \<Rightarrow> wire_frame \<Rightarrow> bool" where
  "wf_ok e (AtWire b cs) \<longleftrightarrow> cells_ok e cs \<and> map c_data cs = map (bit (pack_at_frame b)) [0..<11]"
| "wf_ok e (XtWire b cs hold d t) \<longleftrightarrow> cells_ok e cs \<and>
     map c_data cs = map (bit (pack_xt_frame b)) [0..<9] \<and>
     (\<forall>(d, t) \<in> set hold. near (c_fall (last cs)) t) \<and>
     200 \<le> (unat t - unat (c_fall (last cs))) mod 2 ^ 32"

fun stream_ok :: "u64 \<Rightarrow> wire_frame list \<Rightarrow> bool" where
  "stream_ok e [] \<longleftrightarrow> True"
| "stream_ok e (w # ws) \<longleftrightarrow> wf_ok e w \<and> stream_ok (wf_end w) ws"

definition meaning :: "ps2_frame \<Rightarrow> frame_kind \<times> u8 \<times> bool \<times> bool \<times> u8" where
  "meaning p = (pf_kind p, pf_data p, pf_parity_ok p, pf_framing_ok p, glitch_count (pf_timing p))"

lemma feed_wire_frame:
  assumes "idle_at f e" "wf_ok e w"
  shows "map meaning (snd (feed f (wf_samples w))) = [wf_meaning w] \<and>
    idle_at (fst (feed f (wf_samples w))) (wf_end w)"
proof (cases w)
  case (AtWire b cs)
  with assms have "cells_ok e cs" "map c_data cs = at_bits b" by (simp_all only: wf_ok.simps pack_at_bits)
  from feed_at [OF assms(1) this] show ?thesis by (auto simp: AtWire meaning_def)
next
  case (XtWire b cs hold d t)
  with assms have "cells_ok e cs" "map c_data cs = xt_bits b"
    "\<forall>(d, t) \<in> set hold. near (c_fall (last cs)) t"
    "200 \<le> (unat t - unat (c_fall (last cs))) mod 2 ^ 32" by (auto simp: pack_xt_bits)
  from feed_xt [OF assms(1) this, of d] show ?thesis by (auto simp: XtWire meaning_def)
qed

lemma feed_wire_frames:
  assumes "idle_at f e" "stream_ok e ws"
  shows "map meaning (snd (feed f (concat (map wf_samples ws)))) = map wf_meaning ws"
  using assms
proof (induction ws arbitrary: f e)
  case (Cons w ws)
  from feed_wire_frame [OF Cons.prems(1), of w] Cons.prems(2)
    Cons.IH [of "fst (feed f (wf_samples w))" "wf_end w"]
  show ?case by (simp add: feed_append)
qed simp

text \<open>
  C16. Wire decoding.  Any sequence of packed AT and XT frames, sent with every clock phase at least
  4 microseconds long and less than 200 microseconds between the falling edges of a frame, an XT frame
  being followed by 200 microseconds of silence, is decoded to exactly its bytes, in order, each frame
  in its format with good parity and framing.  The data line matters at falling edges only.
\<close>

theorem framer_decodes_packed:
  assumes "idle_at f e" "stream_ok e ws"
  shows "map meaning (snd (feed f (concat (map wf_samples ws)))) = map wf_meaning ws"
  using assms by (rule feed_wire_frames)

definition example_cells :: "bool list \<Rightarrow> u64 \<Rightarrow> wire_cell list" where
  "example_cells bs t =
     map (\<lambda>i. \<lparr>c_data = bs ! i, c_fall = t + of_nat (80 * i), c_low = [], c_rise_data = bs ! i,
               c_rise = t + of_nat (80 * i) + 40, c_high = []\<rparr>) [0..<length bs]"

theorem framer_decodes_packed_witness:
  "map meaning (snd (feed (framer_new\<lparr>fr_last_clk := Some True\<rparr>)
     (concat (map wf_samples
        [AtWire 0x1C (example_cells (map (bit (pack_at_frame 0x1C)) [0..<11]) 100),
         XtWire 0x1E (example_cells (map (bit (pack_xt_frame 0x1E)) [0..<9]) 2000) [] True 3000])))) =
   [(FkAt, 0x1C, True, True, 0), (FkXt, 0x1E, True, True, 0)]"
  by (subst framer_decodes_packed [where e = 0])
    (simp_all add: idle_at_def framer_new_def example_cells_def upt_rec cell_ok_def gap_ok_def near_def)

subsection \<open>Glitches\<close>

text \<open>An edge that follows the last one too fast changes nothing but the edge time and the count.\<close>

lemma ingest_glitch:
  assumes "fr_last_clk f = Some (\<not> c)" "in_time f t" "\<not> gap_ok (fr_last_edge_us f) t"
  shows "snd (ingest f c d t) = None \<and> fr_state (fst (ingest f c d t)) = fr_state f \<and>
    fr_assembled (fst (ingest f c d t)) = fr_assembled f \<and>
    fr_glitch_count (fst (ingest f c d t)) =
      (if fr_state f = Idle then fr_glitch_count f else saturating_inc (fr_glitch_count f))"
  using assms
  by (auto simp: ingest_in_time ingest_sample_def Let_def gap_elapsed split: framer_state.split)

text \<open>
  Glitch filter.  A pulse shorter than 4 microseconds is filtered when the clock was low: a rising
  edge and the falling edge right after it leave the bits alone.  But a low pulse of the same length
  while the clock is high is not: its falling edge takes a bit, and only the returning edge is counted
  as a glitch.
\<close>

theorem glitch_filter_one_sided:
  assumes "fr_state f = Receiving n" "n < 10" "gap_ok (fr_last_edge_us f) t" "\<not> gap_ok t t'"
    "near (fr_last_falling_us f) t" "near (fr_last_falling_us f) t'" "fr_last_falling_us f \<le> t"
  shows "(fr_last_clk f = Some False \<longrightarrow>
            fr_state (fst (feed f [(True, d, t), (False, d', t')])) = Receiving n \<and>
            fr_assembled (fst (feed f [(True, d, t), (False, d', t')])) = fr_assembled f \<and>
            fr_glitch_count (fst (feed f [(True, d, t), (False, d', t')])) = saturating_inc (fr_glitch_count f))
       \<and> (fr_last_clk f = Some True \<longrightarrow>
            fr_state (fst (feed f [(False, d, t), (True, d', t')])) = Receiving (n + 1) \<and>
            fr_assembled (fst (feed f [(False, d, t), (True, d', t')])) =
              fr_assembled f OR push_bit n (of_bool d) \<and>
            fr_glitch_count (fst (feed f [(False, d, t), (True, d', t')])) = saturating_inc (fr_glitch_count f))"
proof (intro conjI impI)
  have time: "in_time f t" using assms(5) by (simp add: in_time_def)
  have fst2: "fst (feed f [(a, d, t), (b, d', t')]) = fst (ingest (fst (ingest f a d t)) b d' t')" for a b
    by (simp add: Let_def split: prod.split)
  {
    assume "fr_last_clk f = Some False"
    then obtain u v where "ingest f True d t = (f\<lparr>fr_last_data_change_us := u, fr_last_data := v,
        fr_last_clk := Some True, fr_last_edge_us := t\<rparr>, None)"
      using ingest_edge [of f True t d] time assms(3) by auto
    then have g: "fr_last_clk (fst (ingest f True d t)) = Some (\<not> False)"
      "fr_last_edge_us (fst (ingest f True d t)) = t" "fr_state (fst (ingest f True d t)) = Receiving n"
      "fr_last_falling_us (fst (ingest f True d t)) = fr_last_falling_us f"
      "fr_assembled (fst (ingest f True d t)) = fr_assembled f"
      "fr_glitch_count (fst (ingest f True d t)) = fr_glitch_count f"
      using assms(1) by simp_all
    have "in_time (fst (ingest f True d t)) t'" using g(4) assms(6) by (simp add: in_time_def)
    from ingest_glitch [OF g(1) this, of d'] g assms(4)
    show "fr_state (fst (feed f [(True, d, t), (False, d', t')])) = Receiving n"
      "fr_assembled (fst (feed f [(True, d, t), (False, d', t')])) = fr_assembled f"
      "fr_glitch_count (fst (feed f [(True, d, t), (False, d', t')])) = saturating_inc (fr_glitch_count f)"
      unfolding fst2 by simp_all
  next
    assume "fr_last_clk f = Some True"
    then obtain u v where i: "ingest f False d t = on_clk_fall (f\<lparr>fr_last_data_change_us := u,
        fr_last_data := v, fr_last_clk := Some False, fr_last_edge_us := t\<rparr>) d t"
      using ingest_edge [of f False t d] time assms(3) by auto
    have g: "fr_last_clk (fst (ingest f False d t)) = Some (\<not> True)"
      "fr_last_edge_us (fst (ingest f False d t)) = t"
      "fr_state (fst (ingest f False d t)) = Receiving (n + 1)"
      "fr_last_falling_us (fst (ingest f False d t)) = t"
      "fr_assembled (fst (ingest f False d t)) = fr_assembled f OR push_bit n (of_bool d)"
      "fr_glitch_count (fst (ingest f False d t)) = fr_glitch_count f"
      unfolding i using assms(1,2) by (simp_all add: on_clk_fall_def Let_def AT_BIT_COUNT_def)
    have "unat t' - unat t < 200" using assms(6,7) by (simp add: near_def word_le_nat_alt)
    then have "in_time (fst (ingest f False d t)) t'" using g(4) by (simp add: in_time_def near_def)
    from ingest_glitch [OF g(1) this, of d'] g assms(4)
    show "fr_state (fst (feed f [(False, d, t), (True, d', t')])) = Receiving (n + 1)"
      "fr_assembled (fst (feed f [(False, d, t), (True, d', t')])) =
         fr_assembled f OR push_bit n (of_bool d)"
      "fr_glitch_count (fst (feed f [(False, d, t), (True, d', t')])) = saturating_inc (fr_glitch_count f)"
      unfolding fst2 by simp_all
  }
qed

theorem glitch_filter_one_sided_witness:
  "fr_state (fst (feed (framer_new\<lparr>fr_state := Receiving 3, fr_last_clk := Some True,
      fr_last_edge_us := 40, fr_last_falling_us := 10\<rparr>) [(False, True, 50), (True, True, 51)])) =
   Receiving 4"
  using glitch_filter_one_sided [of "framer_new\<lparr>fr_state := Receiving 3, fr_last_clk := Some True,
      fr_last_edge_us := 40, fr_last_falling_us := 10\<rparr>" 3 50 51 True True]
  by (simp add: gap_ok_def near_def framer_new_def word_le_nat_alt)

end
