(* ===== verification/Classifier.thy ===== *)
theory Classifier
  imports Framer
begin

text \<open>
  The host classifier (\<^verbatim>\<open>crates/ps2-framer/src/classifier.rs\<close>), the supervisor that drives it
  (\<^verbatim>\<open>firmware/src/ps2/supervisor.rs\<close>), the lifecycle cell (\<^verbatim>\<open>lifecycle.rs\<close>) and the indicator's
  animation table (\<^verbatim>\<open>status/animations.rs\<close>, \<^verbatim>\<open>status/neopixel.rs\<close>) and the heartbeat (\<^verbatim>\<open>status/heartbeat.rs\<close>).  The lemmas show that the
  classifier's state is a function of the trailing run of like frames, and what the supervisor may do
  to the lifecycle.
\<close>

datatype machine_class = Xt | At | Ps2

definition CONFIDENCE_THRESHOLD :: u8 where [const_defs]: "CONFIDENCE_THRESHOLD = 3"

datatype classifier =
    Unknown
  | XtCandidate u8
  | AtCandidate u8
  | Confirmed machine_class

datatype classifier_event = Detected machine_class | Reset

definition classifier_new :: classifier where
  "classifier_new = Unknown"

definition classifier_class :: "classifier \<Rightarrow> machine_class option" where
  "classifier_class c = (case c of Confirmed m \<Rightarrow> Some m | _ \<Rightarrow> None)"

fun observe_at :: "classifier \<Rightarrow> classifier \<times> classifier_event option" where
  "observe_at Unknown = (AtCandidate 1, None)"
| "observe_at (AtCandidate streak) =
     (let streak = saturating_inc streak in
      if streak \<ge> CONFIDENCE_THRESHOLD then (Confirmed At, Some (Detected At))
      else (AtCandidate streak, None))"
| "observe_at (XtCandidate _) = (AtCandidate 1, None)"
| "observe_at (Confirmed Xt) = (AtCandidate 1, Some Reset)"
| "observe_at (Confirmed At) = (Confirmed At, None)"
| "observe_at (Confirmed Ps2) = (Confirmed Ps2, None)"

fun observe_xt :: "classifier \<Rightarrow> classifier \<times> classifier_event option" where
  "observe_xt Unknown = (XtCandidate 1, None)"
| "observe_xt (XtCandidate streak) =
     (let streak = saturating_inc streak in
      if streak \<ge> CONFIDENCE_THRESHOLD then (Confirmed Xt, Some (Detected Xt))
      else (XtCandidate streak, None))"
| "observe_xt (AtCandidate _) = (XtCandidate 1, None)"
| "observe_xt (Confirmed At) = (XtCandidate 1, Some Reset)"
| "observe_xt (Confirmed Ps2) = (XtCandidate 1, Some Reset)"
| "observe_xt (Confirmed Xt) = (Confirmed Xt, None)"

definition frame_usable :: "ps2_frame \<Rightarrow> bool" where
  "frame_usable f \<longleftrightarrow> pf_framing_ok f \<and> pf_parity_ok f \<and> pf_kind f \<noteq> FkInvalid"

definition ingest_kbd_frame ::
  "classifier \<Rightarrow> ps2_frame \<Rightarrow> classifier \<times> classifier_event option" where
  "ingest_kbd_frame c f =
     (if \<not> frame_usable f then (c, None)
      else case pf_kind f of
             FkAt \<Rightarrow> observe_at c
           | FkXt \<Rightarrow> observe_xt c
           | FkInvalid \<Rightarrow> (c, None))"

definition ingest_aux_activity :: "classifier \<Rightarrow> classifier \<times> classifier_event option" where
  "ingest_aux_activity c =
     (if c = Confirmed At then (Confirmed Ps2, Some (Detected Ps2)) else (c, None))"

fun_cases observe_at_detects: "observe_at c = (d, Some (Detected m))"
fun_cases observe_xt_detects: "observe_xt c = (d, Some (Detected m))"

subsection \<open>The trailing run\<close>

definition classify :: "classifier \<Rightarrow> ps2_frame list \<Rightarrow> classifier" where
  "classify c fs = foldl (\<lambda>c f. fst (ingest_kbd_frame c f)) c fs"

text \<open>The kinds of the usable frames, the latest first, and the length of the run of one kind.\<close>

definition usable_kinds :: "ps2_frame list \<Rightarrow> frame_kind list" where
  "usable_kinds fs = rev (map pf_kind (List.filter frame_usable fs))"

definition run_of :: "frame_kind list \<Rightarrow> nat" where
  "run_of ks = length (takeWhile (\<lambda>k. k = hd ks) ks)"

text \<open>The abstract classifier: three like frames in a row decide, fewer are a candidate.\<close>

definition run_state :: "frame_kind list \<Rightarrow> classifier" where
  "run_state ks =
     (case ks of
        [] \<Rightarrow> Unknown
      | k # _ \<Rightarrow>
          (if k = FkAt
           then (if run_of ks \<ge> 3 then Confirmed At else AtCandidate (of_nat (run_of ks)))
           else (if run_of ks \<ge> 3 then Confirmed Xt else XtCandidate (of_nat (run_of ks)))))"

lemma run_of_Cons [simp]:
  "run_of (k # ks) = (if ks \<noteq> [] \<and> hd ks = k then Suc (run_of ks) else 1)"
  by (cases ks) (auto simp: run_of_def)

lemma run_of_pos: "ks \<noteq> [] \<Longrightarrow> 0 < run_of ks"
  by (cases ks) simp_all

lemma candidate_step:
  "n = 1 \<or> n = 2 \<Longrightarrow>
   saturating_inc (of_nat n :: u8) = of_nat (Suc n) \<and>
   (CONFIDENCE_THRESHOLD \<le> saturating_inc (of_nat n) \<longleftrightarrow> n = 2)"
  by (auto simp: saturating_inc_def CONFIDENCE_THRESHOLD_def)

lemma run_state_at:
  assumes "set ks \<subseteq> {FkAt, FkXt}"
  shows "fst (observe_at (run_state ks)) = run_state (FkAt # ks)"
proof (cases ks)
  case Nil
  then show ?thesis by (simp add: run_state_def)
next
  case (Cons k ls)
  have pos: "0 < run_of ks" using run_of_pos [of ks] Cons by simp
  show ?thesis
  proof (cases "k = FkAt \<and> run_of ks < 3")
    case True
    then have "run_of ks = 1 \<or> run_of ks = 2" using pos by linarith
    from candidate_step [OF this] True Cons show ?thesis
      by (auto simp: run_state_def Let_def simp del: run_of_Cons)
        (simp_all add: run_of_Cons [of FkAt "FkAt # ls"])
  next
    case False
    then show ?thesis using Cons assms by (auto simp: run_state_def)
  qed
qed

lemma run_state_xt:
  assumes "set ks \<subseteq> {FkAt, FkXt}"
  shows "fst (observe_xt (run_state ks)) = run_state (FkXt # ks)"
proof (cases ks)
  case Nil
  then show ?thesis by (simp add: run_state_def)
next
  case (Cons k ls)
  have pos: "0 < run_of ks" using run_of_pos [of ks] Cons by simp
  show ?thesis
  proof (cases "k = FkXt \<and> run_of ks < 3")
    case True
    then have "run_of ks = 1 \<or> run_of ks = 2" using pos by linarith
    from candidate_step [OF this] True Cons show ?thesis
      by (auto simp: run_state_def Let_def simp del: run_of_Cons)
        (simp_all add: run_of_Cons [of FkXt "FkXt # ls"])
  next
    case False
    then show ?thesis using Cons assms by (auto simp: run_state_def)
  qed
qed

text \<open>
  C37. Classification.  After any sequence of keyboard frames the classifier's state is determined by
  the trailing run of usable frames of one format alone: none seen, fewer than three (a candidate with
  that streak), or at least three (confirmed).  Damaged frames neither advance nor reset it.
\<close>

theorem classifier_is_trailing_run:
  "classify classifier_new fs = run_state (usable_kinds fs)"
proof (induction fs rule: rev_induct)
  case Nil
  then show ?case by (simp add: classify_def classifier_new_def usable_kinds_def run_state_def)
next
  case (snoc f fs)
  have "k = FkAt \<or> k = FkXt" if "k \<in> set (usable_kinds fs)" for k
  proof -
    from that have "k \<in> pf_kind ` set (List.filter frame_usable fs)" by (simp add: usable_kinds_def)
    then obtain f where f: "frame_usable f" "k = pf_kind f" by auto
    show ?thesis by (cases "pf_kind f") (use f in \<open>auto simp: frame_usable_def\<close>)
  qed
  then have kinds: "set (usable_kinds fs) \<subseteq> {FkAt, FkXt}" by blast
  have step: "classify classifier_new (fs @ [f]) = fst (ingest_kbd_frame (classify classifier_new fs) f)"
    by (simp add: classify_def)
  show ?case
  proof (cases "frame_usable f")
    case False
    then show ?thesis unfolding step snoc by (simp add: ingest_kbd_frame_def usable_kinds_def)
  next
    case True
    then have "usable_kinds (fs @ [f]) = pf_kind f # usable_kinds fs"
      by (simp add: usable_kinds_def)
    with True show ?thesis
      unfolding step snoc
      by (cases "pf_kind f")
        (simp_all add: ingest_kbd_frame_def run_state_at [OF kinds] run_state_xt [OF kinds] frame_usable_def)
  qed
qed

text \<open>
  Damaged frames from the framer never reach a decision: the two components agree on what a good
  frame is.
\<close>

lemma ingest_unusable: "\<not> frame_usable f \<Longrightarrow> ingest_kbd_frame c f = (c, None)"
  by (simp add: ingest_kbd_frame_def)

subsection \<open>The lifecycle cell\<close>

datatype supervisor_state =
    LcBoot | Selftest | AwaitHostPower | DetectMachineClass | InjectDebug | ServeStage0Download
  | ServeStage1Handoff | ServeCapHandshake | ServeStage2Download | DpReady | DpActive
  | ErrorRecoverable | FaultUnrecoverable

definition state_to_u8 :: "supervisor_state \<Rightarrow> u8" where
  "state_to_u8 s =
     (case s of
        LcBoot \<Rightarrow> 0 | Selftest \<Rightarrow> 1 | AwaitHostPower \<Rightarrow> 2 | DetectMachineClass \<Rightarrow> 3
      | InjectDebug \<Rightarrow> 4 | ServeStage0Download \<Rightarrow> 5 | ServeStage1Handoff \<Rightarrow> 6
      | ServeCapHandshake \<Rightarrow> 7 | ServeStage2Download \<Rightarrow> 8 | DpReady \<Rightarrow> 9 | DpActive \<Rightarrow> 10
      | ErrorRecoverable \<Rightarrow> 11 | FaultUnrecoverable \<Rightarrow> 12)"

definition state_from_u8 :: "u8 \<Rightarrow> supervisor_state" where
  "state_from_u8 v =
     (if v = 0 then LcBoot else if v = 1 then Selftest else if v = 2 then AwaitHostPower
      else if v = 3 then DetectMachineClass else if v = 4 then InjectDebug
      else if v = 5 then ServeStage0Download else if v = 6 then ServeStage1Handoff
      else if v = 7 then ServeCapHandshake else if v = 8 then ServeStage2Download
      else if v = 9 then DpReady else if v = 10 then DpActive
      else if v = 11 then ErrorRecoverable else FaultUnrecoverable)"

definition lifecycle_set :: "supervisor_state \<Rightarrow> u8 \<Rightarrow> u8" where
  "lifecycle_set s cell = state_to_u8 s"

definition lifecycle_get :: "u8 \<Rightarrow> supervisor_state" where
  "lifecycle_get cell = state_from_u8 cell"

lemma lifecycle_get_set [simp]: "lifecycle_get (lifecycle_set s cell) = s"
  by (cases s) (simp_all add: lifecycle_get_def lifecycle_set_def state_to_u8_def state_from_u8_def)

lemma lifecycle_corrupt: "12 \<le> v \<Longrightarrow> lifecycle_get v = FaultUnrecoverable"
  by (auto simp: lifecycle_get_def state_from_u8_def word_le_nat_alt)

text \<open>The cell as a codec between the states and the values below 13.\<close>

definition state_decode :: "u8 \<Rightarrow> supervisor_state option" where
  "state_decode v = (if v < 13 then Some (state_from_u8 v) else None)"

lemma u8_less_13:
  "(v::u8) < 13 \<Longrightarrow> v \<in> {0, 1, 2, 3, 4, 5, 6, 7, 8, 9, 10, 11, 12}"
proof -
  assume "v < 13"
  then obtain n where v: "v = of_nat n" and "n < 13"
    by (intro that [of "unat v"]) (simp_all add: word_less_nat_alt)
  then have "n \<in> {0, 1, 2, 3, 4, 5, 6, 7, 8, 9, 10, 11, 12}" by (simp add: less_Suc_eq numeral_eq_Suc)
  then show ?thesis by (auto simp: v)
qed

interpretation lifecycle: codec state_to_u8 state_decode "\<lambda>_. True"
proof (unfold_locales, goal_cases)
  case (1 s)
  then show ?case by (cases s) (simp_all add: state_decode_def state_to_u8_def state_from_u8_def)
next
  case (2 v s)
  then have "v < 13" and s: "s = state_from_u8 v" by (auto simp: state_decode_def split: if_splits)
  from u8_less_13 [OF this(1)] show ?case
    by (auto simp: s state_to_u8_def state_from_u8_def)
qed

subsection \<open>The supervisor\<close>

text \<open>
  The task's state: the classifier, the pending \<^verbatim>\<open>INJECT_TRIGGER\<close> and the lifecycle cell.  Its
  inputs are what the two oversamplers publish.
\<close>

record supervisor =
  sv_classifier :: classifier
  sv_inject_trigger :: "machine_class option"
  sv_lifecycle :: u8

datatype supervisor_input = KbdFrame ps2_frame | AuxActivity

definition handle_event :: "classifier_event \<Rightarrow> supervisor \<Rightarrow> supervisor" where
  "handle_event ev s =
     (case ev of
        Detected class \<Rightarrow> s\<lparr>sv_inject_trigger := Some class\<rparr>
      | Reset \<Rightarrow>
          let cur = lifecycle_get (sv_lifecycle s) in
          if cur \<in> {InjectDebug, ServeStage0Download, ServeStage1Handoff}
          then s\<lparr>sv_lifecycle := lifecycle_set DetectMachineClass (sv_lifecycle s)\<rparr>
          else s)"

definition supervisor_step :: "supervisor \<Rightarrow> supervisor_input \<Rightarrow> supervisor" where
  "supervisor_step s i =
     (case i of
        KbdFrame frame \<Rightarrow>
          (case ingest_kbd_frame (sv_classifier s) frame of
             (c, ev) \<Rightarrow>
               let s = s\<lparr>sv_classifier := c\<rparr>
               in (case ev of Some e \<Rightarrow> handle_event e s | None \<Rightarrow> s))
      | AuxActivity \<Rightarrow>
          (case ingest_aux_activity (sv_classifier s) of
             (c, ev) \<Rightarrow>
               let s = s\<lparr>sv_classifier := c\<rparr>
               in (case ev of Some e \<Rightarrow> handle_event e s | None \<Rightarrow> s)))"

definition supervisor_init :: "u8 \<Rightarrow> supervisor" where
  "supervisor_init cell =
     \<lparr>sv_classifier = classifier_new, sv_inject_trigger = None, sv_lifecycle = cell\<rparr>"

definition may_roll_back :: "supervisor_state set" where
  "may_roll_back = {InjectDebug, ServeStage0Download, ServeStage1Handoff}"

definition supervisor_inv :: "u8 \<Rightarrow> supervisor_input list \<Rightarrow> supervisor \<Rightarrow> bool" where
  "supervisor_inv cell is s \<longleftrightarrow>
     (\<forall>m. classifier_class (sv_classifier s) = Some m \<longrightarrow> sv_inject_trigger s = Some m) \<and>
     (sv_inject_trigger s = Some Ps2 \<longrightarrow> AuxActivity \<in> set is) \<and>
     (sv_lifecycle s = cell \<or>
      (lifecycle_get cell \<in> may_roll_back \<and> lifecycle_get (sv_lifecycle s) = DetectMachineClass))"

lemma handle_event_simps [simp]:
  "sv_classifier (handle_event ev s) = sv_classifier s"
  "sv_inject_trigger (handle_event (Detected m) s) = Some m"
  "sv_inject_trigger (handle_event Reset s) = sv_inject_trigger s"
  "sv_lifecycle (handle_event (Detected m) s) = sv_lifecycle s"
  "sv_lifecycle (handle_event Reset s) =
     (if lifecycle_get (sv_lifecycle s) \<in> may_roll_back
      then lifecycle_set DetectMachineClass (sv_lifecycle s) else sv_lifecycle s)"
  by (auto simp: handle_event_def Let_def may_roll_back_def split: classifier_event.split)

text \<open>What a transition of the classifier reports, and what it cannot.\<close>

lemma ingest_kbd_cases:
  assumes "ingest_kbd_frame c f = (d, ev)"
  shows "(ev = None \<and> (classifier_class d = None \<or> d = c))
       \<or> (\<exists>m. ev = Some (Detected m) \<and> d = Confirmed m \<and> m \<noteq> Ps2)
       \<or> (ev = Some Reset \<and> classifier_class d = None)"
proof -
  have "(\<exists>k. k = observe_at c \<and> (d, ev) = k) \<or> (d, ev) = observe_xt c \<or> (d, ev) = (c, None)"
    using assms by (auto simp: ingest_kbd_frame_def split: if_splits frame_kind.splits)
  then show ?thesis
    by (cases c rule: observe_at.cases; cases c rule: observe_xt.cases)
      (auto simp: classifier_class_def Let_def split: if_splits)
qed

lemma supervisor_inv_step:
  assumes "supervisor_inv cell is s"
  shows "supervisor_inv cell (is @ [i]) (supervisor_step s i)"
proof (cases i)
  case (KbdFrame f)
  obtain d ev where k: "ingest_kbd_frame (sv_classifier s) f = (d, ev)"
    by (cases "ingest_kbd_frame (sv_classifier s) f")
  from ingest_kbd_cases [OF k] show ?thesis
    using assms k KbdFrame
    by (auto simp: supervisor_step_def supervisor_inv_def Let_def classifier_class_def may_roll_back_def
        split: if_splits)
next
  case AuxActivity
  then show ?thesis
    using assms
    by (auto simp: supervisor_step_def supervisor_inv_def Let_def ingest_aux_activity_def
        classifier_class_def)
qed

text \<open>
  Supervisor.  As long as nothing consumes the trigger: whenever the host is classified, the
  injection trigger holds exactly that class; a PS/2 trigger needs activity on the auxiliary channel;
  and the supervisor never writes the lifecycle except to roll it back from an injection state to
  \<^verbatim>\<open>DetectMachineClass\<close>.
\<close>

theorem supervisor_run:
  "supervisor_inv cell is (foldl supervisor_step (supervisor_init cell) is)"
proof (induction "is" rule: rev_induct)
  case Nil
  then show ?case
    by (simp add: supervisor_inv_def supervisor_init_def classifier_new_def classifier_class_def)
next
  case (snoc i "is")
  then show ?case by (simp add: supervisor_inv_step)
qed

subsection \<open>The indicator\<close>

record rgb8 =
  rgb_r :: u8
  rgb_g :: u8
  rgb_b :: u8

datatype animation = Solid rgb8 | Blink (bl_color: rgb8) (bl_on_ms: nat) (bl_off_ms: nat)

definition RED :: rgb8 where "RED = \<lparr>rgb_r = 64, rgb_g = 0, rgb_b = 0\<rparr>"
definition YELLOW :: rgb8 where "YELLOW = \<lparr>rgb_r = 48, rgb_g = 32, rgb_b = 0\<rparr>"
definition ORANGE :: rgb8 where "ORANGE = \<lparr>rgb_r = 64, rgb_g = 16, rgb_b = 0\<rparr>"
definition GREEN :: rgb8 where "GREEN = \<lparr>rgb_r = 0, rgb_g = 64, rgb_b = 0\<rparr>"
definition CYAN :: rgb8 where "CYAN = \<lparr>rgb_r = 0, rgb_g = 48, rgb_b = 48\<rparr>"
definition BLUE :: rgb8 where "BLUE = \<lparr>rgb_r = 0, rgb_g = 0, rgb_b = 64\<rparr>"
definition MAGENTA :: rgb8 where "MAGENTA = \<lparr>rgb_r = 48, rgb_g = 0, rgb_b = 48\<rparr>"
definition OFF :: rgb8 where "OFF = \<lparr>rgb_r = 0, rgb_g = 0, rgb_b = 0\<rparr>"

lemmas color_defs = RED_def YELLOW_def ORANGE_def GREEN_def CYAN_def BLUE_def MAGENTA_def OFF_def

definition for_state :: "supervisor_state \<Rightarrow> animation" where
  "for_state s =
     (case s of
        LcBoot \<Rightarrow> Solid RED
      | Selftest \<Rightarrow> Blink RED 125 125
      | AwaitHostPower \<Rightarrow> Solid YELLOW
      | DetectMachineClass \<Rightarrow> Blink CYAN 250 250
      | InjectDebug \<Rightarrow> Solid CYAN
      | ServeStage0Download \<Rightarrow> Blink BLUE 250 250
      | ServeStage1Handoff \<Rightarrow> Blink BLUE 125 125
      | ServeCapHandshake \<Rightarrow> Solid BLUE
      | ServeStage2Download \<Rightarrow> Blink MAGENTA 250 250
      | DpReady \<Rightarrow> Solid MAGENTA
      | DpActive \<Rightarrow> Solid GREEN
      | ErrorRecoverable \<Rightarrow> Blink ORANGE 125 125
      | FaultUnrecoverable \<Rightarrow> Blink RED 62 62)"

definition color_for_phase :: "animation \<Rightarrow> bool \<Rightarrow> rgb8" where
  "color_for_phase a on =
     (case a of Solid c \<Rightarrow> c | Blink color _ _ \<Rightarrow> (if on then color else OFF))"

text \<open>Durations in milliseconds.\<close>

definition phase_duration :: "animation \<Rightarrow> bool \<Rightarrow> nat" where
  "phase_duration a on =
     (case a of Solid _ \<Rightarrow> 60000 | Blink _ on_ms off_ms \<Rightarrow> (if on then on_ms else off_ms))"

definition POLL_TICK :: nat where [const_defs]: "POLL_TICK = 50"

record neopixel =
  np_state :: supervisor_state
  np_anim :: animation
  np_phase_on :: bool
  np_remaining :: nat
  np_shown :: rgb8

definition neopixel_start :: "u8 \<Rightarrow> neopixel" where
  "neopixel_start cell =
     (let state = lifecycle_get cell; anim = for_state state in
      \<lparr>np_state = state, np_anim = anim, np_phase_on = True,
       np_remaining = phase_duration anim True, np_shown = color_for_phase anim True\<rparr>)"

text \<open>One turn of the loop; \<open>cell\<close> is the lifecycle cell after the tick's delay.\<close>

definition neopixel_turn :: "u8 \<Rightarrow> neopixel \<Rightarrow> neopixel" where
  "neopixel_turn cell n =
     (let tick = min (np_remaining n) POLL_TICK;
          n = n\<lparr>np_remaining := np_remaining n - tick\<rparr>;
          now = lifecycle_get cell in
      if now \<noteq> np_state n then
        (let anim = for_state now in
         n\<lparr>np_state := now, np_anim := anim, np_phase_on := True,
           np_shown := color_for_phase anim True, np_remaining := phase_duration anim True\<rparr>)
      else if np_remaining n = 0 then
        (let on = \<not> np_phase_on n in
         n\<lparr>np_phase_on := on, np_shown := color_for_phase (np_anim n) on,
           np_remaining := phase_duration (np_anim n) on\<rparr>)
      else n)"

definition neopixel_inv :: "neopixel \<Rightarrow> bool" where
  "neopixel_inv n \<longleftrightarrow> np_anim n = for_state (np_state n) \<and>
     np_shown n = color_for_phase (np_anim n) (np_phase_on n) \<and>
     0 < np_remaining n \<and> np_remaining n \<le> phase_duration (np_anim n) (np_phase_on n)"

lemma phase_duration_pos: "0 < phase_duration (for_state s) on"
  by (cases s) (simp_all add: for_state_def phase_duration_def)

lemma neopixel_inv_start: "neopixel_inv (neopixel_start cell)"
  by (simp add: neopixel_inv_def neopixel_start_def Let_def phase_duration_pos)

lemma neopixel_inv_turn: "neopixel_inv n \<Longrightarrow> neopixel_inv (neopixel_turn cell n)"
  by (auto simp: neopixel_inv_def neopixel_turn_def Let_def phase_duration_pos)

text \<open>Off is shown only in the off phase of a blinking state, and every state has its own look.\<close>

lemma for_state_inj: "for_state s = for_state s' \<longleftrightarrow> s = s'"
  by (cases s; cases s') (simp_all add: for_state_def color_defs)

text \<open>
  Indicator.  Whatever the lifecycle cell holds at each turn of the loop, after the turn the pixel
  shows the current state's colour for the current phase, phases always last a positive time within
  the animation's, and the animation identifies the state.
\<close>

theorem indicator_follows_lifecycle:
  "let n = foldl (\<lambda>n c. neopixel_turn c n) (neopixel_start cell) cells in
     np_state n = lifecycle_get (last (cell # cells)) \<and>
     np_shown n = color_for_phase (for_state (np_state n)) (np_phase_on n) \<and>
     0 < np_remaining n \<and> np_remaining n \<le> phase_duration (for_state (np_state n)) (np_phase_on n) \<and>
     (\<forall>s. for_state s = np_anim n \<longleftrightarrow> s = lifecycle_get (last (cell # cells)))"
proof -
  have inv: "neopixel_inv (foldl (\<lambda>n c. neopixel_turn c n) (neopixel_start cell) cells)"
    by (induction cells rule: rev_induct) (simp_all add: neopixel_inv_start neopixel_inv_turn)
  moreover have "np_state (foldl (\<lambda>n c. neopixel_turn c n) (neopixel_start cell) cells) =
      lifecycle_get (last (cell # cells))"
    by (induction cells rule: rev_induct) (simp_all add: neopixel_start_def Let_def neopixel_turn_def)
  ultimately show ?thesis
    by (auto simp: Let_def neopixel_inv_def for_state_inj)
qed

subsection \<open>The heartbeat\<close>

text \<open>What the task of \<^verbatim>\<open>status/heartbeat.rs\<close> does to the red LED: its levels, each with how many ms it is held.\<close>

definition heartbeat_round :: "(bool \<times> nat) list \<Rightarrow> (bool \<times> nat) list" where
  "heartbeat_round led = led @ [(True, 50), (False, 950)]"

fun level_at :: "(bool \<times> nat) list \<Rightarrow> nat \<Rightarrow> bool option" where
  "level_at [] t = None"
| "level_at ((high, ms) # led) t = (if t < ms then Some high else level_at led (t - ms))"

lemma level_at_append:
  "level_at (xs @ ys) t =
     (if t < sum_list (map snd xs) then level_at xs t else level_at ys (t - sum_list (map snd xs)))"
  by (induction xs t rule: level_at.induct) auto

text \<open>After any number of rounds the LED has been on in the first 50 ms of every second, and off in the rest.\<close>

lemma heartbeat_flashes:
  "level_at ((heartbeat_round ^^ n) []) t = (if t < 1000 * n then Some (t mod 1000 < 50) else None)"
proof (induction n)
  case (Suc n)
  have d: "sum_list (map snd ((heartbeat_round ^^ n) [])) = 1000 * n"
    by (induction n) (simp_all add: heartbeat_round_def)
  have m: "t mod 1000 = t - 1000 * n" if "1000 * n \<le> t" "t < 1000 * Suc n"
  proof -
    have "t = 1000 * n + (t - 1000 * n)" "t - 1000 * n < 1000" using that by simp_all
    then show ?thesis by (metis mod_less mod_mult_self4)
  qed
  have r: "(heartbeat_round ^^ Suc n) [] = (heartbeat_round ^^ n) [] @ [(True, 50), (False, 950)]"
    by (simp add: heartbeat_round_def [of "(heartbeat_round ^^ n) []"])
  show ?case
    unfolding r level_at_append d using Suc m by auto
qed simp

end
