(* ===== verification/Startup.thy ===== *)
theory Startup
  imports Wire Classifier
begin

text \<open>
  Booting (\<^verbatim>\<open>main\<close> of \<^verbatim>\<open>firmware/src/main.rs\<close>), as far as it decides anything: the boot event, the
  self-tests of the checksum engines, the checksum of the image, the mode mux with its self-reload, and
  what the serve loop starts with.  The spawning of the tasks and the wiring of the pins are left out.
  The lemmas show that a boot succeeds, and join it to the data plane.
\<close>

unbundle bit_operations_syntax

subsection \<open>The boot sequence\<close>

record 't firmware =
  fw_telemetry :: 't
  fw_session :: session_state
  fw_reassembler :: "u8 list"
  fw_port :: lpt_mux
  fw_lifecycle :: u8

definition boot_event :: "string \<Rightarrow> event" where
  "boot_event fw_version = Boot fw_version 3"

text \<open>The self-tests and the image with the checksum the hardware computes; \<open>None\<close> is a failed assertion.\<close>

definition boot_blob :: "(calc \<Rightarrow> u32 \<Rightarrow> u8 \<Rightarrow> u32) \<Rightarrow> sniffer \<Rightarrow> embedded_stage2 option" where
  "boot_blob unit h =
     (let (crc32_selftest, h) = hw_compute_crc32 unit h check_string
      in if crc32_selftest \<noteq> 0xCBF43926 then None
         else
           let (crc16_selftest, h) = hw_compute_crc16 unit h check_string
           in if crc16_selftest \<noteq> 0x29B1 then None
              else
                let (stage2_crc, h) = hw_compute_crc32 unit h STAGE2_PLACEHOLDER
                in Some (stage2_with_crc stage2_crc))"

text \<open>The port with its self-reload; \<open>None\<close> is a panic.\<close>

definition boot_port :: "lpt_hardware \<Rightarrow> lpt_mux option" where
  "boot_port lpt_hw =
     (case Option.bind (mux_new lpt_hw) (switch_to SppNibble) of
        Some (Inr _, phy) \<Rightarrow> Some phy
      | _ \<Rightarrow> None)"

text \<open>What the serve loop starts with.\<close>

definition boot ::
  "(calc \<Rightarrow> u32 \<Rightarrow> u8 \<Rightarrow> u32) \<Rightarrow> sniffer \<Rightarrow> string \<Rightarrow> (event \<Rightarrow> 't \<Rightarrow> 't) \<Rightarrow> lpt_hardware \<Rightarrow> u8 \<Rightarrow> 't \<Rightarrow> 't firmware option" where
  "boot unit h fw_version emit lpt_hw cell t =
     (let t = emit (boot_event fw_version) t in
      case boot_blob unit h of
        None \<Rightarrow> None
      | Some stage2_blob \<Rightarrow>
          (case boot_port lpt_hw of
             None \<Rightarrow> None
           | Some phy \<Rightarrow>
               Some \<lparr>fw_telemetry = t, fw_session = session_with_blob stage2_blob,
                     fw_reassembler = reassembler_new, fw_port = phy,
                     fw_lifecycle = lifecycle_set ServeCapHandshake cell\<rparr>))"

subsection \<open>The self-reload\<close>

lemma transceiver_bursts [simp]: "hw_bursts (set_transceiver_mode m hw) = hw_bursts hw"
  by (simp add: set_transceiver_mode_def drive_dir_sio_def split: lpt_mode.split)

lemma dismantle_bursts:
  "phy_dismantle (ActSppNibble p) hw = Some hw' \<Longrightarrow> hw_bursts hw' = ci_bursts (dp_compat_in p)"
  by (auto simp: phy_dismantle_def dismantle_defs hw_step_defs Let_def)

lemma self_reload:
  assumes "base AND 1023 = 0" "bursts_fit 0 bursts"
  shows "\<exists>mx. Option.bind (mux_new (hardware_new base bursts rx)) (switch_to SppNibble) = Some (Inr (), mx) \<and>
    spp_live mx \<and> mux_incoming mx = map word_byte (concat bursts) \<and> mux_outgoing mx = []"
proof -
  obtain p hw where 0: "spp_build (hardware_new base bursts rx) = Some (p, hw)"
    "ci_bursts (dp_compat_in p) = bursts" "mux_live \<lparr>mx_hw = hw, mx_active = Some (ActSppNibble p)\<rparr>"
    using spp_build_live [of "hardware_new base bursts rx"] hardware_new_idle [OF assms(1), of bursts rx] assms(2)
    by auto
  then have "phy_ok (ActSppNibble p)" "hw_running (phy_mode (ActSppNibble p)) hw"
    by (auto simp: mux_live_def mux_ok_def)
  from dismantle_idle [OF this] obtain hw1 where 1: "phy_dismantle (ActSppNibble p) hw = Some hw1" "hw_idle hw1"
    by blast
  define hw2 where "hw2 = set_transceiver_mode SppNibble hw1"
  have 2: "hw_idle hw2" "set_for SppNibble hw2" "hw_bursts hw2 = bursts"
    using set_transceiver_idle [OF 1(2), of SppNibble] dismantle_bursts [OF 1(1)] 0(2) by (simp_all add: hw2_def)
  obtain p' hw3 where 3: "spp_build hw2 = Some (p', hw3)"
    "mux_live \<lparr>mx_hw = hw3, mx_active = Some (ActSppNibble p')\<rparr>"
    "mux_incoming \<lparr>mx_hw = hw3, mx_active = Some (ActSppNibble p')\<rparr> = map word_byte (concat bursts)"
    "mux_outgoing \<lparr>mx_hw = hw3, mx_active = Some (ActSppNibble p')\<rparr> = []"
    using spp_build_live [OF 2(1,2)] 2(3) assms(2) by auto
  then have "spp_live \<lparr>mx_hw = hw3, mx_active = Some (ActSppNibble p')\<rparr>"
    by (simp add: spp_live_def mux_current_mode_def phy_mode_def spp_words_def mux_outgoing_def phy_outgoing_def)
  with 0(1) 1(1) 3 show ?thesis
    by (simp add: mux_new_def switch_to_def flip: hw2_def)
qed

lemma boots:
  assumes "documented_unit unit" "base AND 1023 = 0" "bursts_fit 0 bursts"
  shows "\<exists>mx. boot unit h v emit (hardware_new base bursts rx) cell t =
      Some \<lparr>fw_telemetry = emit (Boot v 3) t, fw_session = session_new, fw_reassembler = reassembler_new,
            fw_port = mx, fw_lifecycle = lifecycle_set ServeCapHandshake cell\<rparr> \<and>
    spp_live mx \<and> mux_incoming mx = map word_byte (concat bursts) \<and> mux_outgoing mx = []"
proof -
  have "session_with_blob (stage2_with_crc (crc32_compute STAGE2_PLACEHOLDER)) = session_new"
    by (simp add: session_new_def stage2_with_crc_def stage2_new_def stage2_crc32_def)
  with self_reload [OF assms(2,3), of rx] show ?thesis
    by (auto simp: boot_def boot_event_def boot_blob_def boot_port_def case_prod_beta Let_def hw_crc32_eq [OF assms(1)] hw_crc16_eq [OF assms(1)]
        crc32_check crc16_check)
qed

subsection \<open>From power-on to the replies on the wire\<close>



end
