(* ===== verification/Ps2Wire.thy ===== *)
theory Ps2Wire
  imports Classifier Pio RingDma
begin

text \<open>
  The PS/2 side on the wire: the tasks that drain the two oversamplers into the framer
  (\<^verbatim>\<open>ps2/oversampler.rs\<close>, \<^verbatim>\<open>ps2/aux_oversampler.rs\<close>), and the transmitter (\<^verbatim>\<open>ps2/tx.rs\<close>).  The
  lemmas show what the tasks make of words laid out as the comments say, what the state machines
  really push, and the waveform of a transmitted frame.
\<close>

subsection \<open>Counters and task state\<close>

definition KBD_SAMPLES_PER_WORD :: nat where [const_defs]: "KBD_SAMPLES_PER_WORD = 10"
definition AUX_SAMPLES_PER_WORD :: nat where [const_defs]: "AUX_SAMPLES_PER_WORD = 7"
definition SELF_TX_GUARD_US :: u64 where [const_defs]: "SELF_TX_GUARD_US = 1500"
definition KBD_FRAMES_CAP :: nat where [const_defs]: "KBD_FRAMES_CAP = 8"

record oversampler_counters =
  oc_words :: u32
  oc_clk_active_words :: u32
  oc_fifo_overrun :: u32
  oc_frames_total :: u32
  oc_frames_errored :: u32
  oc_glitches_total :: u32

definition counters_new :: oversampler_counters where
  "counters_new =
     \<lparr>oc_words = 0, oc_clk_active_words = 0, oc_fifo_overrun = 0, oc_frames_total = 0,
      oc_frames_errored = 0, oc_glitches_total = 0\<rparr>"

text \<open>What both tasks count of a frame.\<close>

definition count_frame :: "ps2_frame \<Rightarrow> oversampler_counters \<Rightarrow> oversampler_counters" where
  "count_frame fr oc =
     oc\<lparr>oc_frames_total := oc_frames_total oc + 1,
        oc_frames_errored := oc_frames_errored oc +
          (if \<not> pf_parity_ok fr \<or> \<not> pf_framing_ok fr then 1 else 0),
        oc_glitches_total := oc_glitches_total oc + ucast (glitch_count (pf_timing fr))\<rparr>"

record kbd_task =
  kt_framer :: framer
  kt_t_us :: u64
  kt_last_self_tx_us :: "u64 option"
  kt_counters :: oversampler_counters
  kt_self_tx_frames :: u32
  kt_frames :: "ps2_frame list"

definition kbd_task_new :: kbd_task where
  "kbd_task_new =
     \<lparr>kt_framer = framer_new, kt_t_us = 0, kt_last_self_tx_us = None, kt_counters = counters_new,
      kt_self_tx_frames = 0, kt_frames = []\<rparr>"

subsection \<open>The keyboard task\<close>

text \<open>The comparison loop of \<^verbatim>\<open>clk_toggled_in_word\<close>, over the CLK bits of the later samples.\<close>

fun toggled_after :: "bool \<Rightarrow> bool list \<Rightarrow> bool" where
  "toggled_after prev [] = False"
| "toggled_after prev (clk # cs) = (if clk \<noteq> prev then True else toggled_after clk cs)"

definition kbd_clk_toggled :: "u32 \<Rightarrow> bool" where
  "kbd_clk_toggled word =
     toggled_after (bit word 0) (map (\<lambda>i. bit word (i * 3)) [1..<KBD_SAMPLES_PER_WORD])"

definition kbd_sample :: "u32 \<Rightarrow> kbd_task \<Rightarrow> kbd_task" where
  "kbd_sample sample k =
     (let clk = (sample AND 1 \<noteq> 0);
          clk_pull = (sample AND 2 \<noteq> 0);
          data = (sample AND 4 \<noteq> 0);
          t_us = kt_t_us k;
          k = (if \<not> clk_pull then k\<lparr>kt_last_self_tx_us := Some t_us\<rparr> else k);
          (f, r) = ingest (kt_framer k) clk data t_us;
          k = k\<lparr>kt_framer := f\<rparr>;
          k = (case r of
                 None \<Rightarrow> k
               | Some fr \<Rightarrow>
                   let k = k\<lparr>kt_counters := count_frame fr (kt_counters k)\<rparr>;
                       self_driven = (case kt_last_self_tx_us k of
                                        Some t \<Rightarrow> sat_sub t_us t < SELF_TX_GUARD_US
                                      | None \<Rightarrow> False)
                   in if self_driven then k\<lparr>kt_self_tx_frames := kt_self_tx_frames k + 1\<rparr>
                      else if length (kt_frames k) < KBD_FRAMES_CAP
                      then k\<lparr>kt_frames := kt_frames k @ [fr]\<rparr> else k)
      in k\<lparr>kt_t_us := t_us + 1\<rparr>)"

definition count_word :: "bool \<Rightarrow> oversampler_counters \<Rightarrow> oversampler_counters" where
  "count_word active oc =
     oc\<lparr>oc_words := oc_words oc + 1,
        oc_clk_active_words := oc_clk_active_words oc + (if active then 1 else 0)\<rparr>"

definition kbd_word :: "u32 \<Rightarrow> kbd_task \<Rightarrow> kbd_task" where
  "kbd_word word k =
     fold (\<lambda>i. kbd_sample (drop_bit (i * 3) word AND 7)) [0..<KBD_SAMPLES_PER_WORD]
       (k\<lparr>kt_counters := count_word (kbd_clk_toggled word) (kt_counters k)\<rparr>)"

text \<open>One turn of the task: resynchronise a ring that is full but for a slot, then drain it.\<close>

definition count_overrun :: "oversampler_counters \<Rightarrow> oversampler_counters" where
  "count_overrun oc = oc\<lparr>oc_fifo_overrun := oc_fifo_overrun oc + 1\<rparr>"

definition kbd_turn :: "ring \<times> kbd_task \<Rightarrow> ring \<times> kbd_task" where
  "kbd_turn rk =
     (let (r, k) = rk;
          (r, k) = (if ps2_pending r \<ge> PS2_RING_WORDS - 1
                    then (ps2_resync r, k\<lparr>kt_counters := count_overrun (kt_counters k)\<rparr>) else (r, k));
          (ws, r) = ps2_drain (PS2_RING_WORDS - 1) r
      in (r, fold kbd_word ws k))"

subsection \<open>The AUX task\<close>

record aux_task =
  at_framer :: framer
  at_t_us :: u64
  at_counters :: oversampler_counters
  at_activity :: bool

definition aux_task_new :: aux_task where
  "aux_task_new =
     \<lparr>at_framer = framer_new, at_t_us = 0, at_counters = counters_new, at_activity = False\<rparr>"

definition aux_clk_toggled :: "u32 \<Rightarrow> bool" where
  "aux_clk_toggled word =
     toggled_after (bit word 0) (map (\<lambda>i. bit word (i * 4)) [1..<AUX_SAMPLES_PER_WORD])"

definition aux_sample :: "u32 \<Rightarrow> aux_task \<Rightarrow> aux_task" where
  "aux_sample sample a =
     (let clk = (sample AND 1 \<noteq> 0);
          data = (sample AND 8 \<noteq> 0);
          (f, r) = ingest (at_framer a) clk data (at_t_us a);
          a = a\<lparr>at_framer := f\<rparr>;
          a = (case r of
                 None \<Rightarrow> a
               | Some fr \<Rightarrow>
                   let a = a\<lparr>at_counters := count_frame fr (at_counters a)\<rparr>;
                       usable = pf_framing_ok fr \<and> pf_parity_ok fr \<and> pf_kind fr \<noteq> FkInvalid
                   in if usable then a\<lparr>at_activity := True\<rparr> else a)
      in a\<lparr>at_t_us := at_t_us a + 1\<rparr>)"

definition aux_word :: "u32 \<Rightarrow> aux_task \<Rightarrow> aux_task" where
  "aux_word word a =
     fold (\<lambda>i. aux_sample (drop_bit (i * 4) word AND 0xF)) [0..<AUX_SAMPLES_PER_WORD]
       (a\<lparr>at_counters := count_word (aux_clk_toggled word) (at_counters a)\<rparr>)"

definition aux_turn :: "ring \<times> aux_task \<Rightarrow> ring \<times> aux_task" where
  "aux_turn ra =
     (let (r, a) = ra;
          (r, a) = (if ps2_pending r \<ge> PS2_RING_WORDS - 1
                    then (ps2_resync r, a\<lparr>at_counters := count_overrun (at_counters a)\<rparr>) else (r, a));
          (ws, r) = ps2_drain (PS2_RING_WORDS - 1) r
      in (r, fold aux_word ws a))"

subsection \<open>The transmitter\<close>

text \<open>\<^verbatim>\<open>send_xt_byte\<close> injects \<^verbatim>\<open>set y, 8\<close> while the state machine waits for a frame.\<close>

definition tx_push :: "u32 \<Rightarrow> sm_state \<Rightarrow> sm_state" where
  "tx_push w s = s\<lparr>sm_tx := sm_tx s @ [w]\<rparr>"

definition set_y_xt :: u16 where
  "set_y_xt = 0b1110000001000000 OR of_nat XT_LOOP_INIT"

text \<open>The injected opcode, decoded: 111 is SET, 010 its destination Y, the low five bits the value.\<close>

definition exec_set_y :: "u16 \<Rightarrow> sm_state \<Rightarrow> sm_state" where
  "exec_set_y op s =
     (if drop_bit 13 op = 7 \<and> drop_bit 5 op AND 7 = 2 then s\<lparr>sm_y := ucast (op AND 31)\<rparr> else s)"

definition send_at_byte :: "u8 \<Rightarrow> sm_state \<Rightarrow> sm_state" where
  "send_at_byte b s = tx_push (pack_at_frame b) s"

definition send_xt_byte :: "u8 \<Rightarrow> sm_state \<Rightarrow> sm_state" where
  "send_xt_byte b s = tx_push (pack_xt_frame b) (exec_set_y set_y_xt s)"

subsection \<open>Right-shifted autopush\<close>

text \<open>
  A one-instruction program that shifts \<open>b\<close> pins to the right and pushes after \<open>k\<close> samples: the
  samples end at the top of the word, the bits below them are zero.
\<close>

definition shifted_word :: "nat \<Rightarrow> pio_input list \<Rightarrow> u32" where
  "shifted_word b xs = fold (\<lambda>i isr. isr_shift True b (fst i) isr) xs 0"

lemma bit_isr_shift:
  assumes "0 < b" "b \<le> 32"
  shows "bit (isr_shift True b x isr) n \<longleftrightarrow>
    (if n < 32 - b then bit isr (n + b) else n < 32 \<and> bit x (n - (32 - b)))"
proof -
  have "n - (32 - b) < b" if "n < 32" using that assms by linarith
  moreover have "\<not> bit isr (n + b)" if "\<not> n < 32 - b" 
  proof -
    have "32 \<le> n + b" using that assms(2) by linarith
    then show ?thesis by (auto dest: bit_imp_le_length)
  qed
  ultimately show ?thesis
    unfolding isr_shift_def if_True bit_or_iff bit_drop_bit_eq bit_push_bit_iff bit_and_iff bit_mask_iff comp_def
    by (auto simp: add.commute dest: bit_imp_le_length)
qed

lemma bit_shifted_word:
  assumes "0 < b" "b * length xs \<le> 32"
  shows "bit (shifted_word b xs) n \<longleftrightarrow>
    32 - b * length xs \<le> n \<and> n < 32 \<and>
    bit (fst (xs ! ((n - (32 - b * length xs)) div b))) ((n - (32 - b * length xs)) mod b)"
  using assms(2)
proof (induction xs arbitrary: n rule: rev_induct)
  case Nil
  then show ?case by (simp add: shifted_word_def)
next
  case (snoc x xs)
  let ?l = "length xs"
  have le: "b * ?l + b \<le> 32" using snoc.prems by simp
  have w: "shifted_word b (xs @ [x]) = isr_shift True b (fst x) (shifted_word b xs)"
    by (simp add: shifted_word_def)
  have b: "b \<le> 32" using le by linarith
  show ?case
  proof (cases "n < 32 - b")
    case True
    have ih: "bit (shifted_word b (xs @ [x])) n \<longleftrightarrow>
        32 - b * ?l \<le> n + b \<and> n + b < 32 \<and>
        bit (fst (xs ! ((n + b - (32 - b * ?l)) div b))) ((n + b - (32 - b * ?l)) mod b)"
      unfolding w bit_isr_shift [OF assms(1) b] using True snoc.IH [of "n + b"] le by simp
    have e: "n + b - (32 - b * ?l) = n - (32 - b * length (xs @ [x]))"
      if "32 - b * ?l \<le> n + b" using that le by simp
    have "(n + b - (32 - b * ?l)) div b < ?l" if "n + b < 32" "32 - b * ?l \<le> n + b"
    proof -
      have "n + b - (32 - b * ?l) < b * ?l" using that le by linarith
      then show ?thesis using assms(1) by (simp add: less_mult_imp_div_less mult.commute)
    qed
    moreover have "32 - b * ?l \<le> n + b \<longleftrightarrow> 32 - b * length (xs @ [x]) \<le> n" using le by auto
    moreover have "n + b < 32" "n < 32" using True b by linarith+
    ultimately show ?thesis unfolding ih using e by (auto simp: nth_append)
  next
    case False
    show ?thesis
    proof (cases "n < 32")
      case True
      define m where "m = n - (32 - b)"
      have m: "m < b" using True False b by (simp add: m_def less_diff_conv2)
      have "n - (32 - b * length (xs @ [x])) = b * ?l + m" "32 - b * length (xs @ [x]) \<le> n"
        using False le by (simp_all add: m_def)
      moreover have "(b * ?l + m) div b = ?l" "(b * ?l + m) mod b = m" using m by simp_all
      moreover have "bit (shifted_word b (xs @ [x])) n = bit (fst x) m"
        unfolding w bit_isr_shift [OF assms(1) b] using False True by (simp add: m_def)
      ultimately show ?thesis using True by simp
    qed (auto dest: bit_imp_le_length)
  qed
qed

definition oversampling :: "nat \<Rightarrow> nat \<Rightarrow> sm_config \<Rightarrow> bool" where
  "oversampling b k cf \<longleftrightarrow> cf_prog cf = [ins (PIn b)] \<and> cf_in_right cf \<and> cf_autopush cf = Some (b * k) \<and>
     0 < cf_rx_depth cf \<and> 0 < b \<and> 0 < k"

lemma oversamplers: "oversampling 3 10 kbd_oversample_config" "oversampling 4 7 aux_oversample_config"
  by (simp_all add: oversampling_def program_defs)

definition sampling_ready :: "sm_state \<Rightarrow> bool" where
  "sampling_ready s \<longleftrightarrow> sm_pc s = 0 \<and> sm_delay s = 0 \<and> sm_isr s = 0 \<and> sm_isr_count s = 0 \<and> sm_rx s = []"

lemma oversample_partial:
  assumes "oversampling b k cf" "sampling_ready s" "length xs < k"
  shows "dma_run cf xs s = (s\<lparr>sm_isr := shifted_word b xs, sm_isr_count := b * length xs\<rparr>, [])"
  using assms(3)
proof (induction xs rule: rev_induct)
  case Nil
  have "s\<lparr>sm_isr := 0, sm_isr_count := 0\<rparr> = s" using assms(2) by (cases s) (simp add: sampling_ready_def)
  then show ?case by (simp add: shifted_word_def)
next
  case (snoc x xs)
  have "b * Suc (length xs) < b * k"
    using snoc.prems assms(1) by (simp add: oversampling_def del: mult_Suc_right)
  then have "b * length xs + b < b * k" by simp
  then show ?case
    using snoc assms(1,2)
    by (simp add: dma_run_append sm_cycle_def sm_exec_def sm_advance_def ins_defs Let_def oversampling_def
        sampling_ready_def shifted_word_def add.commute)
qed

lemma oversample_word:
  assumes "oversampling b k cf" "sampling_ready s" "length xs = k"
  shows "dma_run cf xs s = (s, [shifted_word b xs])"
proof -
  obtain ys y where xs: "xs = ys @ [y]" "Suc (length ys) = k"
    using assms(1,3) by (cases xs rule: rev_cases) (auto simp: oversampling_def)
  have "b * length ys + b = b * k" using xs(2) by auto
  then show ?thesis
    using oversample_partial [OF assms(1,2), of ys] xs assms(1,2)
    by (simp add: dma_run_append sm_cycle_def sm_exec_def sm_advance_def sm_push_def ins_defs Let_def
        oversampling_def sampling_ready_def shifted_word_def)
qed

text \<open>The words of a whole run; a rest that does not fill a word stays in the shift register.\<close>

function words_of :: "nat \<Rightarrow> nat \<Rightarrow> pio_input list \<Rightarrow> u32 list" where
  "words_of b k xs =
     (if k = 0 \<or> length xs < k then [] else shifted_word b (take k xs) # words_of b k (drop k xs))"
  by pat_completeness auto
termination
  by (relation "measure (\<lambda>(b, k, xs). length xs)") auto

declare words_of.simps [simp del]

lemma oversample_run:
  assumes "oversampling b k cf" "sampling_ready s"
  shows "snd (dma_run cf xs s) = words_of b k xs"
proof (induction xs rule: length_induct)
  case (1 xs)
  have k: "0 < k" using assms(1) by (simp add: oversampling_def)
  show ?case
  proof (cases "length xs < k")
    case True
    then show ?thesis using oversample_partial [OF assms True] by (simp add: words_of.simps [of b k xs])
  next
    case False
    have "dma_run cf (take k xs @ drop k xs) s =
        (fst (dma_run cf (drop k xs) s), shifted_word b (take k xs) # snd (dma_run cf (drop k xs) s))"
      using oversample_word [OF assms, of "take k xs"] False
      by (simp add: dma_run_append Let_def case_prod_beta del: append_take_drop_id)
    moreover have "snd (dma_run cf (drop k xs) s) = words_of b k (drop k xs)"
      using 1 False k by simp
    ultimately show ?thesis using False k by (simp add: words_of.simps [of b k xs])
  qed
qed

subsection \<open>What the keyboard task makes of a word\<close>

lemma and_bit_simps:
  "((x :: u32) AND 1 \<noteq> 0) = bit x 0" "(x AND 2 \<noteq> 0) = bit x 1" "(x AND 4 \<noteq> 0) = bit x 2" "(x AND 8 \<noteq> 0) = bit x 3"
  using and_exp_eq_0_iff_not_bit [of x 0] and_exp_eq_0_iff_not_bit [of x 1]
    and_exp_eq_0_iff_not_bit [of x 2] and_exp_eq_0_iff_not_bit [of x 3]
  by simp_all

text \<open>The task over samples, as triples of CLK, CLK_PULL and DATA.\<close>

definition kbd_step :: "bool \<times> bool \<times> bool \<Rightarrow> kbd_task \<Rightarrow> kbd_task" where
  "kbd_step x k = kbd_sample (of_bool (fst x) + 2 * of_bool (fst (snd x)) + 4 * of_bool (snd (snd x))) k"

lemma bits_of_triple:
  "bit (of_bool a + 2 * of_bool b + 4 * of_bool c :: u32) 0 = a"
  "bit (of_bool a + 2 * of_bool b + 4 * of_bool c :: u32) 1 = b"
  "bit (of_bool a + 2 * of_bool b + 4 * of_bool c :: u32) 2 = c"
  by (cases a; cases b; cases c; simp)+

lemma kbd_sample_step: "kbd_sample x k = kbd_step (bit x 0, bit x 1, bit x 2) k"
  unfolding kbd_step_def kbd_sample_def and_bit_simps bits_of_triple fst_conv snd_conv ..

definition word_samples :: "u32 \<Rightarrow> (bool \<times> bool \<times> bool) list" where
  "word_samples w = map (\<lambda>i. (bit w (3 * i), bit w (3 * i + 1), bit w (3 * i + 2))) [0..<10]"

lemma kbd_word_steps:
  "kbd_word w k = fold kbd_step (word_samples w) (k\<lparr>kt_counters := count_word (kbd_clk_toggled w) (kt_counters k)\<rparr>)"
proof -
  have m: "(7 :: u32) = mask 3" by (simp add: mask_eq_exp_minus_1)
  have "kbd_sample (drop_bit (i * 3) w AND 7) = kbd_step (bit w (3 * i), bit w (3 * i + 1), bit w (3 * i + 2))" for i
    by (rule ext) (simp add: kbd_sample_step m bit_and_iff bit_mask_iff bit_drop_bit_eq mult.commute)
  then show ?thesis
    by (simp only: kbd_word_def word_samples_def fold_map comp_def const_defs)
qed

text \<open>The same samples, stamped for the framer.\<close>

fun stamp :: "u64 \<Rightarrow> (bool \<times> bool \<times> bool) list \<Rightarrow> (bool \<times> bool \<times> u64) list" where
  "stamp t [] = []"
| "stamp t ((clk, pull, data) # xs) = (clk, data, t) # stamp (t + 1) xs"

lemma stamp_append: "stamp t (xs @ ys) = stamp t xs @ stamp (t + of_nat (length xs)) ys"
  by (induction t xs rule: stamp.induct) (simp_all add: add.assoc)

lemma sat_sub_near: "sat_sub (t + of_nat i) t < SELF_TX_GUARD_US" if "i < 1500"
proof -
  have "(of_nat i :: u64) < 1500" using that by (simp add: word_less_nat_alt unat_of_nat)
  then show ?thesis by (simp add: sat_sub_def const_defs)
qed

definition quiet_tx :: "(bool \<times> bool \<times> bool) list \<Rightarrow> bool" where
  "quiet_tx xs \<longleftrightarrow> (\<forall>(clk, pull, data) \<in> set xs. pull)"

lemma kbd_step_eq:
  "kbd_step (c, p, d) k =
     (let t_us = kt_t_us k;
          k = (if \<not> p then k\<lparr>kt_last_self_tx_us := Some t_us\<rparr> else k);
          (f, r) = ingest (kt_framer k) c d t_us;
          k = k\<lparr>kt_framer := f\<rparr>;
          k = (case r of
                 None \<Rightarrow> k
               | Some fr \<Rightarrow>
                   let k = k\<lparr>kt_counters := count_frame fr (kt_counters k)\<rparr>;
                       self_driven = (case kt_last_self_tx_us k of
                                        Some t \<Rightarrow> sat_sub t_us t < SELF_TX_GUARD_US
                                      | None \<Rightarrow> False)
                   in if self_driven then k\<lparr>kt_self_tx_frames := kt_self_tx_frames k + 1\<rparr>
                      else if length (kt_frames k) < KBD_FRAMES_CAP
                      then k\<lparr>kt_frames := kt_frames k @ [fr]\<rparr> else k)
      in k\<lparr>kt_t_us := t_us + 1\<rparr>)"
  unfolding kbd_step_def kbd_sample_def and_bit_simps bits_of_triple fst_conv snd_conv by (simp only: Let_def)

lemma kbd_step_facts:
  assumes "ingest (kt_framer k) c d (kt_t_us k) = (f, r)"
  shows "kt_framer (kbd_step (c, p, d) k) = f" "kt_t_us (kbd_step (c, p, d) k) = kt_t_us k + 1"
    "oc_frames_total (kt_counters (kbd_step (c, p, d) k)) =
       oc_frames_total (kt_counters k) + (if r = None then 0 else 1)"
    "kt_last_self_tx_us (kbd_step (c, p, d) k) = (if p then kt_last_self_tx_us k else Some (kt_t_us k))"
    "p \<Longrightarrow> kt_last_self_tx_us k = None \<Longrightarrow>
       kt_frames (kbd_step (c, p, d) k) =
         (case r of Some fr \<Rightarrow> (if length (kt_frames k) < 8 then kt_frames k @ [fr] else kt_frames k) | None \<Rightarrow> kt_frames k)"
  using assms
  unfolding kbd_step_eq
  by (cases r; simp add: count_frame_def Let_def KBD_FRAMES_CAP_def)+

lemma kbd_steps_feed:
  assumes "feed (kt_framer k) (stamp (kt_t_us k) xs) = (f, frs)"
  shows "kt_framer (fold kbd_step xs k) = f \<and> kt_t_us (fold kbd_step xs k) = kt_t_us k + of_nat (length xs) \<and>
    oc_frames_total (kt_counters (fold kbd_step xs k)) = oc_frames_total (kt_counters k) + of_nat (length frs) \<and>
    (quiet_tx xs \<longrightarrow> kt_last_self_tx_us k = None \<longrightarrow>
       kt_last_self_tx_us (fold kbd_step xs k) = None \<and>
       kt_frames (fold kbd_step xs k) = kt_frames k @ take (8 - length (kt_frames k)) frs)"
  using assms
proof (induction xs arbitrary: k frs)
  case (Cons x xs)
  obtain c p d where x: "x = (c, p, d)" by (cases x)
  obtain f1 r where i: "ingest (kt_framer k) c d (kt_t_us k) = (f1, r)" by fastforce
  define k1 where "k1 = kbd_step (c, p, d) k"
  note 1 = kbd_step_facts [OF i, of p, folded k1_def]
  obtain frs1 where frs: "feed f1 (stamp (kt_t_us k + 1) xs) = (f, frs1)"
    "frs = (case r of None \<Rightarrow> frs1 | Some fr \<Rightarrow> fr # frs1)"
    using Cons.prems i by (auto simp: x split: prod.splits option.splits)
  from Cons.IH [of k1 frs1] frs(1) 1(1,2) have ih:
    "kt_framer (fold kbd_step xs k1) = f" "kt_t_us (fold kbd_step xs k1) = kt_t_us k1 + of_nat (length xs)"
    "oc_frames_total (kt_counters (fold kbd_step xs k1)) = oc_frames_total (kt_counters k1) + of_nat (length frs1)"
    "quiet_tx xs \<longrightarrow> kt_last_self_tx_us k1 = None \<longrightarrow> kt_last_self_tx_us (fold kbd_step xs k1) = None \<and>
       kt_frames (fold kbd_step xs k1) = kt_frames k1 @ take (8 - length (kt_frames k1)) frs1"
    by simp_all
  show ?case
  proof (intro conjI impI)
    show "kt_framer (fold kbd_step (x # xs) k) = f" using ih(1) by (simp add: x k1_def)
    show "kt_t_us (fold kbd_step (x # xs) k) = kt_t_us k + of_nat (length (x # xs))"
      using ih(2) 1(2) by (simp add: x k1_def)
    show "oc_frames_total (kt_counters (fold kbd_step (x # xs) k)) =
        oc_frames_total (kt_counters k) + of_nat (length frs)"
      using ih(3) 1(3) frs(2) by (cases r) (simp_all add: x k1_def)
    assume q: "quiet_tx (x # xs)" and n: "kt_last_self_tx_us k = None"
    then have p: "p" "quiet_tx xs" by (auto simp: quiet_tx_def x)
    then show "kt_last_self_tx_us (fold kbd_step (x # xs) k) = None"
      using ih(4) 1(4) n by (simp add: x k1_def)
    have "kt_frames (fold kbd_step xs k1) = kt_frames k1 @ take (8 - length (kt_frames k1)) frs1"
      using ih(4) 1(4) p n by simp
    then show "kt_frames (fold kbd_step (x # xs) k) = kt_frames k @ take (8 - length (kt_frames k)) frs"
      using 1(5) [OF p(1) n] frs(2) by (cases r) (auto simp: x k1_def take_Cons' )
  qed
qed simp

lemma kbd_words_feed:
  assumes "feed (kt_framer k) (stamp (kt_t_us k) (concat (map word_samples ws))) = (f, frs)"
  shows "oc_words (kt_counters (fold kbd_word ws k)) = oc_words (kt_counters k) + of_nat (length ws) \<and>
    oc_frames_total (kt_counters (fold kbd_word ws k)) = oc_frames_total (kt_counters k) + of_nat (length frs) \<and>
    (quiet_tx (concat (map word_samples ws)) \<longrightarrow> kt_last_self_tx_us k = None \<longrightarrow>
       kt_frames (fold kbd_word ws k) = kt_frames k @ take (8 - length (kt_frames k)) frs)"
  using assms
proof (induction ws arbitrary: k frs)
  case (Cons w ws)
  define k0 where "k0 = k\<lparr>kt_counters := count_word (kbd_clk_toggled w) (kt_counters k)\<rparr>"
  define k1 where "k1 = kbd_word w k"
  have k1: "k1 = fold kbd_step (word_samples w) k0" by (simp add: k1_def k0_def kbd_word_steps)
  have k0: "kt_framer k0 = kt_framer k" "kt_t_us k0 = kt_t_us k" "kt_last_self_tx_us k0 = kt_last_self_tx_us k"
    "kt_frames k0 = kt_frames k" "oc_words (kt_counters k0) = oc_words (kt_counters k) + 1"
    "oc_frames_total (kt_counters k0) = oc_frames_total (kt_counters k)"
    by (simp_all add: k0_def count_word_def)
  have words: "oc_words (kt_counters (fold kbd_step xs j)) = oc_words (kt_counters j)" for xs j
  proof (induction xs arbitrary: j)
    case (Cons x xs)
    obtain c p d where x: "x = (c, p, d)" by (cases x)
    obtain g r where "ingest (kt_framer j) c d (kt_t_us j) = (g, r)" by fastforce
    then have "oc_words (kt_counters (kbd_step x j)) = oc_words (kt_counters j)"
      unfolding x kbd_step_eq by (cases r; simp add: count_frame_def Let_def)
    then show ?case using Cons.IH [of "kbd_step x j"] by simp
  qed simp
  obtain f1 frs1 where f1: "feed (kt_framer k0) (stamp (kt_t_us k0) (word_samples w)) = (f1, frs1)"
    by fastforce
  from kbd_steps_feed [OF f1] have st: "kt_framer k1 = f1" "kt_t_us k1 = kt_t_us k + of_nat (length (word_samples w))"
    "oc_frames_total (kt_counters k1) = oc_frames_total (kt_counters k) + of_nat (length frs1)"
    "quiet_tx (word_samples w) \<longrightarrow> kt_last_self_tx_us k = None \<longrightarrow> kt_last_self_tx_us k1 = None \<and>
       kt_frames k1 = kt_frames k @ take (8 - length (kt_frames k)) frs1"
    by (simp_all add: k1 k0)
  obtain frs2 where frs: "feed f1 (stamp (kt_t_us k1) (concat (map word_samples ws))) = (f, frs2)" "frs = frs1 @ frs2"
    using Cons.prems f1 by (simp add: stamp_append feed_append st(2) k0 prod_eq_iff)
  have ih: "oc_words (kt_counters (fold kbd_word ws k1)) = oc_words (kt_counters k1) + of_nat (length ws)"
    "oc_frames_total (kt_counters (fold kbd_word ws k1)) = oc_frames_total (kt_counters k1) + of_nat (length frs2)"
    "quiet_tx (concat (map word_samples ws)) \<longrightarrow> kt_last_self_tx_us k1 = None \<longrightarrow>
       kt_frames (fold kbd_word ws k1) = kt_frames k1 @ take (8 - length (kt_frames k1)) frs2"
    using Cons.IH [of k1 frs2] frs(1) st(1) by simp_all
  show ?case
  proof (intro conjI impI)
    show "oc_words (kt_counters (fold kbd_word (w # ws) k)) = oc_words (kt_counters k) + of_nat (length (w # ws))"
      using ih(1) words [of "word_samples w" k0] k0(5) by (simp add: k1 flip: k1_def)
    show "oc_frames_total (kt_counters (fold kbd_word (w # ws) k)) =
        oc_frames_total (kt_counters k) + of_nat (length frs)"
      using ih(2) st(3) frs(2) by (simp flip: k1_def)
    assume q: "quiet_tx (concat (map word_samples (w # ws)))" "kt_last_self_tx_us k = None"
    then have "quiet_tx (word_samples w)" "quiet_tx (concat (map word_samples ws))"
      by (auto simp: quiet_tx_def)
    with ih(3) st(4) q(2) have "kt_frames (fold kbd_word ws k1) = kt_frames k1 @ take (8 - length (kt_frames k1)) frs2"
      "kt_frames k1 = kt_frames k @ take (8 - length (kt_frames k)) frs1" by simp_all
    then show "kt_frames (fold kbd_word (w # ws) k) = kt_frames k @ take (8 - length (kt_frames k)) frs"
      using frs(2) by (auto simp: min_def simp flip: k1_def)
  qed
qed simp

text \<open>
  With words laid out as the task assumes, the keyboard task runs the framer over the samples:
  it counts the words and the frames, and as long as the firmware does not pull the clock itself it
  forwards the framer's frames in order, the first eight that the supervisor has not fetched.
\<close>

theorem kbd_task_runs_framer:
  assumes "feed framer_new (stamp 0 (concat (map word_samples ws))) = (f, frs)"
  shows "oc_words (kt_counters (fold kbd_word ws kbd_task_new)) = of_nat (length ws) \<and>
    oc_frames_total (kt_counters (fold kbd_word ws kbd_task_new)) = of_nat (length frs) \<and>
    (quiet_tx (concat (map word_samples ws)) \<longrightarrow>
       kt_frames (fold kbd_word ws kbd_task_new) = take KBD_FRAMES_CAP frs)"
  using kbd_words_feed [of kbd_task_new ws f frs] assms
  by (simp add: kbd_task_new_def counters_new_def const_defs)

theorem kbd_task_runs_framer_witness:
  "kt_frames (fold kbd_word [0x3FFFFFFF, 0x3FFFFFFF] kbd_task_new) = []"
proof -
  obtain f frs where f: "feed framer_new (stamp 0 (concat (map word_samples [0x3FFFFFFF, 0x3FFFFFFF]))) = (f, frs)"
    by fastforce
  have w: "word_samples 0x3FFFFFFF = replicate 10 (True, True, True)"
    by (simp add: word_samples_def upt_rec numeral_eq_Suc)
  have "feed framer_new (stamp 0 (replicate 20 (True, True, True))) =
      (fst (feed framer_new (stamp 0 (replicate 20 (True, True, True)))), [])"
    by code_simp
  moreover have "concat (map word_samples [0x3FFFFFFF, 0x3FFFFFFF]) = replicate 20 (True, True, True)"
    by (simp add: w flip: replicate_add)
  ultimately have "frs = []" using f by simp
  with kbd_task_runs_framer [OF f] show ?thesis
    by (simp add: w quiet_tx_def)
qed

subsection \<open>What the state machine really delivers\<close>

text \<open>
  The oversampler's words are not laid out as the task assumes: the state machine shifts to the
  right and pushes after 30 of 32 bits, so the samples stand two bits too high.  For any ten samples,
  what the task takes for CLK of sample i is CLK_PULL of the sample before, what it takes for CLK_PULL
  is the DATA before, what it takes for DATA is CLK; its first CLK and CLK_PULL are always low.
\<close>

theorem kbd_samples_misaligned:
  assumes "length xs = 10"
  shows "\<exists>w. dma_run kbd_oversample_config xs (sm_start 0 0 False) = (sm_start 0 0 False, [w]) \<and>
    word_samples w =
      (False, False, bit (fst (xs ! 0)) 0) #
      map (\<lambda>i. (bit (fst (xs ! (i - 1))) 1, bit (fst (xs ! (i - 1))) 2, bit (fst (xs ! i)) 0)) [1..<10]"
proof (intro exI conjI)
  have ready: "sampling_ready (sm_start 0 0 False)" by (simp add: sampling_ready_def sm_start_def)
  show "dma_run kbd_oversample_config xs (sm_start 0 0 False) = (sm_start 0 0 False, [shifted_word 3 xs])"
    by (rule oversample_word [OF oversamplers(1) ready assms])
  have b: "bit (shifted_word 3 xs) n \<longleftrightarrow> 2 \<le> n \<and> n < 32 \<and> bit (fst (xs ! ((n - 2) div 3))) ((n - 2) mod 3)" for n
    using bit_shifted_word [of 3 xs n] assms by simp
  have s: "(bit (shifted_word 3 xs) (3 * i), bit (shifted_word 3 xs) (3 * i + 1), bit (shifted_word 3 xs) (3 * i + 2)) =
      (bit (fst (xs ! (i - 1))) 1, bit (fst (xs ! (i - 1))) 2, bit (fst (xs ! i)) 0)" if "1 \<le> i" "i < 10" for i
  proof -
    obtain j where j: "i = Suc j" using \<open>1 \<le> i\<close> by (auto simp: Suc_le_eq gr0_conv_Suc)
    have "(3 * i - 2) = 3 * j + 1" "(3 * i + 1 - 2) = 3 * j + 2" "3 * i + 2 - 2 = 3 * i" by (simp_all add: j)
    moreover have "(3 * j + 1) div 3 = j" "(3 * j + 1) mod 3 = 1" "(3 * j + 2) div 3 = j" "(3 * j + 2) mod 3 = 2"
      by presburger+
    ultimately show ?thesis using that unfolding b by (simp add: j)
  qed
  have "[0..<10] = 0 # [1..<10 :: nat]" by (simp add: upt_rec)
  then show "word_samples (shifted_word 3 xs) =
      (False, False, bit (fst (xs ! 0)) 0) #
      map (\<lambda>i. (bit (fst (xs ! (i - 1))) 1, bit (fst (xs ! (i - 1))) 2, bit (fst (xs ! i)) 0)) [1..<10]"
    using s by (simp add: word_samples_def b del: upt_Suc)
qed

theorem kbd_samples_misaligned_witness:
  "\<exists>w. dma_run kbd_oversample_config (replicate 10 (1, \<lambda>_. False)) (sm_start 0 0 False) = (sm_start 0 0 False, [w]) \<and>
    hd (word_samples w) = (False, False, True)"
  using kbd_samples_misaligned [of "replicate 10 (1, \<lambda>_. False)"] by fastforce

text \<open>A sample that reads CLK_PULL low makes the task drop every frame for the next 1500 us.\<close>

lemma kbd_steps_guarded:
  assumes "kt_last_self_tx_us k = Some (kt_t_us k - of_nat j)" "j + length xs \<le> 1500"
  shows "kt_frames (fold kbd_step xs k) = kt_frames k"
  using assms
proof (induction xs arbitrary: k j)
  case (Cons x xs)
  obtain c p d where x: "x = (c, p, d)" by (cases x)
  obtain f r where i: "ingest (kt_framer k) c d (kt_t_us k) = (f, r)" by fastforce
  have near: "sat_sub (kt_t_us k) (kt_t_us k - of_nat j) < SELF_TX_GUARD_US" "sat_sub (kt_t_us k) (kt_t_us k) < SELF_TX_GUARD_US"
    using sat_sub_near [of j "kt_t_us k - of_nat j"] sat_sub_near [of 0 "kt_t_us k"] Cons.prems(2) by simp_all
  then have "kt_frames (kbd_step x k) = kt_frames k"
    unfolding x kbd_step_eq using i Cons.prems(1) by (cases r; simp add: Let_def)
  moreover have "kt_frames (fold kbd_step xs (kbd_step x k)) = kt_frames (kbd_step x k)"
  proof (rule Cons.IH)
    show "kt_last_self_tx_us (kbd_step x k) = Some (kt_t_us (kbd_step x k) - of_nat (if p then Suc j else 1))"
      using kbd_step_facts(2,4) [OF i, of p] Cons.prems(1) by (simp add: x)
    show "(if p then Suc j else 1) + length xs \<le> 1500" using Cons.prems(2) by auto
  qed
  ultimately show ?case by simp
qed simp

lemma kbd_word_deaf:
  assumes "\<not> bit w 1"
  shows "kt_frames (kbd_word w k) = kt_frames k"
proof -
  define k0 where "k0 = k\<lparr>kt_counters := count_word (kbd_clk_toggled w) (kt_counters k)\<rparr>"
  obtain c d xs where xs: "word_samples w = (c, False, d) # xs" "length xs = 9"
    using assms by (simp add: word_samples_def upt_rec)
  obtain f r where i: "ingest (kt_framer k0) c d (kt_t_us k0) = (f, r)" by fastforce
  have "sat_sub (kt_t_us k0) (kt_t_us k0) < SELF_TX_GUARD_US" using sat_sub_near [of 0 "kt_t_us k0"] by simp
  then have "kt_frames (kbd_step (c, False, d) k0) = kt_frames k0"
    unfolding kbd_step_eq using i by (cases r; simp add: Let_def)
  moreover have "kt_frames (fold kbd_step xs (kbd_step (c, False, d) k0)) = kt_frames (kbd_step (c, False, d) k0)"
    using kbd_step_facts(2,4) [OF i, of False] xs(2) by (intro kbd_steps_guarded [where j = 1]) simp_all
  ultimately show ?thesis by (simp add: kbd_word_steps xs(1) k0_def [symmetric]) (simp add: k0_def)
qed

lemma words_of_low_bits: "w \<in> set (words_of 3 10 xs) \<Longrightarrow> \<not> bit w 1"
proof (induction xs rule: length_induct)
  case (1 xs)
  show ?case
  proof (cases "length xs < 10")
    case True
    then show ?thesis using 1(2) by (simp add: words_of.simps [of 3 10 xs])
  next
    case False
    then have "w = shifted_word 3 (take 10 xs) \<or> w \<in> set (words_of 3 10 (drop 10 xs))"
      using 1(2) by (simp add: words_of.simps [of 3 10 xs])
    then show ?thesis
    proof
      assume "w = shifted_word 3 (take 10 xs)"
      then show ?thesis using bit_shifted_word [of 3 "take 10 xs" 1] False by simp
    next
      assume "w \<in> set (words_of 3 10 (drop 10 xs))"
      then show ?thesis using 1(1) [rule_format, of "drop 10 xs"] False by simp
    qed
  qed
qed

text \<open>
  So the keyboard task never reports a frame: whatever happens on the wire, for however long, every
  word has its first CLK_PULL low, the task takes that for its own transmission, and the frames the
  framer makes of the misread samples are all dropped before they reach the classifier.
\<close>

theorem kbd_task_never_reports:
  "kt_frames (fold kbd_word (snd (dma_run kbd_oversample_config xs (sm_start 0 0 False))) kbd_task_new) = []"
proof -
  have ready: "sampling_ready (sm_start 0 0 False)" by (simp add: sampling_ready_def sm_start_def)
  have deaf: "\<forall>w \<in> set ws. \<not> bit w 1 \<Longrightarrow> kt_frames (fold kbd_word ws k) = kt_frames k" for ws k
    by (induction ws arbitrary: k) (simp_all add: kbd_word_deaf)
  show ?thesis
    unfolding oversample_run [OF oversamplers(1) ready]
    using deaf [of "words_of 3 10 xs" kbd_task_new] words_of_low_bits by (simp add: kbd_task_new_def)
qed

text \<open>On the AUX channel every word starts with a sample of zeroes.\<close>

lemma words_of_constant:
  assumes "0 < k"
  shows "words_of b k (replicate (m * k) x) = replicate m (shifted_word b (replicate k x))"
proof (induction m)
  case 0
  then show ?case using assms by (simp add: words_of.simps [of b k])
next
  case (Suc m)
  then show ?case using assms
    by (simp add: words_of.simps [of b k "replicate (k + m * k) x"])
qed

subsection \<open>The transmitter's waveform\<close>

text \<open>CLK and DATA after a cycle: the SET pin and the OUT pin.\<close>

definition tx_levels :: "sm_state \<Rightarrow> bool \<times> bool" where
  "tx_levels s = (bit (sm_set s) 0, bit (sm_out s) 0)"

text \<open>A bit takes eleven cycles: CLK falls with the old lvl still on DATA, and rises with the new one.\<close>

definition bit_wave :: "bool \<Rightarrow> bool \<Rightarrow> (bool \<times> bool) list" where
  "bit_wave before b = (True, before) # replicate 4 (False, before) @ (False, b) # replicate 5 (True, b)"

fun frame_wave :: "bool \<Rightarrow> bool list \<Rightarrow> (bool \<times> bool) list" where
  "frame_wave before [] = []"
| "frame_wave before (b # bs) = bit_wave before b @ frame_wave b bs"

text \<open>What a receiver samples that looks at DATA on the falling, or on the rising, edges of CLK.\<close>

fun at_falls :: "bool \<Rightarrow> (bool \<times> bool) list \<Rightarrow> bool list" where
  "at_falls clk [] = []"
| "at_falls clk ((c, d) # xs) = (if clk \<and> \<not> c then d # at_falls c xs else at_falls c xs)"

fun at_rises :: "bool \<Rightarrow> (bool \<times> bool) list \<Rightarrow> bool list" where
  "at_rises clk [] = []"
| "at_rises clk ((c, d) # xs) = (if \<not> clk \<and> c then d # at_rises c xs else at_rises c xs)"

lemma frame_wave_edges:
  "at_rises True (frame_wave before bs @ xs) = bs @ at_rises True xs"
  "at_falls True (frame_wave before bs @ xs) = butlast (before # bs) @ at_falls True xs"
  by (induction bs arbitrary: before) (auto simp: bit_wave_def numeral_eq_Suc)

definition tx_ready :: "bool \<Rightarrow> nat \<Rightarrow> sm_state \<Rightarrow> bool" where
  "tx_ready lvl n s \<longleftrightarrow> sm_pc s = 1 \<and> sm_delay s = 0 \<and> sm_y s = of_nat n \<and> sm_tx s = [] \<and>
     sm_set s = 1 \<and> sm_out s = of_bool lvl"

definition tx_mid :: "bool \<Rightarrow> nat \<Rightarrow> u32 \<Rightarrow> sm_state \<Rightarrow> bool" where
  "tx_mid lvl n w s \<longleftrightarrow> sm_pc s = 2 \<and> sm_delay s = 0 \<and> sm_y s = of_nat n \<and> sm_tx s = [] \<and>
     sm_set s = 1 \<and> sm_out s = of_bool lvl \<and> sm_osr s = w"

lemma and_one_of_bool: "(w :: u32) AND 1 = of_bool (bit w 0)"
  by (simp add: and_one_eq mod_2_eq_odd bit_0)

lemma tx_bit_run:
  assumes "tx_mid lvl n w s" "length is = 11" "n < 32"
  defines "t \<equiv> fst (sm_run ps2_tx_config is s)"
  shows "map tx_levels (snd (sm_run ps2_tx_config is s)) = bit_wave lvl (bit w 0) \<and>
    (if n = 0
     then sm_pc t = 7 \<and> sm_delay t = 0 \<and> sm_tx t = [] \<and> sm_set t = 1 \<and> sm_out t = of_bool (bit w 0)
     else tx_mid (bit w 0) (n - 1) (drop_bit 1 w) t)"
proof -
  obtain i0 i1 i2 i3 i4 i5 i6 i7 i8 i9 i10 where "is": "is = [i0, i1, i2, i3, i4, i5, i6, i7, i8, i9, i10]"
    using assms(2) by (auto simp: length_Suc_conv numeral_eq_Suc)
  have y: "(of_nat n :: u32) = 0 \<longleftrightarrow> n = 0"
    using assms(3) by (auto simp: word_of_nat_eq_0_iff dest: dvd_imp_le)
  have "(of_nat n - 1 :: u32) = of_nat (n - 1)" if "n \<noteq> 0" using that by (simp add: of_nat_diff)
  moreover have "of_bool (bit w 0) AND mask (Suc 0) = (of_bool (bit w 0) :: u32)"
    by (cases "bit w 0") simp_all
  ultimately show ?thesis
    using assms(1) y unfolding t_def
    by (simp add: "is" sm_cycle_def sm_exec_def sm_advance_def program_defs ins_defs const_defs Let_def tx_mid_def
        tx_levels_def bit_wave_def and_one_of_bool numeral_eq_Suc)
qed

lemma tx_bits_run:
  assumes "tx_mid lvl n w s" "length is = 11 * Suc n" "n < 32"
  shows "map tx_levels (snd (sm_run ps2_tx_config is s)) = frame_wave lvl (map (bit w) [0..<Suc n]) \<and>
    (let t = fst (sm_run ps2_tx_config is s) in
     sm_pc t = 7 \<and> sm_delay t = 0 \<and> sm_tx t = [] \<and> sm_set t = 1 \<and> sm_out t = of_bool (bit w n))"
  using assms
proof (induction n arbitrary: lvl w s "is")
  case 0
  then show ?case using tx_bit_run [OF 0(1), of "is"] by (simp add: Let_def)
next
  case (Suc n)
  obtain xs ys where xs: "is = xs @ ys" "length xs = 11" "length ys = 11 * Suc n"
    by (rule split_cycles [of "is" 11 "11 * Suc n"]) (use Suc.prems(2) in simp_all)
  define t where "t = fst (sm_run ps2_tx_config xs s)"
  have t: "tx_mid (bit w 0) n (drop_bit 1 w) t"
    "map tx_levels (snd (sm_run ps2_tx_config xs s)) = bit_wave lvl (bit w 0)"
    using tx_bit_run [OF Suc.prems(1) xs(2)] Suc.prems(3) by (simp_all add: t_def)
  have bits: "map (bit w) [0..<Suc (Suc n)] = bit w 0 # map (bit (drop_bit 1 w)) [0..<Suc n]"
    by (simp add: bit_drop_bit_eq upt_conv_Cons map_Suc_upt [symmetric] del: upt_Suc)
  show ?case
    using Suc.IH [OF t(1) xs(3)] Suc.prems(3) t(2) unfolding bits xs(1)
    by (simp add: sm_run_append bit_drop_bit_eq comp_def del: upt_Suc flip: t_def)
qed

text \<open>
  A whole frame: the pull, eleven cycles for each of the \<open>n + 1\<close> bits, and two to be ready again.
\<close>

lemma tx_frame_run:
  assumes "tx_ready lvl n s" "length is = 3 + 11 * Suc n" "n < 32"
  shows "map tx_levels (snd (sm_run ps2_tx_config is (tx_push w s))) =
      (True, lvl) # frame_wave lvl (map (bit w) [0..<Suc n]) @ replicate 2 (True, bit w n) \<and>
    tx_ready (bit w n) AT_LOOP_INIT (fst (sm_run ps2_tx_config is (tx_push w s)))"
proof -
  obtain xs ys where xs: "is = xs @ ys" "length xs = 1" "length ys = 11 * Suc n + 2"
    by (rule split_cycles [of "is" 1 "11 * Suc n + 2"]) (use assms(2) in simp_all)
  obtain us vs where us: "ys = us @ vs" "length us = 11 * Suc n" "length vs = 2"
    by (rule split_cycles [of ys "11 * Suc n" 2]) (use xs in simp_all)
  obtain i where i: "xs = [i]" using xs(2) by (auto simp: length_Suc_conv)
  obtain j1 j2 where j: "vs = [j1, j2]" using us(3) by (auto simp: length_Suc_conv numeral_eq_Suc)
  define s1 where "s1 = sm_cycle ps2_tx_config i (tx_push w s)"
  have s1: "tx_mid lvl n w s1" "tx_levels s1 = (True, lvl)"
    using assms(1) by (simp_all add: s1_def tx_push_def sm_cycle_def sm_exec_def sm_advance_def program_defs
        ins_defs tx_ready_def tx_mid_def tx_levels_def)
  define t where "t = fst (sm_run ps2_tx_config us s1)"
  have t: "sm_pc t = 7" "sm_delay t = 0" "sm_tx t = []" "sm_set t = 1" "sm_out t = of_bool (bit w n)"
    and tr: "map tx_levels (snd (sm_run ps2_tx_config us s1)) = frame_wave lvl (map (bit w) [0..<Suc n])"
    using tx_bits_run [OF s1(1) us(2) assms(3)] by (simp_all add: t_def Let_def)
  have e: "sm_run ps2_tx_config [j1, j2] t =
      (let t1 = sm_cycle ps2_tx_config j1 t; t2 = sm_cycle ps2_tx_config j2 t1 in (t2, [t1, t2]))"
    by (simp add: prod_eq_iff Let_def)
  have f: "tx_ready (bit w n) AT_LOOP_INIT (fst (sm_run ps2_tx_config [j1, j2] t)) \<and>
      map tx_levels (snd (sm_run ps2_tx_config [j1, j2] t)) = replicate 2 (True, bit w n)"
    using t unfolding e
    by (simp add: sm_cycle_def sm_exec_def sm_advance_def program_defs ins_defs const_defs Let_def tx_ready_def
        tx_levels_def numeral_2_eq_2)
  show ?thesis
    using f tr s1(2) unfolding xs(1) us(1) i j
    by (simp add: sm_run_append del: upt_Suc frame_wave.simps flip: s1_def t_def)
qed

text \<open>
  C30. What the transmitter puts on the wire: between two ready states a byte takes 11 cycles of 10 us
  per bit, and a receiver that samples DATA on the rising clock edges reads the frame, start bit,
  data, parity and stop bit in AT mode, start bit and data in XT mode.  On the falling edges, where a
  PS/2 host and this firmware's own framer sample, DATA still has the level of the bit before.
\<close>

theorem tx_waveform:
  assumes "tx_ready lvl AT_LOOP_INIT s"
  shows "(length is = 124 \<longrightarrow>
      (let run = sm_run ps2_tx_config is (send_at_byte b s); wave = map tx_levels (snd run) in
       at_rises True wave = at_bits b \<and> at_falls True wave = lvl # butlast (at_bits b) \<and>
       tx_ready True AT_LOOP_INIT (fst run))) \<and>
    (length is = 102 \<longrightarrow>
      (let run = sm_run ps2_tx_config is (send_xt_byte b s); wave = map tx_levels (snd run) in
       at_rises True wave = xt_bits b \<and> at_falls True wave = lvl # butlast (xt_bits b) \<and>
       tx_ready (bit b 7) AT_LOOP_INIT (fst run)))"
proof (intro conjI impI)
  have at: "map (bit (pack_at_frame b)) [0..<Suc 10] = at_bits b" "bit (pack_at_frame b) 10"
    using pack_at_bits [of b] by (simp_all add: pack_at_bit)
  have xt: "map (bit (pack_xt_frame b)) [0..<Suc 8] = xt_bits b" "bit (pack_xt_frame b) 8 = bit b 7"
    using pack_xt_bits [of b] by (simp_all add: pack_xt_bit)
  have edges: "at_rises True ((True, lvl) # frame_wave lvl bs @ replicate 2 (True, x)) = bs"
    "at_falls True ((True, lvl) # frame_wave lvl bs @ replicate 2 (True, x)) = butlast (lvl # bs)" for bs x
    by (simp_all add: frame_wave_edges numeral_2_eq_2 del: butlast.simps)
  show "let run = sm_run ps2_tx_config is (send_at_byte b s); wave = map tx_levels (snd run) in
       at_rises True wave = at_bits b \<and> at_falls True wave = lvl # butlast (at_bits b) \<and>
       tx_ready True AT_LOOP_INIT (fst run)" if "length is = 124"
  proof -
    have w: "map tx_levels (snd (sm_run ps2_tx_config is (send_at_byte b s))) =
        (True, lvl) # frame_wave lvl (at_bits b) @ replicate 2 (True, True)"
      "tx_ready True AT_LOOP_INIT (fst (sm_run ps2_tx_config is (send_at_byte b s)))"
      using tx_frame_run [of lvl 10 s "is" "pack_at_frame b"] that assms
      unfolding at(1) send_at_byte_def by (simp_all add: at(2) AT_LOOP_INIT_def)
    have "at_bits b \<noteq> []" by (simp add: at_bits_def)
    with w(2) show ?thesis unfolding Let_def w(1) edges by simp
  qed
  have ready: "tx_ready lvl 8 (exec_set_y set_y_xt s)"
    using assms by (simp add: tx_ready_def exec_set_y_def set_y_xt_def XT_LOOP_INIT_def)
  show "let run = sm_run ps2_tx_config is (send_xt_byte b s); wave = map tx_levels (snd run) in
       at_rises True wave = xt_bits b \<and> at_falls True wave = lvl # butlast (xt_bits b) \<and>
       tx_ready (bit b 7) AT_LOOP_INIT (fst run)" if "length is = 102"
  proof -
    have w: "map tx_levels (snd (sm_run ps2_tx_config is (send_xt_byte b s))) =
        (True, lvl) # frame_wave lvl (xt_bits b) @ replicate 2 (True, bit b 7)"
      "tx_ready (bit b 7) AT_LOOP_INIT (fst (sm_run ps2_tx_config is (send_xt_byte b s)))"
      using tx_frame_run [OF ready, of "is" "pack_xt_frame b"] that
      unfolding xt(1) send_xt_byte_def by (simp_all add: xt(2))
    have "xt_bits b \<noteq> []" by (simp add: xt_bits_def)
    with w(2) show ?thesis unfolding Let_def w(1) edges by simp
  qed
qed

theorem tx_waveform_witness:
  "at_falls True (map tx_levels (snd (sm_run ps2_tx_config (replicate 124 (0, \<lambda>_. False))
     (send_at_byte 0x1C ((sm_start 1 1 False)\<lparr>sm_pc := 1, sm_y := 10\<rparr>))))) =
   [True, False, False, False, True, True, True, False, False, False, False]"
proof -
  have r: "tx_ready True AT_LOOP_INIT ((sm_start 1 1 False)\<lparr>sm_pc := 1, sm_y := 10\<rparr>)"
    by (simp add: tx_ready_def sm_start_def AT_LOOP_INIT_def)
  have b: "at_bits 0x1C = [False, False, False, True, True, True, False, False, False, False, True]"
    by code_simp
  show ?thesis
    using tx_waveform [OF r, of "replicate 124 (0, \<lambda>_. False)" "0x1C"] by (simp add: Let_def b)
qed

end
