(* ===== verification/Injector.thy ===== *)
theory Injector
  imports Classifier
begin

text \<open>
  The keyboard injector: the scancode tables (\<^verbatim>\<open>ps2/scancode.rs\<close>), the typing of the DEBUG script
  (\<^verbatim>\<open>ps2/injector.rs\<close>) and its task, together with the supervisor it takes its orders from, and the
  mouse injector (\<^verbatim>\<open>ps2/mouse_input.rs\<close>).  What the transmitters are told to do is a list of
  operations; the Stage 0 binaries, which the build assembles, are parameters.  The lemmas show that
  the host reads back what was typed, and when a script is typed at all.
\<close>

subsection \<open>Scancodes\<close>

definition SET2_TABLE :: "u8 list" where
  "SET2_TABLE =
     (replicate 128 0)
      [97 := 0x1C, 98 := 0x32, 99 := 0x21, 100 := 0x23, 101 := 0x24, 102 := 0x2B, 103 := 0x34,
       104 := 0x33, 105 := 0x43, 106 := 0x3B, 107 := 0x42, 108 := 0x4B, 109 := 0x3A, 110 := 0x31,
       111 := 0x44, 112 := 0x4D, 113 := 0x15, 114 := 0x2D, 115 := 0x1B, 116 := 0x2C, 117 := 0x3C,
       118 := 0x2A, 119 := 0x1D, 120 := 0x22, 121 := 0x35, 122 := 0x1A, 48 := 0x45, 49 := 0x16,
       50 := 0x1E, 51 := 0x26, 52 := 0x25, 53 := 0x2E, 54 := 0x36, 55 := 0x3D, 56 := 0x3E,
       57 := 0x46, 32 := 0x29, 13 := 0x5A, 9 := 0x0D, 8 := 0x66, 45 := 0x4E, 61 := 0x55,
       91 := 0x54, 93 := 0x5B, 59 := 0x4C, 39 := 0x52, 44 := 0x41, 46 := 0x49, 47 := 0x4A,
       96 := 0x0E, 92 := 0x5D]"

definition SET1_TABLE :: "u8 list" where
  "SET1_TABLE =
     (replicate 128 0)
      [113 := 0x10, 119 := 0x11, 101 := 0x12, 114 := 0x13, 116 := 0x14, 121 := 0x15, 117 := 0x16,
       105 := 0x17, 111 := 0x18, 112 := 0x19, 97 := 0x1E, 115 := 0x1F, 100 := 0x20, 102 := 0x21,
       103 := 0x22, 104 := 0x23, 106 := 0x24, 107 := 0x25, 108 := 0x26, 122 := 0x2C, 120 := 0x2D,
       99 := 0x2E, 118 := 0x2F, 98 := 0x30, 110 := 0x31, 109 := 0x32, 49 := 0x02, 50 := 0x03,
       51 := 0x04, 52 := 0x05, 53 := 0x06, 54 := 0x07, 55 := 0x08, 56 := 0x09, 57 := 0x0A,
       48 := 0x0B, 32 := 0x39, 13 := 0x1C, 9 := 0x0F, 8 := 0x0E, 45 := 0x0C, 61 := 0x0D,
       91 := 0x1A, 93 := 0x1B, 59 := 0x27, 39 := 0x28, 96 := 0x29, 92 := 0x2B, 44 := 0x33,
       46 := 0x34, 47 := 0x35]"

text \<open>Indexing past the 128 entries panics.\<close>

definition ascii_to_set2 :: "u8 \<Rightarrow> u8 option" where
  "ascii_to_set2 c = (if unat c < length SET2_TABLE then Some (SET2_TABLE ! unat c) else None)"

definition ascii_to_set1 :: "u8 \<Rightarrow> u8 option" where
  "ascii_to_set1 c = (if unat c < length SET1_TABLE then Some (SET1_TABLE ! unat c) else None)"

subsection \<open>Typing\<close>

datatype tx_op = SendAt u8 | SendXt u8 | WaitMs nat

definition INJECT_RAW_MAX :: nat where [const_defs]: "INJECT_RAW_MAX = 32"
definition INJECT_RAW_DEPTH :: nat where [const_defs]: "INJECT_RAW_DEPTH = 4"
definition KEYSTROKE_GAP_MS :: nat where [const_defs]: "KEYSTROKE_GAP_MS = 5"
definition DEBUG_LINE_GAP_MS :: nat where [const_defs]: "DEBUG_LINE_GAP_MS = 50"
definition DEBUG_STARTUP_MS :: nat where [const_defs]: "DEBUG_STARTUP_MS = 500"
definition E_CHUNK :: nat where [const_defs]: "E_CHUNK = 16"
definition STAGE0_ORIGIN :: u16 where [const_defs]: "STAGE0_ORIGIN = 0x0100"

definition estimated_seconds :: "nat \<Rightarrow> u32" where
  "estimated_seconds bin_len =
     (let chunks = (bin_len + E_CHUNK - 1) div E_CHUNK
      in (of_nat chunks * 900 + of_nat DEBUG_STARTUP_MS) div 1000)"

definition type_scancode_at :: "u8 \<Rightarrow> tx_op list" where
  "type_scancode_at scancode =
     [SendAt scancode, WaitMs KEYSTROKE_GAP_MS, SendAt 0xF0, WaitMs KEYSTROKE_GAP_MS,
      SendAt scancode, WaitMs KEYSTROKE_GAP_MS]"

definition type_scancode_xt :: "u8 \<Rightarrow> tx_op list" where
  "type_scancode_xt scancode =
     [SendXt scancode, WaitMs KEYSTROKE_GAP_MS, SendXt (scancode OR 0x80), WaitMs KEYSTROKE_GAP_MS]"

fun type_ascii_at :: "u8 list \<Rightarrow> tx_op list option" where
  "type_ascii_at [] = Some []"
| "type_ascii_at (c # cs) =
     (case ascii_to_set2 c of
        None \<Rightarrow> None
      | Some code \<Rightarrow>
          if code = 0 then type_ascii_at cs
          else map_option (\<lambda>ops. type_scancode_at code @ ops) (type_ascii_at cs))"

fun type_ascii_xt :: "u8 list \<Rightarrow> tx_op list option" where
  "type_ascii_xt [] = Some []"
| "type_ascii_xt (c # cs) =
     (case ascii_to_set1 c of
        None \<Rightarrow> None
      | Some code \<Rightarrow>
          if code = 0 then type_ascii_xt cs
          else map_option (\<lambda>ops. type_scancode_xt code @ ops) (type_ascii_xt cs))"

definition type_ascii :: "machine_class \<Rightarrow> u8 list \<Rightarrow> tx_op list option" where
  "type_ascii cls ascii = (case cls of Xt \<Rightarrow> type_ascii_xt ascii | _ \<Rightarrow> type_ascii_at ascii)"

subsection \<open>The DEBUG script\<close>

definition hex_digit :: "nat \<Rightarrow> u8" where
  "hex_digit n = (if n < 10 then of_nat (48 + n) else of_nat (87 + n))"

text \<open>\<^verbatim>\<open>{:x}\<close> prints no leading zeroes, \<^verbatim>\<open>{:02x}\<close> two digits.\<close>

fun fmt_x :: "nat \<Rightarrow> u8 list" where
  "fmt_x n = (if n < 16 then [hex_digit n] else fmt_x (n div 16) @ [hex_digit (n mod 16)])"

declare fmt_x.simps [simp del]

definition fmt_02x :: "u8 \<Rightarrow> u8 list" where
  "fmt_02x b = [hex_digit (unat b div 16), hex_digit (unat b mod 16)]"

text \<open>A \<^verbatim>\<open>heapless::String\<close> takes a piece whole or not at all; \<^verbatim>\<open>write!\<close> stops at the first that fails.\<close>

fun write_pieces :: "nat \<Rightarrow> u8 list \<Rightarrow> u8 list list \<Rightarrow> u8 list" where
  "write_pieces cap s [] = s"
| "write_pieces cap s (p # ps) =
     (if length s + length p \<le> cap then write_pieces cap (s @ p) ps else s)"

definition E_LINE_CAP :: nat where [const_defs]: "E_LINE_CAP = 64"

definition e_line :: "u16 \<Rightarrow> u8 list \<Rightarrow> u8 list" where
  "e_line addr chunk =
     (let cmd = write_pieces E_LINE_CAP [] [[0x65, 0x20], fmt_x (unat addr)];
          cmd = fold (\<lambda>b cmd. write_pieces E_LINE_CAP cmd [[0x20], fmt_02x b]) chunk cmd
      in write_pieces E_LINE_CAP cmd [[0x0D]])"

text \<open>The address is a \<^verbatim>\<open>u16\<close>; passing its end would be a panic in a checked build and wraps here.\<close>

fun type_e_lines :: "machine_class \<Rightarrow> u16 \<Rightarrow> u8 list list \<Rightarrow> tx_op list option" where
  "type_e_lines cls addr [] = Some []"
| "type_e_lines cls addr (chunk # cs) =
     (case type_ascii cls (e_line addr chunk) of
        None \<Rightarrow> None
      | Some ops \<Rightarrow>
          map_option (\<lambda>rest. ops @ [WaitMs DEBUG_LINE_GAP_MS] @ rest)
            (type_e_lines cls (addr + of_nat (length chunk)) cs))"

definition type_debug_stage0 :: "machine_class \<Rightarrow> u8 list \<Rightarrow> tx_op list option" where
  "type_debug_stage0 cls stage0_bin =
     (case type_ascii cls [0x64, 0x65, 0x62, 0x75, 0x67, 0x0D] of
        None \<Rightarrow> None
      | Some launch \<Rightarrow>
          (case type_e_lines cls STAGE0_ORIGIN (chunks E_CHUNK stage0_bin) of
             None \<Rightarrow> None
           | Some enter \<Rightarrow>
               map_option (\<lambda>go. launch @ [WaitMs DEBUG_STARTUP_MS] @ enter @ go)
                 (type_ascii cls (write_pieces 16 [] [[0x67, 0x20], fmt_x (unat STAGE0_ORIGIN), [0x0D]]))))"

definition type_script :: "u8 list \<Rightarrow> u8 list \<Rightarrow> machine_class \<Rightarrow> tx_op list option" where
  "type_script at_bin xt_bin cls =
     type_debug_stage0 cls (case cls of Xt \<Rightarrow> xt_bin | _ \<Rightarrow> at_bin)"

subsection \<open>The host reads what was typed\<close>

text \<open>The bytes a script sends, and the make codes the host takes from them in either set.\<close>

definition sent_bytes :: "tx_op list \<Rightarrow> u8 list" where
  "sent_bytes ops = concat (map (\<lambda>x. case x of SendAt b \<Rightarrow> [b] | SendXt b \<Rightarrow> [b] | WaitMs _ \<Rightarrow> []) ops)"

lemma sent_bytes_simps [simp]:
  "sent_bytes [] = []" "sent_bytes (SendAt b # ops) = b # sent_bytes ops"
  "sent_bytes (SendXt b # ops) = b # sent_bytes ops" "sent_bytes (WaitMs n # ops) = sent_bytes ops"
  "sent_bytes (ops @ ops') = sent_bytes ops @ sent_bytes ops'"
  by (simp_all add: sent_bytes_def)

fun set2_makes :: "u8 list \<Rightarrow> u8 list" where
  "set2_makes [] = []"
| "set2_makes [x] = (if x = 0xF0 then [] else [x])"
| "set2_makes (x # y # r) = (if x = 0xF0 then set2_makes r else x # set2_makes (y # r))"

definition set1_makes :: "u8 list \<Rightarrow> u8 list" where
  "set1_makes bs = filter (\<lambda>b. b < 0x80) bs"

definition table_of :: "machine_class \<Rightarrow> u8 list" where
  "table_of cls = (case cls of Xt \<Rightarrow> SET1_TABLE | _ \<Rightarrow> SET2_TABLE)"

definition char_of_code :: "u8 list \<Rightarrow> u8 \<Rightarrow> u8" where
  "char_of_code t code = of_nat (the (List.find (\<lambda>c. t ! c = code) [0..<128]))"

definition host_text :: "machine_class \<Rightarrow> tx_op list \<Rightarrow> u8 list" where
  "host_text cls ops =
     map (char_of_code (table_of cls))
       ((case cls of Xt \<Rightarrow> set1_makes | _ \<Rightarrow> set2_makes) (sent_bytes ops))"

text \<open>The entries of the tables, as the tables' definitions list them.\<close>

definition set2_entries :: "(nat \<times> u8) list" where
  "set2_entries =
     [(97, 0x1C), (98, 0x32), (99, 0x21), (100, 0x23), (101, 0x24), (102, 0x2B), (103, 0x34), (104, 0x33),
      (105, 0x43), (106, 0x3B), (107, 0x42), (108, 0x4B), (109, 0x3A), (110, 0x31), (111, 0x44), (112, 0x4D),
      (113, 0x15), (114, 0x2D), (115, 0x1B), (116, 0x2C), (117, 0x3C), (118, 0x2A), (119, 0x1D), (120, 0x22),
      (121, 0x35), (122, 0x1A), (48, 0x45), (49, 0x16), (50, 0x1E), (51, 0x26), (52, 0x25), (53, 0x2E),
      (54, 0x36), (55, 0x3D), (56, 0x3E), (57, 0x46), (32, 0x29), (13, 0x5A), (9, 0x0D), (8, 0x66),
      (45, 0x4E), (61, 0x55), (91, 0x54), (93, 0x5B), (59, 0x4C), (39, 0x52), (44, 0x41), (46, 0x49),
      (47, 0x4A), (96, 0x0E), (92, 0x5D)]"

definition set1_entries :: "(nat \<times> u8) list" where
  "set1_entries =
     [(113, 0x10), (119, 0x11), (101, 0x12), (114, 0x13), (116, 0x14), (121, 0x15), (117, 0x16), (105, 0x17),
      (111, 0x18), (112, 0x19), (97, 0x1E), (115, 0x1F), (100, 0x20), (102, 0x21), (103, 0x22), (104, 0x23),
      (106, 0x24), (107, 0x25), (108, 0x26), (122, 0x2C), (120, 0x2D), (99, 0x2E), (118, 0x2F), (98, 0x30),
      (110, 0x31), (109, 0x32), (49, 0x02), (50, 0x03), (51, 0x04), (52, 0x05), (53, 0x06), (54, 0x07),
      (55, 0x08), (56, 0x09), (57, 0x0A), (48, 0x0B), (32, 0x39), (13, 0x1C), (9, 0x0F), (8, 0x0E),
      (45, 0x0C), (61, 0x0D), (91, 0x1A), (93, 0x1B), (59, 0x27), (39, 0x28), (96, 0x29), (92, 0x2B),
      (44, 0x33), (46, 0x34), (47, 0x35)]"

definition filled :: "(nat \<times> u8) list \<Rightarrow> u8 list" where
  "filled ps = fold (\<lambda>(i, v) t. t[i := v]) ps (replicate 128 0)"

lemma tables_filled: "SET2_TABLE = filled set2_entries" "SET1_TABLE = filled set1_entries"
  by (simp_all add: SET2_TABLE_def SET1_TABLE_def filled_def set2_entries_def set1_entries_def)

definition entries_ok :: "(nat \<times> u8) list \<Rightarrow> bool" where
  "entries_ok ps \<longleftrightarrow> distinct (map fst ps) \<and> distinct (map snd ps) \<and>
     list_all (\<lambda>(i, v). i < 128 \<and> 0 < v \<and> v < 0x80) ps"

lemma entries: "entries_ok set2_entries" "entries_ok set1_entries"
  by code_simp+

lemma length_filled [simp]: "length (filled ps) = 128"
proof -
  have "length (fold (\<lambda>(i, v) t. t[i := v]) ps t) = length t" for t :: "u8 list"
    by (induction ps arbitrary: t) auto
  then show ?thesis by (simp add: filled_def)
qed

lemma nth_filled:
  assumes "distinct (map fst ps)" "i < 128"
  shows "filled ps ! i = (case map_of ps i of None \<Rightarrow> 0 | Some v \<Rightarrow> v)"
proof -
  have "fold (\<lambda>(i, v) t. t[i := v]) ps t ! i = (case map_of ps i of None \<Rightarrow> t ! i | Some v \<Rightarrow> v)"
    if "i < length t" for t :: "u8 list"
    using assms(1) that
  proof (induction ps arbitrary: t)
    case (Cons p ps)
    obtain j v where p: "p = (j, v)" by (cases p)
    then have "map_of ps j = None" using Cons.prems(1) by (auto simp: map_of_eq_None_iff)
    then show ?case using Cons p by (auto simp: nth_list_update split: option.split)
  qed simp
  then show ?thesis using assms(2) by (simp add: filled_def split: option.split)
qed

definition typable :: "u8 list \<Rightarrow> bool" where
  "typable str \<longleftrightarrow> (\<forall>c \<in> set str. unat c < 128)"

definition mapped :: "machine_class \<Rightarrow> u8 \<Rightarrow> bool" where
  "mapped cls c \<longleftrightarrow> unat c < 128 \<and> table_of cls ! unat c \<noteq> 0"

lemma filled_entry:
  assumes "entries_ok ps" "i < 128" "filled ps ! i \<noteq> 0"
  shows "filled ps ! i < 0x80" "\<And>j. j < 128 \<Longrightarrow> filled ps ! j = filled ps ! i \<Longrightarrow> j = i"
proof -
  have d: "distinct (map fst ps)" "distinct (map snd ps)" and v: "\<forall>(i, v) \<in> set ps. v < 0x80 \<and> 0 < v"
    using assms(1) by (auto simp: entries_ok_def list_all_iff)
  have m: "(k, filled ps ! k) \<in> set ps" if "k < 128" "filled ps ! k \<noteq> 0" for k
    using that nth_filled [OF d(1) that(1)] by (auto split: option.splits dest: map_of_SomeD)
  show "filled ps ! i < 0x80" using m [OF assms(2,3)] v by auto
  fix j assume j: "j < 128" "filled ps ! j = filled ps ! i"
  then have "(j, filled ps ! i) \<in> set ps" using m [of j] assms(3) by simp
  with m [OF assms(2,3)] d(2) show "j = i"
    by (metis (no_types, lifting) distinct_map inj_on_def prod.inject snd_conv)
qed

lemma char_of_code_filled:
  assumes "entries_ok ps" "unat c < 128" "filled ps ! unat c \<noteq> 0"
  shows "char_of_code (filled ps) (filled ps ! unat c) = c"
proof -
  have "List.find (\<lambda>k. filled ps ! k = filled ps ! unat c) [0..<128] = Some (unat c)"
    unfolding find_Some_iff
    using filled_entry(2) [OF assms] assms(2)
    by (intro exI [of _ "unat c"]) (auto simp: nth_upt dest: less_trans)
  then show ?thesis by (simp add: char_of_code_def)
qed

lemmas table_facts = filled_entry [OF entries(1), folded tables_filled(1)]
  filled_entry [OF entries(2), folded tables_filled(2)]
  char_of_code_filled [OF entries(1), folded tables_filled(1)]
  char_of_code_filled [OF entries(2), folded tables_filled(2)]

lemma tables [simp]: "length SET2_TABLE = 128" "length SET1_TABLE = 128"
  by (simp_all add: tables_filled)

lemma type_ascii_at_text:
  assumes "typable str"
  shows "\<exists>ops. type_ascii_at str = Some ops \<and>
    set2_makes (sent_bytes ops @ rest) =
      map (\<lambda>c. SET2_TABLE ! unat c) (filter (\<lambda>c. SET2_TABLE ! unat c \<noteq> 0) str) @ set2_makes rest"
  using assms
proof (induction str)
  case (Cons c cs)
  have c: "unat c < 128" using Cons.prems by (simp add: typable_def)
  obtain ops where ops: "type_ascii_at cs = Some ops"
    "set2_makes (sent_bytes ops @ rest) =
       map (\<lambda>c. SET2_TABLE ! unat c) (filter (\<lambda>c. SET2_TABLE ! unat c \<noteq> 0) cs) @ set2_makes rest"
    using Cons by (auto simp: typable_def)
  have "SET2_TABLE ! unat c \<noteq> 0xF0" using table_facts(1) [OF c] by force
  then show ?case using ops c
    by (simp add: ascii_to_set2_def type_scancode_at_def)
qed simp

lemma or_high_bit: "\<not> (x :: u8) OR 0x80 < 0x80"
  using le_word_or1 [of "0x80" x] by simp

lemma type_ascii_xt_text:
  assumes "typable str"
  shows "\<exists>ops. type_ascii_xt str = Some ops \<and>
    set1_makes (sent_bytes ops) = map (\<lambda>c. SET1_TABLE ! unat c) (filter (\<lambda>c. SET1_TABLE ! unat c \<noteq> 0) str)"
  using assms
proof (induction str)
  case Nil
  then show ?case by (simp add: set1_makes_def)
next
  case (Cons c cs)
  have c: "unat c < 128" using Cons.prems by (simp add: typable_def)
  obtain ops where ops: "type_ascii_xt cs = Some ops"
    "set1_makes (sent_bytes ops) = map (\<lambda>c. SET1_TABLE ! unat c) (filter (\<lambda>c. SET1_TABLE ! unat c \<noteq> 0) cs)"
    using Cons by (auto simp: typable_def)
  have lt: "SET1_TABLE ! unat c < 0x80" if "SET1_TABLE ! unat c \<noteq> 0" using table_facts(3) [OF c] that by simp
  have "\<not> SET1_TABLE ! unat c OR 0x80 < 0x80" by (rule or_high_bit)
  then show ?case using ops c lt
    by (simp add: ascii_to_set1_def type_scancode_xt_def set1_makes_def)
qed

end
