(* ===== verification/DebugScript.thy ===== *)
theory DebugScript
  imports Injector
begin

text \<open>
  What the host makes of the typed script.  The keystrokes of a text are read back as the text; the
  lines of the DEBUG session, read by a small model of DOS DEBUG's \<^verbatim>\<open>e\<close> and \<^verbatim>\<open>g\<close> commands, put the
  Stage 0 binary at its origin and start it.
\<close>

subsection \<open>Typed text is read back\<close>

lemma table_of_simps [simp]:
  "table_of Xt = SET1_TABLE" "table_of At = SET2_TABLE" "table_of Ps2 = SET2_TABLE"
  by (simp_all add: table_of_def)

lemma typable_simps [simp]:
  "typable []" "typable (c # cs) \<longleftrightarrow> unat c < 128 \<and> typable cs"
  "typable (xs @ ys) \<longleftrightarrow> typable xs \<and> typable ys"
  by (auto simp: typable_def)

lemma map_char_of_code:
  assumes "typable str"
  shows "map (char_of_code (table_of cls))
      (map (\<lambda>c. table_of cls ! unat c) (filter (\<lambda>c. table_of cls ! unat c \<noteq> 0) str)) =
    filter (mapped cls) str"
  using assms
  by (induction str) (cases cls; auto simp: mapped_def table_facts)+

lemma type_ascii_some:
  assumes "typable str"
  shows "\<exists>ops. type_ascii cls str = Some ops \<and>
    host_text cls (ops @ rest) = filter (mapped cls) str @ host_text cls rest"
proof (cases "cls = Xt")
  case True
  with type_ascii_xt_text [OF assms] map_char_of_code [OF assms, of Xt] show ?thesis
    by (auto simp: type_ascii_def host_text_def set1_makes_def)
next
  case False
  then have c: "table_of cls = SET2_TABLE" "type_ascii cls = type_ascii_at"
    by (cases cls; auto simp: type_ascii_def fun_eq_iff)+
  obtain ops where ops: "type_ascii_at str = Some ops"
    "set2_makes (sent_bytes ops @ sent_bytes rest) =
      map (\<lambda>c. SET2_TABLE ! unat c) (filter (\<lambda>c. SET2_TABLE ! unat c \<noteq> 0) str) @ set2_makes (sent_bytes rest)"
    using type_ascii_at_text [OF assms] by blast
  have t: "(case cls of Xt \<Rightarrow> set1_makes | _ \<Rightarrow> set2_makes) = set2_makes"
    using False by (cases cls) simp_all
  show ?thesis
    using ops map_char_of_code [OF assms, of cls] by (auto simp: c host_text_def t)
qed

lemma type_ascii_none:
  assumes "\<not> typable str"
  shows "type_ascii cls str = None"
proof -
  have "type_ascii_at str = None" "type_ascii_xt str = None"
    using assms
    by (induction str) (auto simp: ascii_to_set2_def ascii_to_set1_def)
  then show ?thesis by (cases cls) (simp_all add: type_ascii_def)
qed

lemma host_text_wait [simp]: "host_text cls (WaitMs n # ops) = host_text cls ops"
  by (simp add: host_text_def)

lemma host_text_Nil [simp]: "host_text cls [] = []"
  by (simp add: host_text_def set1_makes_def split: machine_class.split)

text \<open>
  Typing.  Typing a text panics exactly if it has a character past the tables' 128 entries.
  Otherwise the host, which takes the make codes of its scancode set from the bytes sent, reads
  exactly the text without the characters that have no key.
\<close>

theorem typed_text_read_back:
  "map_option (host_text cls) (type_ascii cls str) =
     (if typable str then Some (filter (mapped cls) str) else None)"
  using type_ascii_none [of str cls] type_ascii_some [of str cls "[]"] by auto

subsection \<open>A model of DEBUG\<close>

text \<open>
  The part of DOS DEBUG the script relies on: a line is cut into words at the blanks, numbers are
  hexadecimal, \<^verbatim>\<open>e\<close> stores bytes from an address on, \<^verbatim>\<open>g\<close> starts the program there; other lines do
  nothing.  Lines end with a carriage return.
\<close>

fun split_on :: "'a \<Rightarrow> 'a list \<Rightarrow> 'a list list" where
  "split_on d [] = [[]]"
| "split_on d (x # xs) =
     (if x = d then [] # split_on d xs
      else (case split_on d xs of w # ws \<Rightarrow> (x # w) # ws | [] \<Rightarrow> [[x]]))"

definition hex_value :: "u8 \<Rightarrow> nat" where
  "hex_value c = (if unat c < 58 then unat c - 48 else unat c - 87)"

definition parse_hex :: "u8 list \<Rightarrow> nat" where
  "parse_hex cs = foldl (\<lambda>n c. 16 * n + hex_value c) 0 cs"

record debug =
  db_memory :: "u16 \<Rightarrow> u8"
  db_started :: "u16 option"

fun store_bytes :: "u16 \<Rightarrow> u8 list \<Rightarrow> (u16 \<Rightarrow> u8) \<Rightarrow> u16 \<Rightarrow> u8" where
  "store_bytes a [] m = m"
| "store_bytes a (b # bs) m = store_bytes (a + 1) bs (m(a := b))"

definition debug_line :: "debug \<Rightarrow> u8 list \<Rightarrow> debug" where
  "debug_line d line =
     (case split_on 0x20 line of
        cmd # a # ws \<Rightarrow>
          if cmd = [0x65] then
            d\<lparr>db_memory := store_bytes (of_nat (parse_hex a)) (map (\<lambda>w. of_nat (parse_hex w)) ws) (db_memory d)\<rparr>
          else if cmd = [0x67] then d\<lparr>db_started := Some (of_nat (parse_hex a))\<rparr>
          else d
      | _ \<Rightarrow> d)"

definition debug_session :: "u8 list \<Rightarrow> debug \<Rightarrow> debug" where
  "debug_session str d = foldl debug_line d (split_on 0x0D str)"

subsection \<open>The lines of the script\<close>

lemma split_on_other [simp]: "d \<notin> set w \<Longrightarrow> split_on d w = [w]"
  by (induction w) auto

lemma split_on_append [simp]: "d \<notin> set w \<Longrightarrow> split_on d (w @ d # r) = w # split_on d r"
  by (induction w) auto

text \<open>The characters of the script, all of which have keys in both sets.\<close>

definition hex_chars :: "u8 list" where
  "hex_chars = [0x30, 0x31, 0x32, 0x33, 0x34, 0x35, 0x36, 0x37, 0x38, 0x39, 0x61, 0x62, 0x63, 0x64, 0x65, 0x66]"

definition script_chars :: "u8 list" where
  "script_chars = hex_chars @ [0x67, 0x75, 0x20, 0x0D]"

lemma nat_less_16: "n < 16 \<Longrightarrow> n \<in> {0, 1, 2, 3, 4, 5, 6, 7, 8, 9, 10, 11, 12, 13, 14, 15::nat}"
  by (simp add: less_Suc_eq numeral_eq_Suc)

lemma hex_digit_char [simp]: "n < 16 \<Longrightarrow> hex_digit n \<in> set hex_chars"
  by (drule nat_less_16) (auto simp: hex_digit_def hex_chars_def)

lemma hex_chars_keys:
  "set hex_chars \<subseteq> set script_chars" "0x20 \<notin> set hex_chars" "0x0D \<notin> set hex_chars"
  by (simp_all add: script_chars_def hex_chars_def)

lemma script_chars_typable: "typable script_chars"
  by (simp add: script_chars_def hex_chars_def)

lemma script_chars_mapped: "c \<in> set script_chars \<Longrightarrow> mapped cls c"
  using entries
  by (cases cls) (auto simp: script_chars_def hex_chars_def mapped_def tables_filled nth_filled entries_ok_def
    set2_entries_def set1_entries_def)

lemma hex_value_digit [simp]: "n < 16 \<Longrightarrow> hex_value (hex_digit n) = n"
  by (drule nat_less_16) (auto simp: hex_value_def hex_digit_def)

lemma parse_hex_snoc: "parse_hex (cs @ [c]) = 16 * parse_hex cs + hex_value c"
  by (simp add: parse_hex_def)

lemma parse_fmt_x [simp]: "parse_hex (fmt_x n) = n"
proof (induction n rule: fmt_x.induct)
  case (1 n)
  show ?case
  proof (cases "n < 16")
    case True
    then show ?thesis by (subst fmt_x.simps) (simp add: parse_hex_def)
  next
    case False
    then show ?thesis using 1 by (subst fmt_x.simps) (simp add: parse_hex_snoc)
  qed
qed

lemma parse_fmt_02x [simp]: "parse_hex (fmt_02x b) = unat b"
proof -
  have "unat b div 16 < 16" using unsigned_less [of b, where ?'a = nat] by simp
  then show ?thesis by (simp add: fmt_02x_def parse_hex_def)
qed

lemma length_fmt_x: "n < 65536 \<Longrightarrow> length (fmt_x n) \<le> 4"
  by (subst fmt_x.simps; subst fmt_x.simps; subst fmt_x.simps; subst fmt_x.simps) (simp add: div_mult2_eq [symmetric])

lemma fmt_chars [simp]:
  "set (fmt_02x b) \<subseteq> set hex_chars" "n < 65536 \<Longrightarrow> set (fmt_x n) \<subseteq> set hex_chars"
proof -
  have "unat b div 16 < 16" using unsigned_less [of b, where ?'a = nat] by simp
  then show "set (fmt_02x b) \<subseteq> set hex_chars" by (simp add: fmt_02x_def)
  show "set (fmt_x n) \<subseteq> set hex_chars"
  proof (induction n rule: fmt_x.induct)
    case (1 n)
    then show ?case by (cases "n < 16"; subst fmt_x.simps) auto
  qed
qed

lemma write_pieces_fit:
  "length s + length (concat ps) \<le> cap \<Longrightarrow> write_pieces cap s ps = s @ concat ps"
  by (induction ps arbitrary: s) auto

definition line_bytes :: "u8 list \<Rightarrow> u8 list" where
  "line_bytes chunk = concat (map (\<lambda>w. 0x20 # w) (map fmt_02x chunk))"

lemma length_line_bytes [simp]: "length (line_bytes chunk) = 3 * length chunk"
  by (induction chunk) (simp_all add: line_bytes_def fmt_02x_def)

lemma fold_line_bytes:
  "length s + 3 * length chunk \<le> cap \<Longrightarrow>
   fold (\<lambda>b cmd. write_pieces cap cmd [[0x20], fmt_02x b]) chunk s = s @ line_bytes chunk"
proof (induction chunk arbitrary: s)
  case (Cons b chunk)
  have "write_pieces cap s [[0x20], fmt_02x b] = s @ 0x20 # fmt_02x b"
    using Cons.prems by (subst write_pieces_fit) (simp_all add: fmt_02x_def)
  then show ?case using Cons by (simp add: line_bytes_def fmt_02x_def)
qed (simp add: line_bytes_def)

lemma e_line_eq:
  assumes "length chunk \<le> 16"
  shows "e_line addr chunk = 0x65 # 0x20 # fmt_x (unat addr) @ line_bytes chunk @ [0x0D]"
proof -
  have l: "length (fmt_x (unat addr)) \<le> 4"
    using unsigned_less [of addr, where ?'a = nat] by (intro length_fmt_x) simp
  have "write_pieces E_LINE_CAP [] [[0x65, 0x20], fmt_x (unat addr)] = 0x65 # 0x20 # fmt_x (unat addr)"
    using l by (subst write_pieces_fit) (simp_all add: const_defs)
  moreover have "fold (\<lambda>b cmd. write_pieces E_LINE_CAP cmd [[0x20], fmt_02x b]) chunk
      (0x65 # 0x20 # fmt_x (unat addr)) = 0x65 # 0x20 # fmt_x (unat addr) @ line_bytes chunk"
    using l assms by (subst fold_line_bytes) (simp_all add: const_defs)
  ultimately show ?thesis
    using l assms by (simp add: e_line_def Let_def const_defs del: write_pieces.simps)
      (simp add: write_pieces_fit del: write_pieces.simps)
qed

subsection \<open>The session\<close>

lemma split_words:
  assumes "d \<notin> set w" "\<forall>x \<in> set ws. d \<notin> set x"
  shows "split_on d (w @ concat (map (\<lambda>x. d # x) ws)) = w # ws"
  using assms
proof (induction ws arbitrary: w)
  case (Cons x ws)
  then show ?case by simp
qed simp

lemma debug_session_line:
  "0x0D \<notin> set line \<Longrightarrow> debug_session (line @ 0x0D # rest) d = debug_session rest (debug_line d line)"
  by (simp add: debug_session_def)

lemma fmt_no_sep [simp]:
  "0x20 \<notin> set (fmt_02x b)" "0x0D \<notin> set (fmt_02x b)"
  "0x20 \<notin> set (fmt_x (unat (addr :: u16)))" "0x0D \<notin> set (fmt_x (unat (addr :: u16)))"
proof -
  have "unat addr < 65536" using unsigned_less [of addr, where ?'a = nat] by simp
  from fmt_chars(2) [OF this] fmt_chars(1) [of b] hex_chars_keys
  show "0x20 \<notin> set (fmt_02x b)" "0x0D \<notin> set (fmt_02x b)"
    "0x20 \<notin> set (fmt_x (unat addr))" "0x0D \<notin> set (fmt_x (unat addr))" by blast+
qed

lemma debug_session_e_line:
  assumes "length chunk \<le> 16"
  shows "debug_session (e_line addr chunk @ rest) d =
    debug_session rest (d\<lparr>db_memory := store_bytes addr chunk (db_memory d)\<rparr>)"
proof -
  let ?line = "[0x65] @ concat (map (\<lambda>x. 0x20 # x) (fmt_x (unat addr) # map fmt_02x chunk))"
  have w: "split_on 0x20 ?line = [0x65] # fmt_x (unat addr) # map fmt_02x chunk"
    by (rule split_words) auto
  have m: "debug_line d ?line = d\<lparr>db_memory := store_bytes addr chunk (db_memory d)\<rparr>"
    by (simp only: debug_line_def w list.case) (simp add: o_def)
  have "e_line addr chunk @ rest = ?line @ 0x0D # rest"
    by (simp add: e_line_eq [OF assms] line_bytes_def)
  also have "debug_session \<dots> d = debug_session rest (debug_line d ?line)"
    by (rule debug_session_line) auto
  finally show ?thesis by (simp only: m)
qed

text \<open>What the script is as a text.\<close>

fun e_lines :: "u16 \<Rightarrow> u8 list list \<Rightarrow> u8 list" where
  "e_lines addr [] = []"
| "e_lines addr (chunk # cs) = e_line addr chunk @ e_lines (addr + of_nat (length chunk)) cs"

definition script_text :: "u8 list \<Rightarrow> u8 list" where
  "script_text bin =
     [0x64, 0x65, 0x62, 0x75, 0x67, 0x0D] @ e_lines STAGE0_ORIGIN (chunks E_CHUNK bin) @
     [0x67, 0x20, 0x31, 0x30, 0x30, 0x0D]"

lemma host_text_script:
  assumes "set str \<subseteq> set script_chars"
  shows "\<exists>ops. type_ascii cls str = Some ops \<and> host_text cls (ops @ rest) = str @ host_text cls rest"
proof -
  have "typable str" using assms script_chars_typable by (auto simp: typable_def)
  moreover have "filter (mapped cls) str = str"
    using assms script_chars_mapped by (simp add: filter_id_conv subset_iff)
  ultimately show ?thesis using type_ascii_some [of str cls rest] by simp
qed

lemma e_line_chars:
  assumes "length chunk \<le> 16"
  shows "set (e_line addr chunk) \<subseteq> set script_chars"
proof -
  have "unat addr < 65536" using unsigned_less [of addr, where ?'a = nat] by simp
  then have "set (fmt_x (unat addr)) \<subseteq> set script_chars"
    using fmt_chars(2) hex_chars_keys(1) by blast
  moreover have blank: "0x20 \<in> set script_chars" by (simp add: script_chars_def)
  then have "set (line_bytes chunk) \<subseteq> set script_chars"
    using subset_trans [OF fmt_chars(1) hex_chars_keys(1)] blank
    by (induction chunk) (simp_all add: line_bytes_def)
  ultimately show ?thesis
    by (simp add: e_line_eq [OF assms]) (simp add: script_chars_def hex_chars_def)
qed

lemma type_e_lines_text:
  assumes "\<forall>c \<in> set cs. length c \<le> 16"
  shows "\<exists>ops. type_e_lines cls addr cs = Some ops \<and>
    host_text cls (ops @ rest) = e_lines addr cs @ host_text cls rest"
  using assms
proof (induction cs arbitrary: addr)
  case (Cons c cs)
  then obtain ops where ops: "type_e_lines cls (addr + of_nat (length c)) cs = Some ops"
    "host_text cls (ops @ rest) = e_lines (addr + of_nat (length c)) cs @ host_text cls rest"
    by fastforce
  from Cons.prems have "set (e_line addr c) \<subseteq> set script_chars" by (simp add: e_line_chars)
  from host_text_script [OF this, of cls "WaitMs DEBUG_LINE_GAP_MS # ops @ rest"] ops
  show ?case by auto
qed simp

lemma type_debug_stage0_text:
  "\<exists>ops. type_debug_stage0 cls bin = Some ops \<and> host_text cls ops = script_text bin"
proof -
  have fmt: "fmt_x 256 = [0x31, 0x30, 0x30]"
    by (subst fmt_x.simps; subst fmt_x.simps; subst fmt_x.simps) (simp add: hex_digit_def)
  have go_text: "write_pieces 16 [] [[0x67, 0x20], fmt_x (unat STAGE0_ORIGIN), [0x0D]] =
      [0x67, 0x20, 0x31, 0x30, 0x30, 0x0D]"
    by (simp add: const_defs fmt)
  obtain go where go: "type_ascii cls [0x67, 0x20, 0x31, 0x30, 0x30, 0x0D] = Some go"
    "host_text cls (go @ []) = [0x67, 0x20, 0x31, 0x30, 0x30, 0x0D] @ host_text cls []"
    using host_text_script [of "[0x67, 0x20, 0x31, 0x30, 0x30, 0x0D]" cls "[]"]
    by (auto simp: script_chars_def hex_chars_def)
  obtain enter where enter: "type_e_lines cls STAGE0_ORIGIN (chunks E_CHUNK bin) = Some enter"
    "host_text cls (enter @ go) = e_lines STAGE0_ORIGIN (chunks E_CHUNK bin) @ host_text cls go"
    using type_e_lines_text [of "chunks E_CHUNK bin" cls STAGE0_ORIGIN go] chunks_sizes [of _ E_CHUNK bin]
    by (auto simp: const_defs)
  obtain launch where launch: "type_ascii cls [0x64, 0x65, 0x62, 0x75, 0x67, 0x0D] = Some launch"
    "host_text cls (launch @ WaitMs DEBUG_STARTUP_MS # enter @ go) =
       [0x64, 0x65, 0x62, 0x75, 0x67, 0x0D] @ host_text cls (WaitMs DEBUG_STARTUP_MS # enter @ go)"
    using host_text_script [of "[0x64, 0x65, 0x62, 0x75, 0x67, 0x0D]" cls "WaitMs DEBUG_STARTUP_MS # enter @ go"]
    by (auto simp: script_chars_def hex_chars_def)
  show ?thesis
    using go enter launch by (simp add: type_debug_stage0_def go_text script_text_def del: write_pieces.simps)
qed

lemma store_bytes_append:
  "store_bytes a (xs @ ys) m = store_bytes (a + of_nat (length xs)) ys (store_bytes a xs m)"
  by (induction xs arbitrary: a m) (simp_all add: algebra_simps)

lemma debug_session_e_lines:
  assumes "\<forall>c \<in> set cs. length c \<le> 16"
  shows "debug_session (e_lines addr cs @ rest) d =
    debug_session rest (d\<lparr>db_memory := store_bytes addr (concat cs) (db_memory d)\<rparr>)"
  using assms
  by (induction cs arbitrary: addr d) (simp_all add: debug_session_e_line store_bytes_append)

lemma u16_max: "unat (- 1 :: u16) = 65535"
  by (simp add: unsigned_minus_1_eq_mask mask_eq_exp_minus_1)

lemma store_bytes_other:
  assumes "unat a + length bs \<le> 65536" "unat x < unat a \<or> unat a + length bs \<le> unat x"
  shows "store_bytes a bs m x = m x"
  using assms
proof (induction bs arbitrary: a m)
  case (Cons b bs)
  have x: "x \<noteq> a" using Cons.prems(2) by auto
  show ?case
  proof (cases "bs = []")
    case False
    then have "a \<noteq> - 1" using Cons.prems(1) by (cases bs) (auto simp: u16_max)
    then have "unat (a + 1) = Suc (unat a)" by (rule unat_inc)
    with Cons x show ?thesis by auto
  qed (use x in simp)
qed simp

lemma store_bytes_at:
  assumes "unat a + length bs \<le> 65536" "i < length bs"
  shows "store_bytes a bs m (a + of_nat i) = bs ! i"
  using assms
proof (induction bs arbitrary: a m i)
  case (Cons b bs)
  have n: "unat (a + 1) = Suc (unat a)" if "bs \<noteq> []"
    using Cons.prems(1) that by (intro unat_inc) (cases bs; auto simp: u16_max)
  show ?case
  proof (cases i)
    case 0
    then show ?thesis
      using Cons.prems n by (cases "bs = []") (simp_all add: store_bytes_other)
  next
    case (Suc j)
    then have "bs \<noteq> []" using Cons.prems(2) by auto
    with Cons.IH [of "a + 1" j "m(a := b)"] Cons.prems n Suc show ?thesis
      by (simp add: add.assoc del: fun_upd_apply)
  qed
qed simp

lemma script_loads_stage0:
  assumes "length bin \<le> 0xFF00"
  shows "\<exists>ops. type_debug_stage0 cls bin = Some ops \<and>
    (let d' = debug_session (host_text cls ops) d in
       db_started d' = Some STAGE0_ORIGIN \<and>
       (\<forall>i < length bin. db_memory d' (STAGE0_ORIGIN + of_nat i) = bin ! i) \<and>
       (\<forall>x. unat x < 0x100 \<or> 0x100 + length bin \<le> unat x \<longrightarrow> db_memory d' x = db_memory d x))"
proof -
  obtain ops where ops: "type_debug_stage0 cls bin = Some ops" "host_text cls ops = script_text bin"
    using type_debug_stage0_text by blast
  have c: "\<forall>c \<in> set (chunks E_CHUNK bin). length c \<le> 16" "concat (chunks E_CHUNK bin) = bin"
    using chunks_sizes [of _ E_CHUNK bin] concat_chunks [of E_CHUNK bin] by (auto simp: const_defs)
  have "debug_session (script_text bin) d =
      debug_session (e_lines STAGE0_ORIGIN (chunks E_CHUNK bin) @ [0x67, 0x20, 0x31, 0x30, 0x30, 0x0D]) d"
    by (simp add: script_text_def debug_session_def debug_line_def)
  also have "\<dots> = d\<lparr>db_memory := store_bytes STAGE0_ORIGIN bin (db_memory d), db_started := Some STAGE0_ORIGIN\<rparr>"
    by (simp add: debug_session_e_lines [OF c(1)] c(2))
      (simp add: debug_session_def debug_line_def parse_hex_def hex_value_def const_defs)
  finally show ?thesis
    using ops assms store_bytes_at [of STAGE0_ORIGIN bin] store_bytes_other [of STAGE0_ORIGIN bin]
    by (simp add: Let_def const_defs)
qed

text \<open>
  C17. The DEBUG script.  For every image that fits above the origin in one segment and every class of
  host, typing the script does not panic, and on the host DEBUG ends up with exactly the image stored
  from \<^verbatim>\<open>0x0100\<close> on, the rest of the memory untouched, and started there.
\<close>

theorem debug_script_loads_stage0:
  assumes "length bin \<le> 0xFF00"
  shows "\<exists>ops. type_debug_stage0 cls bin = Some ops \<and>
    (let d' = debug_session (host_text cls ops) d in
       db_started d' = Some STAGE0_ORIGIN \<and>
       (\<forall>i < length bin. db_memory d' (STAGE0_ORIGIN + of_nat i) = bin ! i) \<and>
       (\<forall>x. unat x < 0x100 \<or> 0x100 + length bin \<le> unat x \<longrightarrow> db_memory d' x = db_memory d x))"
  using assms by (rule script_loads_stage0)

theorem debug_script_loads_stage0_witness:
  "\<exists>ops. type_debug_stage0 Xt [0xB8, 0x00, 0x4C, 0xCD, 0x21] = Some ops \<and>
    (let d' = debug_session (host_text Xt ops) \<lparr>db_memory = \<lambda>_. 0, db_started = None\<rparr> in
       db_started d' = Some STAGE0_ORIGIN \<and>
       (\<forall>i < length [0xB8, 0x00, 0x4C, 0xCD, 0x21 :: u8]. db_memory d' (STAGE0_ORIGIN + of_nat i) = [0xB8, 0x00, 0x4C, 0xCD, 0x21] ! i) \<and>
       (\<forall>x. unat x < 0x100 \<or> 0x105 \<le> unat x \<longrightarrow> db_memory d' x = 0))"
  using debug_script_loads_stage0 [of "[0xB8, 0x00, 0x4C, 0xCD, 0x21]" Xt "\<lparr>db_memory = \<lambda>_. 0, db_started = None\<rparr>"]
  by simp

end
