(* ===== verification/Injection.thy ===== *)
theory Injection
  imports DebugScript
begin

text \<open>
  The injector task (\<^verbatim>\<open>run\<close> of \<^verbatim>\<open>ps2/injector.rs\<close>) and the system it forms with the supervisor: both
  tasks, the trigger, the queue of raw requests and the lifecycle cell, as a step relation over every
  order in which the executor may run them.  The lemmas show when a script is typed, that requests are
  served in order, and that the injector cannot get stuck.
\<close>

subsection \<open>The task\<close>

text \<open>
  The state the two tasks share, with what the keyboard transmitter was told to do; \<open>sy_typing\<close> is the
  class whose script the injector is typing.
\<close>

record ps2_system =
  sy_sv :: supervisor
  sy_raw :: "u8 list list"
  sy_typing :: "machine_class option"
  sy_sent :: "tx_op list"

definition ps2_init :: "u8 \<Rightarrow> ps2_system" where
  "ps2_init cell =
     \<lparr>sy_sv = supervisor_init cell, sy_raw = [], sy_typing = None, sy_sent = []\<rparr>"

definition raw_ops :: "u8 list \<Rightarrow> tx_op list" where
  "raw_ops bytes = concat (map (\<lambda>b. [SendAt b, WaitMs KEYSTROKE_GAP_MS]) bytes)"

text \<open>
  The task wakes: \<^verbatim>\<open>select\<close> polls the trigger first, and a trigger that is taken is also reset; else the
  oldest raw request is sent.  \<open>None\<close>: it stays asleep.
\<close>

definition injector_wake :: "ps2_system \<Rightarrow> ps2_system option" where
  "injector_wake s =
     (case sv_inject_trigger (sy_sv s) of
        Some cls \<Rightarrow>
          Some (s\<lparr>sy_sv := (sy_sv s)\<lparr>sv_inject_trigger := None,
                                    sv_lifecycle := lifecycle_set InjectDebug (sv_lifecycle (sy_sv s))\<rparr>,
                  sy_typing := Some cls\<rparr>)
      | None \<Rightarrow>
          (case sy_raw s of
             [] \<Rightarrow> None
           | bytes # rest \<Rightarrow> Some (s\<lparr>sy_raw := rest, sy_sent := sy_sent s @ raw_ops bytes\<rparr>)))"

text \<open>The script is through; \<open>None\<close>: typing it panics.\<close>

definition injector_finish :: "u8 list \<Rightarrow> u8 list \<Rightarrow> machine_class \<Rightarrow> ps2_system \<Rightarrow> ps2_system option" where
  "injector_finish at_bin xt_bin cls s =
     map_option (\<lambda>ops. s\<lparr>sy_sv := (sy_sv s)\<lparr>sv_lifecycle :=
                                   lifecycle_set ServeStage0Download (sv_lifecycle (sy_sv s))\<rparr>,
                        sy_typing := None, sy_sent := sy_sent s @ ops\<rparr>)
       (type_script at_bin xt_bin cls)"

text \<open>
  The steps: the supervisor takes an input, at any time; a raw request arrives and finds room; the
  idle injector wakes; a script comes to its end.
\<close>

datatype ps2_label = Observed supervisor_input | Requested "u8 list" | Woke | Finished

inductive ps2_step :: "u8 list \<Rightarrow> u8 list \<Rightarrow> ps2_system \<Rightarrow> ps2_label \<Rightarrow> ps2_system \<Rightarrow> bool"
  for at_bin xt_bin where
  observe: "ps2_step at_bin xt_bin s (Observed i) (s\<lparr>sy_sv := supervisor_step (sy_sv s) i\<rparr>)"
| request: "length bytes \<le> INJECT_RAW_MAX \<Longrightarrow> length (sy_raw s) < INJECT_RAW_DEPTH \<Longrightarrow>
    ps2_step at_bin xt_bin s (Requested bytes) (s\<lparr>sy_raw := sy_raw s @ [bytes]\<rparr>)"
| wake: "sy_typing s = None \<Longrightarrow> injector_wake s = Some t \<Longrightarrow> ps2_step at_bin xt_bin s Woke t"
| finish: "sy_typing s = Some cls \<Longrightarrow> injector_finish at_bin xt_bin cls s = Some t \<Longrightarrow>
    ps2_step at_bin xt_bin s Finished t"

inductive_cases ps2_step_cases: "ps2_step at_bin xt_bin s l t"
inductive_simps wake_simps: "ps2_step at_bin xt_bin s Woke t"
inductive_simps finish_simps: "ps2_step at_bin xt_bin s Finished t"

text \<open>The runs from boot, with the labels of their steps.\<close>

inductive ps2_run :: "u8 list \<Rightarrow> u8 list \<Rightarrow> u8 \<Rightarrow> ps2_label list \<Rightarrow> ps2_system \<Rightarrow> bool"
  for at_bin xt_bin cell where
  boot: "ps2_run at_bin xt_bin cell [] (ps2_init cell)"
| step: "ps2_run at_bin xt_bin cell ls s \<Longrightarrow> ps2_step at_bin xt_bin s l t \<Longrightarrow>
    ps2_run at_bin xt_bin cell (ls @ [l]) t"

subsection \<open>Evidence\<close>

text \<open>The usable frames of a kind among the steps, and what they must show before a class is believed.\<close>

definition seen :: "frame_kind \<Rightarrow> ps2_label list \<Rightarrow> nat" where
  "seen k ls = length (filter (\<lambda>l. case l of
     Observed (KbdFrame f) \<Rightarrow> frame_usable f \<and> pf_kind f = k | _ \<Rightarrow> False) ls)"

definition evidence :: "ps2_label list \<Rightarrow> machine_class \<Rightarrow> bool" where
  "evidence ls cls \<longleftrightarrow>
     (case cls of
        Xt \<Rightarrow> 3 \<le> seen FkXt ls
      | At \<Rightarrow> 3 \<le> seen FkAt ls
      | Ps2 \<Rightarrow> 3 \<le> seen FkAt ls \<and> Observed AuxActivity \<in> set ls)"

definition believed :: "ps2_label list \<Rightarrow> classifier \<Rightarrow> bool" where
  "believed ls c \<longleftrightarrow>
     (case c of
        Unknown \<Rightarrow> True
      | AtCandidate n \<Rightarrow> unat n \<le> seen FkAt ls
      | XtCandidate n \<Rightarrow> unat n \<le> seen FkXt ls
      | Confirmed cls \<Rightarrow> evidence ls cls)"

lemma seen_simps [simp]:
  "seen k [] = 0"
  "seen k (ls @ [l]) = seen k ls + (case l of Observed (KbdFrame f) \<Rightarrow>
     (if frame_usable f \<and> pf_kind f = k then 1 else 0) | _ \<Rightarrow> 0)"
  by (simp_all add: seen_def split: ps2_label.split supervisor_input.split)

lemma evidence_mono [intro]: "evidence ls cls \<Longrightarrow> evidence (ls @ [l]) cls"
  by (auto simp: evidence_def split: machine_class.splits)

lemma believed_mono: "believed ls c \<Longrightarrow> believed (ls @ [l]) c"
  by (auto simp: believed_def split: classifier.splits)

lemma streak_step:
  "unat n \<le> k \<Longrightarrow> unat (saturating_inc n :: u8) \<le> Suc k \<and>
   (CONFIDENCE_THRESHOLD \<le> saturating_inc n \<longrightarrow> 3 \<le> Suc k)"
  by (auto simp: saturating_inc_def const_defs word_le_nat_alt unat_inc)

lemma believed_observe:
  assumes "believed ls (sv_classifier s)"
    and "\<forall>cls. sv_inject_trigger s = Some cls \<longrightarrow> evidence ls cls"
  shows "believed (ls @ [Observed i]) (sv_classifier (supervisor_step s i)) \<and>
    (\<forall>cls. sv_inject_trigger (supervisor_step s i) = Some cls \<longrightarrow>
       evidence (ls @ [Observed i]) cls)"
proof (cases i)
  case (KbdFrame f)
  have m: "evidence (ls @ [Observed i]) cls" if "sv_inject_trigger s = Some cls" for cls
    using assms(2) that by blast
  show ?thesis
  proof (cases "frame_usable f \<and> pf_kind f \<noteq> FkInvalid")
    case False
    then have "ingest_kbd_frame (sv_classifier s) f = (sv_classifier s, None)"
      by (auto simp: ingest_kbd_frame_def frame_usable_def)
    then show ?thesis
      using KbdFrame assms m by (auto simp: supervisor_step_def believed_mono)
  next
    case True
    then show ?thesis
      using KbdFrame assms m
      by (cases "pf_kind f"; cases "sv_classifier s" rule: observe_at.cases)
        (auto simp: supervisor_step_def ingest_kbd_frame_def believed_def evidence_def Let_def
          dest: streak_step split: machine_class.splits)
  qed
next
  case AuxActivity
  then show ?thesis
    using assms by (auto simp: supervisor_step_def ingest_aux_activity_def believed_def evidence_def
      split: classifier.splits machine_class.splits)
qed

subsection \<open>What is typed\<close>

text \<open>The injector's work as a log: scripts and raw requests, each typed as a whole.\<close>

datatype job = Script machine_class | Raw "u8 list"

definition job_ops :: "u8 list \<Rightarrow> u8 list \<Rightarrow> job \<Rightarrow> tx_op list" where
  "job_ops at_bin xt_bin j =
     (case j of Script cls \<Rightarrow> the (type_script at_bin xt_bin cls) | Raw bytes \<Rightarrow> raw_ops bytes)"

definition raw_jobs :: "job list \<Rightarrow> u8 list list" where
  "raw_jobs js = concat (map (\<lambda>j. case j of Raw b \<Rightarrow> [b] | Script _ \<Rightarrow> []) js)"

definition requests :: "ps2_label list \<Rightarrow> u8 list list" where
  "requests ls = concat (map (\<lambda>l. case l of Requested b \<Rightarrow> [b] | _ \<Rightarrow> []) ls)"

lemma job_simps [simp]:
  "raw_jobs [] = []" "raw_jobs (js @ [Raw b]) = raw_jobs js @ [b]" "raw_jobs (js @ [Script cls]) = raw_jobs js"
  "requests [] = []" "requests (ls @ [l]) = requests ls @ (case l of Requested b \<Rightarrow> [b] | _ \<Rightarrow> [])"
  by (simp_all add: raw_jobs_def requests_def split: ps2_label.split)

lemma type_script_some: "\<exists>ops. type_script at_bin xt_bin cls = Some ops"
  using type_debug_stage0_text unfolding type_script_def by blast

definition work_ok :: "u8 list \<Rightarrow> u8 list \<Rightarrow> ps2_label list \<Rightarrow> job list \<Rightarrow> ps2_system \<Rightarrow> bool" where
  "work_ok at_bin xt_bin ls js s \<longleftrightarrow>
     sy_sent s = concat (map (job_ops at_bin xt_bin) js) \<and>
     raw_jobs js @ sy_raw s = requests ls \<and> length (sy_raw s) \<le> INJECT_RAW_DEPTH \<and>
     (\<forall>cls. Script cls \<in> set js \<or> sy_typing s = Some cls \<or> sv_inject_trigger (sy_sv s) = Some cls
        \<longrightarrow> evidence ls cls) \<and>
     believed ls (sv_classifier (sy_sv s))"

lemma work_ok_step:
  assumes "work_ok at_bin xt_bin ls js s" "ps2_step at_bin xt_bin s l t"
  shows "\<exists>js'. work_ok at_bin xt_bin (ls @ [l]) js' t"
  using assms(2)
proof (cases rule: ps2_step.cases)
  case (observe i)
  then have "work_ok at_bin xt_bin (ls @ [l]) js t"
    using assms(1) believed_observe [of ls "sy_sv s" i]
    by (auto simp: work_ok_def)
  then show ?thesis ..
next
  case (request bytes)
  then have "work_ok at_bin xt_bin (ls @ [l]) js t"
    using assms(1) by (auto simp: work_ok_def believed_mono)
  then show ?thesis ..
next
  case wake
  show ?thesis
  proof (cases "sv_inject_trigger (sy_sv s)")
    case None
    then obtain b bs where "sy_raw s = b # bs" "t = s\<lparr>sy_raw := bs, sy_sent := sy_sent s @ raw_ops b\<rparr>"
      using wake by (auto simp: injector_wake_def split: list.splits)
    then have "work_ok at_bin xt_bin (ls @ [l]) (js @ [Raw b]) t"
      using assms(1) wake by (auto simp: work_ok_def believed_mono job_ops_def)
    then show ?thesis ..
  next
    case (Some cls)
    then have "work_ok at_bin xt_bin (ls @ [l]) js t"
      using assms(1) wake by (auto simp: work_ok_def believed_mono injector_wake_def)
    then show ?thesis ..
  qed
next
  case (finish cls)
  then have "work_ok at_bin xt_bin (ls @ [l]) (js @ [Script cls]) t"
    using assms(1) by (auto simp: work_ok_def believed_mono injector_finish_def job_ops_def)
  then show ?thesis ..
qed

text \<open>
  C19. Injection.  However the supervisor, the requests and the injector interleave: what was typed is a
  sequence of whole jobs; the raw requests are served in the order they were accepted, none lost,
  repeated or mixed into a script, with at most four waiting; and a script is typed, or even pending,
  only for a class there is evidence for: three good frames of its format, and for a PS/2 host also
  activity on the auxiliary channel.
\<close>

theorem injection_jobs:
  assumes "ps2_run at_bin xt_bin cell ls s"
  shows "\<exists>js. sy_sent s = concat (map (job_ops at_bin xt_bin) js) \<and>
    raw_jobs js @ sy_raw s = requests ls \<and> length (sy_raw s) \<le> 4 \<and>
    (\<forall>cls. Script cls \<in> set js \<or> sy_typing s = Some cls \<or> sv_inject_trigger (sy_sv s) = Some cls
       \<longrightarrow> evidence ls cls)"
proof -
  from assms have "\<exists>js. work_ok at_bin xt_bin ls js s"
  proof (induction rule: ps2_run.induct)
    case boot
    have "work_ok at_bin xt_bin [] [] (ps2_init cell)"
      by (simp add: work_ok_def ps2_init_def supervisor_init_def classifier_new_def believed_def)
    then show ?case ..
  next
    case (step ls s l t)
    then show ?case using work_ok_step by blast
  qed
  then show ?thesis by (auto simp: work_ok_def const_defs)
qed

text \<open>A run that types a script: three AT frames, then the injector.\<close>

definition good_at_frame :: ps2_frame where
  "good_at_frame =
     \<lparr>pf_kind = FkAt, pf_data = 0x1C, pf_parity_ok = True, pf_framing_ok = True,
      pf_start_timestamp_us = 0, pf_timing = frame_timing_of framer_new\<rparr>"

definition first_script :: "ps2_frame list \<Rightarrow> ps2_label list" where
  "first_script fs = map (Observed \<circ> KbdFrame) fs @ [Woke, Finished]"

lemma good_at_frame_usable [simp]: "frame_usable good_at_frame" "pf_kind good_at_frame = FkAt"
  by (simp_all add: good_at_frame_def frame_usable_def)

text \<open>Steps of a run, the scheduler's choices given as labels.\<close>

lemma run_observe:
  "ps2_run at_bin xt_bin cell ls s \<Longrightarrow>
   ps2_run at_bin xt_bin cell (ls @ [Observed i]) (s\<lparr>sy_sv := supervisor_step (sy_sv s) i\<rparr>)"
  by (blast intro: ps2_run.step ps2_step.observe)

lemma run_script:
  assumes "ps2_run at_bin xt_bin cell ls s" "sy_typing s = None" "sv_inject_trigger (sy_sv s) = Some cls"
    and "type_script at_bin xt_bin cls = Some ops"
  shows "ps2_run at_bin xt_bin cell (ls @ [Woke, Finished])
    (s\<lparr>sy_sv := (sy_sv s)\<lparr>sv_inject_trigger := None,
       sv_lifecycle := lifecycle_set ServeStage0Download 0\<rparr>, sy_sent := sy_sent s @ ops\<rparr>)"
proof -
  define u where "u = s\<lparr>sy_sv := (sy_sv s)\<lparr>sv_inject_trigger := None,
      sv_lifecycle := lifecycle_set InjectDebug 0\<rparr>, sy_typing := Some cls\<rparr>"
  have u: "injector_wake s = Some u"
    using assms(3) by (simp add: u_def injector_wake_def lifecycle_set_def)
  have "ps2_run at_bin xt_bin cell (ls @ [Woke]) u"
    using assms(1,2) u by (blast intro: ps2_run.step ps2_step.wake)
  moreover have "ps2_step at_bin xt_bin u Finished
      (s\<lparr>sy_sv := (sy_sv s)\<lparr>sv_inject_trigger := None,
         sv_lifecycle := lifecycle_set ServeStage0Download 0\<rparr>, sy_sent := sy_sent s @ ops\<rparr>)"
    using assms(2,4) by (cases s) (simp add: u_def finish_simps injector_finish_def lifecycle_set_def)
  ultimately have "ps2_run at_bin xt_bin cell ((ls @ [Woke]) @ [Finished])
      (s\<lparr>sy_sv := (sy_sv s)\<lparr>sv_inject_trigger := None,
         sv_lifecycle := lifecycle_set ServeStage0Download 0\<rparr>, sy_sent := sy_sent s @ ops\<rparr>)"
    by (rule ps2_run.step)
  then show ?thesis by simp
qed

text \<open>The hosts of the AT family get the same keystrokes.\<close>

lemma type_script_ps2: "type_script at_bin xt_bin Ps2 = type_script at_bin xt_bin At"
proof -
  have ascii: "type_ascii Ps2 = type_ascii At" by (simp add: type_ascii_def fun_eq_iff)
  have entering: "type_e_lines Ps2 addr cs = type_e_lines At addr cs" for addr cs
    by (induction cs arbitrary: addr) (simp_all only: type_e_lines.simps ascii)
  show ?thesis
    unfolding type_script_def type_debug_stage0_def ascii entering machine_class.case by (rule refl)
qed

text \<open>
  Promotion.  A PS/2 host is injected twice: three good keyboard frames confirm an AT host and its
  script is typed; the first activity on the auxiliary channel after that promotes the host, which
  raises the trigger again, and the same script is typed a second time, over the running Stage 0.
\<close>

theorem promotion_types_twice:
  assumes "\<forall>f \<in> {f1, f2, f3}. frame_usable f \<and> pf_kind f = FkAt"
  shows "\<exists>ops s. type_script at_bin xt_bin At = Some ops \<and>
    ps2_run at_bin xt_bin cell
      (first_script [f1, f2, f3] @ [Observed AuxActivity, Woke, Finished]) s \<and>
    sy_sent s = ops @ ops \<and> lifecycle_get (sv_lifecycle (sy_sv s)) = ServeStage0Download"
proof -
  obtain ops where ops: "type_script at_bin xt_bin At = Some ops" using type_script_some by blast
  then have ops2: "type_script at_bin xt_bin Ps2 = Some ops"
    by (simp add: type_script_ps2)
  define s3 where "s3 = foldl (\<lambda>s i. s\<lparr>sy_sv := supervisor_step (sy_sv s) i\<rparr>) (ps2_init cell)
    (map KbdFrame [f1, f2, f3])"
  have "ps2_run at_bin xt_bin cell ((([] @ [Observed (KbdFrame f1)]) @ [Observed (KbdFrame f2)])
      @ [Observed (KbdFrame f3)]) s3"
    unfolding s3_def list.map foldl.simps by (intro run_observe ps2_run.boot)
  moreover have s3: "sy_typing s3 = None" "sy_sent s3 = []" "sv_inject_trigger (sy_sv s3) = Some At"
    "sv_classifier (sy_sv s3) = Confirmed At"
    using assms by (simp_all add: s3_def ps2_init_def supervisor_init_def supervisor_step_def
      classifier_new_def ingest_kbd_frame_def saturating_inc_def const_defs Let_def)
  note run_script [OF calculation this(1,3) ops]
  from run_script [OF run_observe [OF this, of AuxActivity], of Ps2, OF _ _ ops2] s3
  show ?thesis
    using ops by (auto simp: first_script_def supervisor_step_def ingest_aux_activity_def)
qed

theorem promotion_types_twice_witness:
  "\<exists>ops s. type_script [0x90] [] At = Some ops \<and>
    ps2_run [0x90] [] 0
      (first_script (replicate 3 good_at_frame) @ [Observed AuxActivity, Woke, Finished]) s \<and>
    sy_sent s = ops @ ops \<and> lifecycle_get (sv_lifecycle (sy_sv s)) = ServeStage0Download"
  using promotion_types_twice [of good_at_frame good_at_frame good_at_frame "[0x90]" "[]" 0]
  by (simp add: numeral_3_eq_3)

theorem injection_jobs_witness:
  "\<exists>s js. ps2_run [] [] 0 ([Requested [0x1C]] @ [Woke]) s \<and>
    sy_sent s = concat (map (job_ops [] []) js) \<and> raw_jobs js @ sy_raw s = [[0x1C]] \<and> sy_raw s = []"
proof -
  have "ps2_run [] [] 0 ([] @ [Requested [0x1C]]) ((ps2_init 0)\<lparr>sy_raw := [[0x1C]]\<rparr>)"
    using ps2_step.request [of "[0x1C]" "ps2_init 0" "[]" "[]"]
    by (intro ps2_run.step [OF ps2_run.boot]) (simp add: ps2_init_def const_defs)
  moreover have "ps2_step [] [] ((ps2_init 0)\<lparr>sy_raw := [[0x1C]]\<rparr>) Woke
      ((ps2_init 0)\<lparr>sy_raw := [], sy_sent := raw_ops [0x1C]\<rparr>)"
    by (simp add: wake_simps ps2_init_def injector_wake_def supervisor_init_def)
  ultimately have r: "ps2_run [] [] 0 (([] @ [Requested [0x1C]]) @ [Woke])
      ((ps2_init 0)\<lparr>sy_raw := [], sy_sent := raw_ops [0x1C]\<rparr>)"
    by (rule ps2_run.step)
  from injection_jobs [OF r] obtain js where
    "raw_ops [0x1C] = concat (map (job_ops [] []) js)" "raw_jobs js = [[0x1C]]"
    by (auto simp: requests_def)
  with r show ?thesis
    by (intro exI [of _ "(ps2_init 0)\<lparr>sy_raw := [], sy_sent := raw_ops [0x1C]\<rparr>"] exI [of _ js]) simp
qed

subsection \<open>The injector does not get stuck\<close>

definition backlog :: "ps2_system \<Rightarrow> nat" where
  "backlog s = (if sy_typing s = None then 0 else 1) +
     (if sv_inject_trigger (sy_sv s) = None then 0 else 2) + length (sy_raw s)"

lemma injector_can_step:
  assumes "0 < backlog s"
  shows "\<exists>l t. l \<in> {Woke, Finished} \<and> ps2_step at_bin xt_bin s l t"
proof (cases "sy_typing s")
  case None
  then have "injector_wake s \<noteq> None"
    using assms by (auto simp: backlog_def injector_wake_def split: option.splits list.splits if_splits)
  with None show ?thesis by (auto simp: wake_simps)
next
  case (Some cls)
  then show ?thesis
    using type_script_some [of at_bin xt_bin cls] by (auto simp: finish_simps injector_finish_def)
qed

lemma injector_step_backlog:
  "ps2_step at_bin xt_bin s l t \<Longrightarrow> l \<in> {Woke, Finished} \<Longrightarrow> backlog t < backlog s"
  by (cases rule: ps2_step.cases, assumption)
    (auto simp: backlog_def injector_wake_def injector_finish_def split: option.splits list.splits)

text \<open>
  C32. Progress.  Whatever the tasks did so far, when nothing more comes in the injector finishes: as
  long as there is something to do, it can take a step, no step panics, every step leaves it with less
  to do, and after at most seven steps nothing is pending.
\<close>

theorem injector_drains:
  assumes "ps2_run at_bin xt_bin cell ls s"
  shows "\<exists>more t. ps2_run at_bin xt_bin cell (ls @ more) t \<and> set more \<subseteq> {Woke, Finished} \<and>
    length more \<le> 7 \<and> sy_typing t = None \<and> sv_inject_trigger (sy_sv t) = None \<and> sy_raw t = [] \<and>
    (\<forall>l u v. l \<in> {Woke, Finished} \<longrightarrow> ps2_step at_bin xt_bin u l v \<longrightarrow> backlog v < backlog u)"
proof -
  have "\<exists>more t. ps2_run at_bin xt_bin cell (ls @ more) t \<and> set more \<subseteq> {Woke, Finished} \<and>
      length more \<le> backlog s \<and> backlog t = 0" (is "\<exists>more t. ?done more t")
    using assms
  proof (induction "backlog s" arbitrary: ls s rule: less_induct)
    case less
    show ?case
    proof (cases "backlog s = 0")
      case True
      with less.prems show ?thesis by (intro exI [of _ "[]"] exI [of _ s]) simp
    next
      case False
      then obtain l u where l: "l \<in> {Woke, Finished}" "ps2_step at_bin xt_bin s l u"
        using injector_can_step by blast
      then have b: "backlog u < backlog s" using injector_step_backlog by blast
      from less.hyps [OF b ps2_run.step [OF less.prems l(2)]]
      obtain more t where "ps2_run at_bin xt_bin cell ((ls @ [l]) @ more) t"
        "set more \<subseteq> {Woke, Finished}" "length more \<le> backlog u" "backlog t = 0" by blast
      with l(1) b show ?thesis by (intro exI [of _ "l # more"] exI [of _ t]) auto
    qed
  qed
  then obtain more t where "?done more t" by blast
  moreover have "backlog s \<le> 7"
  proof -
    have "length (sy_raw s) \<le> 4"
      using assms by induction
        (auto simp: ps2_init_def injector_wake_def injector_finish_def const_defs
          elim!: ps2_step_cases split: option.splits list.splits)
    then show ?thesis by (simp add: backlog_def)
  qed
  ultimately show ?thesis
    using injector_step_backlog [of at_bin xt_bin]
    by (intro exI [of _ more] exI [of _ t]) (auto simp: backlog_def split: if_splits)
qed

theorem injector_drains_witness:
  "\<exists>more t. ps2_run [0x90] [] 0 more t \<and> set more \<subseteq> {Woke, Finished} \<and> length more \<le> 7 \<and> sy_raw t = []"
  using injector_drains [OF ps2_run.boot, of "[0x90]" "[]" 0] by auto

end
