(* ===== verification/Negotiator.thy ===== *)
theory Negotiator
  imports Phys
begin

text \<open>
  The IEEE 1284 negotiator of the parallel port (\<^verbatim>\<open>lpt/negotiator.rs\<close>): the request bytes, the polling
  state machine over the interface \<^verbatim>\<open>NegotiatorIo\<close>, and the implementation of that interface on the
  chip's registers.  Time is a clock in microseconds that a timer moves on, at least by what was asked
  for; the host's lines are functions of it.  The lemmas show what a handshake returns and drives, how
  long it takes at most, and which strobes it sees.
\<close>

unbundle bit_operations_syntax

subsection \<open>Request bytes\<close>

definition XRV_NIBBLE :: u8 where [const_defs]: "XRV_NIBBLE = 0x00"
definition XRV_BYTE :: u8 where [const_defs]: "XRV_BYTE = 0x01"
definition XRV_ECP :: u8 where [const_defs]: "XRV_ECP = 0x10"
definition XRV_ECP_RLE :: u8 where [const_defs]: "XRV_ECP_RLE = 0x30"
definition XRV_EPP :: u8 where [const_defs]: "XRV_EPP = 0x40"
definition XRV_DEVICE_ID :: u8 where [const_defs]: "XRV_DEVICE_ID = 0x04"
definition XRV_EXT_LINK :: u8 where [const_defs]: "XRV_EXT_LINK = 0x80"

definition xrv_to_mode :: "u8 \<Rightarrow> lpt_mode option" where
  "xrv_to_mode xrv =
     (let base = xrv AND NOT XRV_DEVICE_ID in
      if base = XRV_NIBBLE then Some SppNibble
      else if base = XRV_BYTE then Some Byte
      else if base = XRV_ECP then Some Ecp
      else if base = XRV_ECP_RLE then Some Ecp
      else if base = XRV_EPP then Some Epp
      else None)"

datatype negotiation_error = NegTimeout | UnsupportedXrv u8

subsection \<open>The state machine\<close>

definition STROBE_WAIT_MS :: nat where [const_defs]: "STROBE_WAIT_MS = 100"
definition NAUTOFD_RELEASE_MS :: nat where [const_defs]: "NAUTOFD_RELEASE_MS = 100"
definition POLL_TICK_US :: nat where [const_defs]: "POLL_TICK_US = 5"

text \<open>The clock: its time and, for each time a timer is armed, by how much it fires late.\<close>

record clock =
  ck_now :: nat
  ck_late :: "nat \<Rightarrow> nat"

definition after_micros :: "nat \<Rightarrow> clock \<Rightarrow> clock" where
  "after_micros n c = c\<lparr>ck_now := ck_now c + n + ck_late c (ck_now c)\<rparr>"

text \<open>
  The interface: the host's lines, the data bus and the status lines the peripheral drives, over the
  state of an implementation.  Reads take the time, as the host moves its lines on its own.
\<close>

record 'io negotiator_io =
  io_nstrobe :: "nat \<Rightarrow> 'io \<Rightarrow> bool"
  io_nselectin :: "nat \<Rightarrow> 'io \<Rightarrow> bool"
  io_nautofd :: "nat \<Rightarrow> 'io \<Rightarrow> bool"
  io_ninit :: "nat \<Rightarrow> 'io \<Rightarrow> bool"
  io_data_bus :: "nat \<Rightarrow> 'io \<Rightarrow> u8"
  io_drive_status :: "nat \<Rightarrow> bool \<Rightarrow> bool \<Rightarrow> bool \<Rightarrow> bool \<Rightarrow> 'io \<Rightarrow> 'io"
  io_claim :: "'io \<Rightarrow> 'io"
  io_release :: "'io \<Rightarrow> 'io"

definition detect_start :: "'io negotiator_io \<Rightarrow> nat \<Rightarrow> 'io \<Rightarrow> u8 option" where
  "detect_start N now io =
     (if io_nselectin N now io \<and> \<not> io_nautofd N now io then Some (io_data_bus N now io) else None)"

text \<open>A wait without a deadline may never return: then it is \<open>None\<close>.\<close>

partial_function (option) wait_for_start ::
  "'io negotiator_io \<Rightarrow> 'io \<Rightarrow> clock \<Rightarrow> (u8 \<times> clock) option" where
  "wait_for_start N io c =
     (case detect_start N (ck_now c) io of
        Some xrv \<Rightarrow> Some (xrv, c)
      | None \<Rightarrow> wait_for_start N io (after_micros POLL_TICK_US c))"

definition detect_terminate :: "'io negotiator_io \<Rightarrow> nat \<Rightarrow> 'io \<Rightarrow> bool" where
  "detect_terminate N now io = (\<not> io_ninit N now io)"

text \<open>The loops of the handshake: poll a line until it shows the level, or the deadline is over.\<close>

function poll_until :: "(nat \<Rightarrow> bool) \<Rightarrow> nat \<Rightarrow> clock \<Rightarrow> bool \<times> clock" where
  "poll_until line deadline c =
     (if line (ck_now c) then (True, c)
      else if ck_now c > deadline then (False, c)
      else poll_until line deadline (after_micros POLL_TICK_US c))"
  by pat_completeness auto
termination
  by (relation "measure (\<lambda>(line, deadline, c). Suc deadline - ck_now c)")
    (auto simp: after_micros_def const_defs)

declare poll_until.simps [simp del]

definition handshake ::
  "'io negotiator_io \<Rightarrow> u8 \<Rightarrow> 'io \<Rightarrow> clock \<Rightarrow> (negotiation_error + lpt_mode) \<times> 'io \<times> clock" where
  "handshake N xrv io c =
     (let io = io_drive_status N (ck_now c) False True True True io;
          target = xrv_to_mode xrv;
          supported = (target \<noteq> None);
          (ok, c) = poll_until (\<lambda>t. \<not> io_nstrobe N t io) (ck_now c + STROBE_WAIT_MS * 1000) c
      in if \<not> ok then (Inl NegTimeout, io, c)
         else
           let (ok, c) = poll_until (\<lambda>t. io_nstrobe N t io) (ck_now c + STROBE_WAIT_MS * 1000) c
           in if \<not> ok then (Inl NegTimeout, io, c)
              else
                let io = io_drive_status N (ck_now c) True True supported True io;
                    (ok, c) = poll_until (\<lambda>t. io_nautofd N t io) (ck_now c + NAUTOFD_RELEASE_MS * 1000) c
                in if \<not> ok then (Inl NegTimeout, io, c)
                   else (case target of Some m \<Rightarrow> (Inr m, io, c) | None \<Rightarrow> (Inl (UnsupportedXrv xrv), io, c)))"

definition handle_terminate :: "'io negotiator_io \<Rightarrow> 'io \<Rightarrow> clock \<Rightarrow> 'io \<times> clock" where
  "handle_terminate N io c =
     (let io = io_drive_status N (ck_now c) True True True False io;
          c = after_micros 2000 c
      in (io_drive_status N (ck_now c) True True True True io, c))"

subsection \<open>The interface on the registers\<close>

definition GP_SELECTIN :: nat where [const_defs]: "GP_SELECTIN = 22"
definition GP_PERROR :: nat where [const_defs]: "GP_PERROR = 25"
definition GP_SELECT :: nat where [const_defs]: "GP_SELECT = 26"
definition GP_NFAULT :: nat where [const_defs]: "GP_NFAULT = 27"
definition GP_NINIT :: "nat option" where [const_defs]: "GP_NINIT = None"

text \<open>
  The registers of the first bank: the input register as the host's lines make it at each time, the
  output and output-enable registers, the function selects; and the output register after every write,
  with the time of the write.
\<close>

record pac =
  pac_in :: "nat \<Rightarrow> u32"
  pac_out :: u32
  pac_oe :: u32
  pac_funcsel :: "nat \<Rightarrow> nat"
  pac_wave :: "(nat \<times> u32) list"

definition pin_read :: "nat \<Rightarrow> nat \<Rightarrow> pac \<Rightarrow> bool" where
  "pin_read gpio now p = (pac_in p now AND push_bit gpio 1 \<noteq> 0)"

definition pin_set_high :: "nat \<Rightarrow> nat \<Rightarrow> pac \<Rightarrow> pac" where
  "pin_set_high now gpio p =
     (let w = pac_out p OR push_bit gpio 1 in p\<lparr>pac_out := w, pac_wave := pac_wave p @ [(now, w)]\<rparr>)"

definition pin_set_low :: "nat \<Rightarrow> nat \<Rightarrow> pac \<Rightarrow> pac" where
  "pin_set_low now gpio p =
     (let w = pac_out p AND NOT (push_bit gpio 1) in p\<lparr>pac_out := w, pac_wave := pac_wave p @ [(now, w)]\<rparr>)"

definition pin_set_level :: "nat \<Rightarrow> nat \<Rightarrow> bool \<Rightarrow> pac \<Rightarrow> pac" where
  "pin_set_level now gpio level p = (if level then pin_set_high now gpio p else pin_set_low now gpio p)"

definition pin_set_funcsel :: "nat \<Rightarrow> nat \<Rightarrow> pac \<Rightarrow> pac" where
  "pin_set_funcsel gpio f p = p\<lparr>pac_funcsel := (pac_funcsel p)(gpio := f)\<rparr>"

definition pin_enable_output :: "nat \<Rightarrow> pac \<Rightarrow> pac" where
  "pin_enable_output gpio p = p\<lparr>pac_oe := pac_oe p OR push_bit gpio 1\<rparr>"

definition pin_disable_output :: "nat \<Rightarrow> pac \<Rightarrow> pac" where
  "pin_disable_output gpio p = p\<lparr>pac_oe := pac_oe p AND NOT (push_bit gpio 1)\<rparr>"

text \<open>No caller disables an output again, not even the release of the status pins; it would undo an enable.\<close>

lemma disable_undoes_enable:
  assumes "\<not> bit (pac_oe p) gpio"
  shows "pin_disable_output gpio (pin_enable_output gpio p) = p"
proof -
  have "(pac_oe p OR push_bit gpio 1) AND NOT (push_bit gpio 1) = pac_oe p"
    using assms by (intro bit_word_eqI) (auto simp: bit_simps)
  then show ?thesis by (cases p) (simp add: pin_disable_output_def pin_enable_output_def)
qed

definition read_ninit :: "nat \<Rightarrow> pac \<Rightarrow> bool" where
  "read_ninit now p = (case GP_NINIT of Some g \<Rightarrow> pin_read g now p | None \<Rightarrow> True)"

definition read_data_bus :: "nat \<Rightarrow> pac \<Rightarrow> u8" where
  "read_data_bus now p = ucast (drop_bit 12 (pac_in p now) AND 0xFF)"

definition drive_status :: "nat \<Rightarrow> bool \<Rightarrow> bool \<Rightarrow> bool \<Rightarrow> bool \<Rightarrow> pac \<Rightarrow> pac" where
  "drive_status now nack perror select nfault p =
     pin_set_level now GP_NFAULT nfault (pin_set_level now GP_SELECT select
       (pin_set_level now GP_PERROR perror (pin_set_level now GP_NACK nack p)))"

definition STATUS_PINS :: "nat list" where
  "STATUS_PINS = [GP_NACK, GP_BUSY, GP_PERROR, GP_SELECT, GP_NFAULT]"

definition claim_status_pins :: "pac \<Rightarrow> pac" where
  "claim_status_pins p =
     fold (\<lambda>gpio p. pin_enable_output gpio (pin_set_funcsel gpio FUNCSEL_SIO p)) STATUS_PINS p"

definition release_status_pins :: "pac \<Rightarrow> pac" where
  "release_status_pins p = fold (\<lambda>gpio p. pin_set_funcsel gpio FUNCSEL_PIO0 p) STATUS_PINS p"

definition pac_io :: "pac negotiator_io" where
  "pac_io =
     \<lparr>io_nstrobe = pin_read GP_STROBE, io_nselectin = pin_read GP_SELECTIN, io_nautofd = pin_read GP_AUTO_FD,
      io_ninit = read_ninit, io_data_bus = read_data_bus, io_drive_status = drive_status,
      io_claim = claim_status_pins, io_release = release_status_pins\<rparr>"

subsection \<open>Polling\<close>

text \<open>The clock at the polls of a loop.\<close>

definition polls :: "clock \<Rightarrow> nat \<Rightarrow> clock" where
  "polls c k = (after_micros POLL_TICK_US ^^ k) c"

definition punctual :: "nat \<Rightarrow> clock \<Rightarrow> bool" where
  "punctual j c \<longleftrightarrow> (\<forall>t. ck_late c t \<le> j)"

lemma polls_simps [simp]: "polls c 0 = c" "polls c (Suc k) = polls (after_micros POLL_TICK_US c) k"
  by (simp_all add: polls_def funpow_swap1)

lemma after_micros_simps [simp]:
  "ck_now (after_micros n c) = ck_now c + n + ck_late c (ck_now c)" "ck_late (after_micros n c) = ck_late c"
  by (simp_all add: after_micros_def)

lemma punctual_after [simp]: "punctual j (after_micros n c) = punctual j c"
  by (simp add: punctual_def)

lemma late_le: "punctual j c \<Longrightarrow> ck_late c t \<le> j"
  by (simp add: punctual_def)

text \<open>A loop ends at the first poll that shows the level or lies past the deadline, and soon after it.\<close>

lemma poll_until_first:
  assumes "poll_until line deadline c = (ok, c')"
  shows "\<exists>k. c' = polls c k \<and> (\<forall>i < k. \<not> line (ck_now (polls c i)) \<and> ck_now (polls c i) \<le> deadline) \<and>
    (ok \<longrightarrow> line (ck_now c')) \<and> (\<not> ok \<longrightarrow> \<not> line (ck_now c') \<and> deadline < ck_now c')"
  using assms
proof (induction line deadline c rule: poll_until.induct)
  case (1 line deadline c)
  show ?case
  proof (cases "line (ck_now c) \<or> deadline < ck_now c")
    case True
    then show ?thesis
      using 1(2) by (intro exI [of _ 0]) (auto simp: poll_until.simps [of line deadline c] split: if_splits)
  next
    case False
    then have "poll_until line deadline (after_micros POLL_TICK_US c) = (ok, c')"
      using 1(2) by (simp add: poll_until.simps [of line deadline c])
    from 1(1) [OF _ _ this] False obtain k where k: "c' = polls c (Suc k)"
      "\<forall>i < k. \<not> line (ck_now (polls c (Suc i))) \<and> ck_now (polls c (Suc i)) \<le> deadline"
      "ok \<longrightarrow> line (ck_now c')" "\<not> ok \<longrightarrow> \<not> line (ck_now c') \<and> deadline < ck_now c'"
      by auto
    have "\<not> line (ck_now (polls c i)) \<and> ck_now (polls c i) \<le> deadline" if "i < Suc k" for i
      using that False k(2) by (cases i) (auto simp del: polls_simps(2))
    with k show ?thesis by blast
  qed
qed

lemma poll_until_ends:
  assumes "punctual j c" "poll_until line deadline c = (ok, c')" "ck_now c \<le> deadline"
  shows "ck_now c \<le> ck_now c' \<and> ck_now c' \<le> deadline + 5 + j \<and> ck_late c' = ck_late c"
  using assms
proof (induction line deadline c rule: poll_until.induct)
  case (1 line deadline c)
  let ?d = "after_micros POLL_TICK_US c"
  show ?case
  proof (cases "line (ck_now c)")
    case False
    then have "poll_until line deadline ?d = (ok, c')"
      using 1(3,4) by (simp add: poll_until.simps [of line deadline c])
    moreover have "c' = ?d \<and> ck_now ?d \<le> deadline + 5 + j" if "deadline < ck_now ?d"
    proof
      show "c' = ?d"
        using that \<open>poll_until line deadline ?d = (ok, c')\<close>
        by (simp add: poll_until.simps [of line deadline ?d] split: if_splits)
      show "ck_now ?d \<le> deadline + 5 + j"
        using late_le [OF 1(2), of "ck_now c"] 1(4) by (simp add: const_defs)
    qed
    ultimately show ?thesis
      using 1(1) [of, OF False] 1(2,4) by (cases "deadline < ck_now ?d") auto
  qed (use 1 in \<open>simp add: poll_until.simps [of line deadline c]\<close>)
qed

text \<open>A level that lasts longer than a poll can be late is seen.\<close>

lemma poll_until_sees:
  assumes "punctual j c" "ck_now c \<le> a" "a \<le> deadline"
    and "\<forall>t. ck_now c \<le> t \<and> t < a \<longrightarrow> \<not> line t" "\<forall>t. a \<le> t \<and> t < a + 5 + j \<longrightarrow> line t"
  shows "\<exists>c'. poll_until line deadline c = (True, c') \<and> a \<le> ck_now c' \<and> ck_now c' < a + 5 + j \<and>
    ck_late c' = ck_late c"
  using assms
proof (induction line deadline c rule: poll_until.induct)
  case (1 line deadline c)
  show ?case
  proof (cases "ck_now c = a")
    case True
    then show ?thesis using 1 by (simp add: poll_until.simps [of line deadline c])
  next
    case False
    let ?d = "after_micros POLL_TICK_US c"
    have n: "\<not> line (ck_now c)" "\<not> deadline < ck_now c" using 1 False by auto
    then have p: "poll_until line deadline c = poll_until line deadline ?d"
      by (simp add: poll_until.simps [of line deadline c])
    show ?thesis
    proof (cases "ck_now ?d \<le> a")
      case True
      with 1(1) [OF n] 1(2-) p show ?thesis by auto
    next
      case over: False
      then have "ck_now ?d < a + 5 + j"
        using late_le [OF 1(2), of "ck_now c"] 1(3) False by (simp add: const_defs)
      with over 1(6) show ?thesis
        unfolding p by (simp add: poll_until.simps [of line deadline ?d] del: after_micros_simps(1))
    qed
  qed
qed

subsection \<open>The handshake over any interface\<close>

text \<open>
  What the state machine needs of an interface: the status lines show what was driven last, and driving
  them does not disturb the host's lines.
\<close>

locale negotiator_lines =
  fixes N :: "'io negotiator_io"
    and status :: "'io \<Rightarrow> bool \<times> bool \<times> bool \<times> bool"
  assumes status_driven: "status (io_drive_status N t nack perror select nfault io) = (nack, perror, select, nfault)"
    and nstrobe_kept: "io_nstrobe N t (io_drive_status N u nack perror select nfault io) = io_nstrobe N t io"
    and nautofd_kept: "io_nautofd N t (io_drive_status N u nack perror select nfault io) = io_nautofd N t io"
begin

lemma handshake_sound:
  assumes "punctual j c" "handshake N xrv io c = (r, io', c')"
  shows "ck_now c' \<le> ck_now c + 300000 + 3 * (5 + j) \<and>
    (r = Inl NegTimeout \<or>
     r = (case xrv_to_mode xrv of Some m \<Rightarrow> Inr m | None \<Rightarrow> Inl (UnsupportedXrv xrv)) \<and>
     status io' = (True, True, xrv_to_mode xrv \<noteq> None, True) \<and>
     (\<exists>t1 t2. ck_now c \<le> t1 \<and> t1 \<le> t2 \<and> t2 \<le> ck_now c' \<and> \<not> io_nstrobe N t1 io \<and> io_nstrobe N t2 io \<and>
        io_nautofd N (ck_now c') io))"
proof -
  define io1 where "io1 = io_drive_status N (ck_now c) False True True True io"
  obtain ok1 c1 where p1: "poll_until (\<lambda>t. \<not> io_nstrobe N t io1) (ck_now c + 100000) c = (ok1, c1)"
    by fastforce
  obtain ok2 c2 where p2: "poll_until (\<lambda>t. io_nstrobe N t io1) (ck_now c1 + 100000) c1 = (ok2, c2)"
    by fastforce
  define io2 where "io2 = io_drive_status N (ck_now c2) True True (xrv_to_mode xrv \<noteq> None) True io1"
  obtain ok3 c3 where p3: "poll_until (\<lambda>t. io_nautofd N t io2) (ck_now c2 + 100000) c2 = (ok3, c3)"
    by fastforce
  have h: "handshake N xrv io c =
      (if \<not> ok1 then (Inl NegTimeout, io1, c1) else if \<not> ok2 then (Inl NegTimeout, io1, c2)
       else if \<not> ok3 then (Inl NegTimeout, io2, c3)
       else ((case xrv_to_mode xrv of Some m \<Rightarrow> Inr m | None \<Rightarrow> Inl (UnsupportedXrv xrv)), io2, c3))"
    using p1 p2 p3 by (simp add: handshake_def Let_def const_defs io1_def io2_def split: option.split)
  have e1: "ck_now c \<le> ck_now c1" "ck_now c1 \<le> ck_now c + 100000 + 5 + j" "ck_late c1 = ck_late c"
    using poll_until_ends [OF assms(1) p1] by auto
  then have "punctual j c1" using assms(1) by (simp add: punctual_def)
  from poll_until_ends [OF this p2]
  have e2: "ck_now c1 \<le> ck_now c2" "ck_now c2 \<le> ck_now c1 + 100000 + 5 + j" "ck_late c2 = ck_late c1" by auto
  then have "punctual j c2" using \<open>punctual j c1\<close> by (simp add: punctual_def)
  from poll_until_ends [OF this p3]
  have e3: "ck_now c2 \<le> ck_now c3" "ck_now c3 \<le> ck_now c2 + 100000 + 5 + j" by auto
  have f: "ok1 \<longrightarrow> \<not> io_nstrobe N (ck_now c1) io1" "ok2 \<longrightarrow> io_nstrobe N (ck_now c2) io1"
    "ok3 \<longrightarrow> io_nautofd N (ck_now c3) io2"
    using poll_until_first [OF p1] poll_until_first [OF p2] poll_until_first [OF p3] by blast+
  have "ok1 \<and> ok2 \<and> ok3 \<longrightarrow>
      (\<exists>t1 t2. ck_now c \<le> t1 \<and> t1 \<le> t2 \<and> t2 \<le> ck_now c3 \<and> \<not> io_nstrobe N t1 io \<and> io_nstrobe N t2 io \<and>
        io_nautofd N (ck_now c3) io)"
    using e1(1) e2(1) e3(1) f by (auto simp: io1_def io2_def nstrobe_kept nautofd_kept)
  with h assms(2) e1 e2 e3 show ?thesis
    by (auto simp: io2_def status_driven split: if_splits)
qed

text \<open>
  A host that holds its strobe low from \<open>s1\<close> to \<open>s2\<close> and releases \<^verbatim>\<open>nAutoFd\<close> at \<open>a\<close>, and leaves the
  peripheral time to look.
\<close>

lemma handshake_completes:
  assumes "punctual j c" "\<forall>t \<ge> ck_now c. io_nstrobe N t io \<longleftrightarrow> \<not> (s1 \<le> t \<and> t < s2)"
    and "\<forall>t \<ge> ck_now c. io_nautofd N t io \<longleftrightarrow> a \<le> t"
    and "ck_now c \<le> s1" "s1 \<le> ck_now c + 100000" "s1 + 5 + j \<le> s2" "s2 \<le> s1 + 100000" "s2 \<le> a" "a \<le> s2 + 100000"
  shows "\<exists>t c'. handshake N xrv io c =
      ((case xrv_to_mode xrv of Some m \<Rightarrow> Inr m | None \<Rightarrow> Inl (UnsupportedXrv xrv)),
       io_drive_status N t True True (xrv_to_mode xrv \<noteq> None) True
         (io_drive_status N (ck_now c) False True True True io), c') \<and>
    s2 \<le> t \<and> t < s2 + 5 + j \<and> a \<le> ck_now c' \<and> ck_now c' < a + 2 * (5 + j)"
proof -
  define io1 where "io1 = io_drive_status N (ck_now c) False True True True io"
  have l1: "io_nstrobe N t io1 \<longleftrightarrow> \<not> (s1 \<le> t \<and> t < s2)" if "ck_now c \<le> t" for t
    using assms(2) that by (simp add: io1_def nstrobe_kept)
  obtain c1 where p1: "poll_until (\<lambda>t. \<not> io_nstrobe N t io1) (ck_now c + 100000) c = (True, c1)"
    "s1 \<le> ck_now c1" "ck_now c1 < s1 + 5 + j" "ck_late c1 = ck_late c"
    using poll_until_sees [OF assms(1,4,5), of "\<lambda>t. \<not> io_nstrobe N t io1"] l1 assms(4,6) by auto
  have "punctual j c1" using assms(1) p1(4) by (simp add: punctual_def)
  from poll_until_sees [OF this, of s2 "ck_now c1 + 100000" "\<lambda>t. io_nstrobe N t io1"] l1 p1(2,3) assms(4,6,7)
  obtain c2 where p2: "poll_until (\<lambda>t. io_nstrobe N t io1) (ck_now c1 + 100000) c1 = (True, c2)"
    "s2 \<le> ck_now c2" "ck_now c2 < s2 + 5 + j" "ck_late c2 = ck_late c1" by auto
  define io2 where "io2 = io_drive_status N (ck_now c2) True True (xrv_to_mode xrv \<noteq> None) True io1"
  have l2: "io_nautofd N t io2 \<longleftrightarrow> a \<le> t" if "ck_now c \<le> t" for t
    using assms(3) that by (simp add: io1_def io2_def nautofd_kept)
  have "punctual j c2" using \<open>punctual j c1\<close> p2(4) by (simp add: punctual_def)
  moreover have "\<forall>t. ck_now c2 \<le> t \<and> t < max a (ck_now c2) \<longrightarrow> \<not> io_nautofd N t io2"
    "\<forall>t. max a (ck_now c2) \<le> t \<and> t < max a (ck_now c2) + 5 + j \<longrightarrow> io_nautofd N t io2"
    using l2 p2(2) assms(4,6) by (auto simp: max_def split: if_splits)
  ultimately
  obtain c3 where p3: "poll_until (\<lambda>t. io_nautofd N t io2) (ck_now c2 + 100000) c2 = (True, c3)"
    "max a (ck_now c2) \<le> ck_now c3" "ck_now c3 < max a (ck_now c2) + 5 + j"
    using poll_until_sees [of j c2 "max a (ck_now c2)" "ck_now c2 + 100000" "\<lambda>t. io_nautofd N t io2"]
      p2(2) assms(9) by auto
  have "handshake N xrv io c =
      ((case xrv_to_mode xrv of Some m \<Rightarrow> Inr m | None \<Rightarrow> Inl (UnsupportedXrv xrv)), io2, c3)"
    using p1(1) p2(1) p3(1) by (simp add: handshake_def Let_def const_defs io1_def io2_def split: option.split)
  moreover have "ck_now c3 < a + 2 * (5 + j)" using p2(3) p3(3) assms(8) by (simp add: max_def split: if_splits)
  ultimately show ?thesis
    using p2(2,3) p3(2) by (intro exI [of _ "ck_now c2"] exI [of _ c3]) (simp add: io1_def io2_def)
qed

end

subsection \<open>The handshake on the registers\<close>

definition pac_status :: "pac \<Rightarrow> bool \<times> bool \<times> bool \<times> bool" where
  "pac_status p =
     (bit (pac_out p) GP_NACK, bit (pac_out p) GP_PERROR, bit (pac_out p) GP_SELECT, bit (pac_out p) GP_NFAULT)"

definition claimed :: "pac \<Rightarrow> bool" where
  "claimed p \<longleftrightarrow> (\<forall>g \<in> set STATUS_PINS. pac_funcsel p g = FUNCSEL_SIO \<and> bit (pac_oe p) g)"

lemma pin_set_level_facts:
  "pac_in (pin_set_level t g l p) = pac_in p" "pac_oe (pin_set_level t g l p) = pac_oe p"
  "pac_funcsel (pin_set_level t g l p) = pac_funcsel p"
  "g < 32 \<Longrightarrow> bit (pac_out (pin_set_level t g l p)) k \<longleftrightarrow> (if k = g then l else bit (pac_out p) k)"
  by (auto simp: pin_set_level_def pin_set_high_def pin_set_low_def Let_def bit_or_iff bit_and_iff
    bit_not_iff bit_push_bit_iff bit_1_iff dest: bit_imp_le_length simp del: push_bit_of_1)

lemma drive_status_facts:
  "pac_in (drive_status t a b s f p) = pac_in p" "pac_oe (drive_status t a b s f p) = pac_oe p"
  "pac_funcsel (drive_status t a b s f p) = pac_funcsel p"
  "pac_status (drive_status t a b s f p) = (a, b, s, f)"
  "bit (pac_out (drive_status t a b s f p)) GP_BUSY = bit (pac_out p) GP_BUSY"
  by (simp_all add: drive_status_def pac_status_def pin_set_level_facts const_defs)

interpretation pac: negotiator_lines pac_io pac_status
  by unfold_locales (simp_all add: pac_io_def drive_status_facts pin_read_def)

lemma claim_claims: "claimed (claim_status_pins p)"
  by (simp add: claimed_def claim_status_pins_def STATUS_PINS_def pin_enable_output_def pin_set_funcsel_def
    const_defs bit_or_iff bit_push_bit_iff bit_1_iff del: push_bit_of_1)

lemma claim_in [simp]: "pac_in (claim_status_pins p) = pac_in p"
  by (simp add: claim_status_pins_def STATUS_PINS_def pin_enable_output_def pin_set_funcsel_def)

lemma claimed_drive [simp]: "claimed (drive_status t a b s f p) = claimed p"
  by (simp add: claimed_def drive_status_facts)

lemma pac_io_simps [simp]:
  "io_nstrobe pac_io = pin_read GP_STROBE" "io_nautofd pac_io = pin_read GP_AUTO_FD"
  "io_drive_status pac_io = drive_status" "io_ninit pac_io = read_ninit"
  by (simp_all add: pac_io_def)

lemma pin_read_claim [simp]: "pin_read g t (claim_status_pins p) = pin_read g t p"
  by (simp add: pin_read_def)

text \<open>The Device-ID flag does not matter, and \<^verbatim>\<open>nInit\<close>, which is not routed, never asks for termination.\<close>

lemma xrv_device_id: "xrv_to_mode (xrv OR XRV_DEVICE_ID) = xrv_to_mode xrv"
proof -
  have "(xrv OR XRV_DEVICE_ID) AND NOT XRV_DEVICE_ID = xrv AND NOT XRV_DEVICE_ID"
    by (rule bit_word_eqI) (auto simp: bit_simps)
  then show ?thesis by (simp add: xrv_to_mode_def)
qed

lemma never_terminates: "\<not> detect_terminate pac_io now p"
  by (simp add: detect_terminate_def read_ninit_def const_defs)

text \<open>
  C22. Negotiation with a patient host.  When the timer is never more than \<open>j\<close> us late and the host
  holds its strobe low for at least \<open>5 + j\<close> us, within its time limits, the handshake on the claimed
  status pins answers first (nAck 0, PError 1, Select 1, nFault 1) at once, then, within \<open>5 + j\<close> us of
  the strobe's end, (1, 1, supported, 1), and returns after the host's release the mode of the request,
  or the error that names it.
\<close>

theorem negotiation_completes:
  assumes "punctual j c" "\<forall>t \<ge> ck_now c. pin_read GP_STROBE t p \<longleftrightarrow> \<not> (s1 \<le> t \<and> t < s2)"
    and "\<forall>t \<ge> ck_now c. pin_read GP_AUTO_FD t p \<longleftrightarrow> a \<le> t"
    and "ck_now c \<le> s1" "s1 \<le> ck_now c + 100000" "s1 + 5 + j \<le> s2" "s2 \<le> s1 + 100000" "s2 \<le> a" "a \<le> s2 + 100000"
  shows "\<exists>p1 t p' c'. handshake pac_io xrv (claim_status_pins p) c =
      ((case xrv_to_mode xrv of Some m \<Rightarrow> Inr m | None \<Rightarrow> Inl (UnsupportedXrv xrv)), p', c') \<and>
    p1 = drive_status (ck_now c) False True True True (claim_status_pins p) \<and>
    p' = drive_status t True True (xrv_to_mode xrv \<noteq> None) True p1 \<and>
    pac_status p1 = (False, True, True, True) \<and> pac_status p' = (True, True, xrv_to_mode xrv \<noteq> None, True) \<and>
    claimed p1 \<and> claimed p' \<and> s2 \<le> t \<and> t < s2 + 5 + j \<and> a \<le> ck_now c' \<and> ck_now c' < a + 2 * (5 + j)"
  using pac.handshake_completes [of j c "claim_status_pins p" s1 s2 a xrv] assms
  by (auto simp: claim_claims drive_status_facts)

text \<open>
  C23. Negotiation with any host.  Whatever the host does with its lines, a handshake ends within 300 ms
  and three late polls; a mode is only returned when the request stands for it and the strobe was seen
  low and then high again and \<^verbatim>\<open>nAutoFd\<close> released, with the final acknowledgement on the status pins.
\<close>

theorem negotiation_sound:
  assumes "punctual j c" "handshake pac_io xrv p c = (r, p', c')"
  shows "ck_now c' \<le> ck_now c + 300000 + 3 * (5 + j) \<and>
    (\<forall>m. r = Inr m \<longrightarrow> xrv_to_mode xrv = Some m \<and> pac_status p' = (True, True, True, True) \<and>
       (\<exists>t1 t2. ck_now c \<le> t1 \<and> t1 \<le> t2 \<and> t2 \<le> ck_now c' \<and> \<not> pin_read GP_STROBE t1 p \<and>
          pin_read GP_STROBE t2 p \<and> pin_read GP_AUTO_FD (ck_now c') p))"
  using pac.handshake_sound [OF assms] by (auto split: option.splits)

text \<open>
  Short strobes.  The peripheral polls every 5 us, so a strobe that falls between two polls is
  never seen, although the standard allows 0.5 us: the handshake then times out, after its deadline,
  with the first answer still on the status pins.
\<close>

theorem short_strobe_missed:
  assumes "\<forall>t. ck_late c t = 0" "\<forall>t. pin_read GP_STROBE t p \<longleftrightarrow> \<not> (s1 \<le> t \<and> t < s2)"
    and "ck_now c + 5 * k < s1" "s2 \<le> ck_now c + 5 * k + 5"
  shows "\<exists>p' c'. handshake pac_io xrv p c = (Inl NegTimeout, p', c') \<and>
    ck_now c + 100000 < ck_now c' \<and> pac_status p' = (False, True, True, True)"
proof -
  define p1 where "p1 = drive_status (ck_now c) False True True True p"
  have poll: "ck_now (polls c i) = ck_now c + 5 * i" for i
    using assms(1) by (induction i arbitrary: c) (simp_all add: const_defs)
  have unseen: "pin_read GP_STROBE (ck_now (polls c i)) p1" for i
  proof -
    have "pin_read GP_STROBE t p1 = pin_read GP_STROBE t p" for t
      by (simp add: p1_def pin_read_def drive_status_facts)
    moreover have "\<not> (s1 \<le> ck_now c + 5 * i \<and> ck_now c + 5 * i < s2)" using assms(3,4) by presburger
    ultimately show ?thesis using assms(2) by (simp add: poll)
  qed
  obtain ok c1 where p: "poll_until (\<lambda>t. \<not> pin_read GP_STROBE t p1) (ck_now c + 100000) c = (ok, c1)"
    by fastforce
  from poll_until_first [OF this] unseen
  have "\<not> ok" "ck_now c + 100000 < ck_now c1" by auto
  then show ?thesis
    using p by (simp add: handshake_def Let_def const_defs drive_status_facts flip: p1_def)
      (simp add: p1_def drive_status_facts)
qed

text \<open>Hosts for the witnesses: a strobe of ten, and of two microseconds.\<close>

definition host_port :: "nat \<Rightarrow> nat \<Rightarrow> nat \<Rightarrow> pac" where
  "host_port s1 s2 a =
     \<lparr>pac_in = \<lambda>t. (if s1 \<le> t \<and> t < s2 then 0 else 0x800) OR (if a \<le> t then 0x100000 else 0),
      pac_out = 0, pac_oe = 0, pac_funcsel = \<lambda>_. 6, pac_wave = []\<rparr>"

lemma host_port_lines:
  "pin_read GP_STROBE t (host_port s1 s2 a) \<longleftrightarrow> \<not> (s1 \<le> t \<and> t < s2)"
  "pin_read GP_AUTO_FD t (host_port s1 s2 a) \<longleftrightarrow> a \<le> t"
  by (simp_all add: pin_read_def host_port_def const_defs push_bit_eq_mult)

definition boot_clock :: clock where
  "boot_clock = \<lparr>ck_now = 0, ck_late = \<lambda>_. 0\<rparr>"

lemma boot_clock_simps [simp]: "ck_now boot_clock = 0" "ck_late boot_clock t = 0" "punctual 0 boot_clock"
  by (simp_all add: boot_clock_def punctual_def)

theorem negotiation_completes_witness:
  "\<exists>p' c'. handshake pac_io 0x40 (claim_status_pins (host_port 33 43 60)) boot_clock = (Inr Epp, p', c') \<and>
    pac_status p' = (True, True, True, True)"
proof -
  have "xrv_to_mode 0x40 = Some Epp" by (simp add: xrv_to_mode_def const_defs)
  then show ?thesis
    using negotiation_completes [of 0 boot_clock "host_port 33 43 60" 33 43 60 "0x40"]
    by (auto simp: host_port_lines)
qed

theorem negotiation_sound_witness:
  "ck_now (snd (snd (handshake pac_io 0x40 (host_port 1 2 3) boot_clock))) \<le> 300015"
  using negotiation_sound [of 0 boot_clock "0x40" "host_port 1 2 3"]
  by (cases "handshake pac_io 0x40 (host_port 1 2 3) boot_clock") auto

theorem short_strobe_missed_witness:
  "\<exists>p' c'. handshake pac_io 0x40 (host_port 33 35 60) boot_clock = (Inl NegTimeout, p', c') \<and> 100000 < ck_now c'"
  using short_strobe_missed [of boot_clock "host_port 33 35 60" 33 35 6 "0x40"]
  by (auto simp: host_port_lines)

end
