(* ===== verification/Usb.thy ===== *)
theory Usb
  imports Telemetry
begin

text \<open>
  The USB side that moves bytes: packets on an endpoint that may fail, the two ways the firmware cuts a
  message into packets (\<^verbatim>\<open>write_chunks\<close> of \<^verbatim>\<open>usb/control.rs\<close>, the writers of \<^verbatim>\<open>usb/bulk.rs\<close> and
  \<^verbatim>\<open>usb/events.rs\<close>), the frames of the bulk interface and the console's loopback (\<^verbatim>\<open>usb/console.rs\<close>).
  The lemmas show that a host which ends a transfer at every short packet gets the messages back one
  by one.
\<close>

subsection \<open>An endpoint\<close>

text \<open>The packets sent so far, and for the coming writes whether they fail; none are left: none fails.\<close>

record endpoint =
  ep_sent :: "u8 list list"
  ep_faults :: "bool list"

definition write_packet :: "u8 list \<Rightarrow> endpoint \<Rightarrow> bool \<times> endpoint" where
  "write_packet p e =
     (case ep_faults e of
        [] \<Rightarrow> (True, e\<lparr>ep_sent := ep_sent e @ [p]\<rparr>)
      | fault # fs \<Rightarrow>
          if fault then (False, e\<lparr>ep_faults := fs\<rparr>)
          else (True, e\<lparr>ep_sent := ep_sent e @ [p], ep_faults := fs\<rparr>))"

text \<open>\<^verbatim>\<open>write_chunks\<close> gives up at the first error; a message that fills its last packet is flushed.\<close>

fun write_all :: "u8 list list \<Rightarrow> endpoint \<Rightarrow> bool \<times> endpoint" where
  "write_all [] e = (True, e)"
| "write_all (p # ps) e =
     (let (ok, e) = write_packet p e in if ok then write_all ps e else (False, e))"

definition write_chunks :: "u8 list \<Rightarrow> endpoint \<Rightarrow> bool \<times> endpoint" where
  "write_chunks bytes e =
     (let (ok, e) = write_all (chunks 64 bytes) e in
      if \<not> ok then (False, e)
      else if bytes \<noteq> [] \<and> length bytes mod 64 = 0 then write_packet [] e
      else (True, e))"

text \<open>
  The writers of the event and bulk tasks: an error ends the loop over the chunks only, and the flush
  depends on whether a full packet went out.
\<close>

fun stream_chunks :: "u8 list list \<Rightarrow> bool \<Rightarrow> endpoint \<Rightarrow> bool \<times> endpoint" where
  "stream_chunks [] sent_full e = (sent_full, e)"
| "stream_chunks (chunk # cs) sent_full e =
     (let (ok, e) = write_packet chunk e in
      if \<not> ok then (sent_full, e)
      else stream_chunks cs (if length chunk = 64 then True else sent_full) e)"

definition stream_frame :: "u8 list \<Rightarrow> endpoint \<Rightarrow> endpoint" where
  "stream_frame frame e =
     (let (sent_full, e) = stream_chunks (chunks 64 frame) False e in
      if sent_full \<and> length frame mod 64 = 0 then snd (write_packet [] e) else e)"

subsection \<open>Events\<close>

text \<open>The serializer is a parameter; it may fail, and then the event is skipped.\<close>

definition write_event :: "(event \<Rightarrow> u8 list option) \<Rightarrow> event \<Rightarrow> endpoint \<Rightarrow> endpoint" where
  "write_event encode ev e = (case encode ev of None \<Rightarrow> e | Some bytes \<Rightarrow> stream_frame bytes e)"

text \<open>One turn of the writer task: it takes the oldest event of the inbox.\<close>

definition events_turn ::
  "(event \<Rightarrow> u8 list option) \<Rightarrow> usb_inbox \<times> endpoint \<Rightarrow> usb_inbox \<times> endpoint" where
  "events_turn encode s =
     (case s of (u, e) \<Rightarrow>
        (case usb_event_chan u of
           [] \<Rightarrow> (u, e)
         | ev # evs \<Rightarrow> (u\<lparr>usb_event_chan := evs\<rparr>, write_event encode ev e)))"

subsection \<open>Bulk frames\<close>

definition BULK_MAGIC :: "u8 list" where "BULK_MAGIC = [0x56, 0x4B, 0x56, 0x4E]"
definition BULK_FRAME_MAX :: nat where [const_defs]: "BULK_FRAME_MAX = 512"
definition BULK_OUT_DEPTH :: nat where [const_defs]: "BULK_OUT_DEPTH = 4"

datatype bulk_kind = GraphicsFrame | RingDump | FileChunk | BulkTest

definition kind_code :: "bulk_kind \<Rightarrow> u16" where
  "kind_code k =
     (case k of GraphicsFrame \<Rightarrow> 0x0001 | RingDump \<Rightarrow> 0x0002 | FileChunk \<Rightarrow> 0x0003 | BulkTest \<Rightarrow> 0x00FF)"

text \<open>The number to use, and the counter after it.\<close>

definition next_seq :: "u16 \<Rightarrow> u16 \<times> u16" where
  "next_seq seq = (seq, seq + 1)"

definition try_extend :: "u8 list \<Rightarrow> u8 list \<Rightarrow> u8 list" where
  "try_extend xs buf = (case vec_extend BULK_FRAME_MAX buf xs of Some v \<Rightarrow> v | None \<Rightarrow> buf)"

definition bulk_build_frame :: "bulk_kind \<Rightarrow> u16 \<Rightarrow> u8 list \<Rightarrow> unit + u8 list" where
  "bulk_build_frame kind seq payload =
     (if 16 + length payload > BULK_FRAME_MAX then Inl ()
      else
        let buf = try_extend BULK_MAGIC [];
            buf = try_extend (le16 (kind_code kind)) buf;
            buf = try_extend (le32 (of_nat (length payload))) buf;
            buf = try_extend (le16 seq) buf;
            buf = try_extend (replicate 4 0) buf;
            buf = try_extend payload buf
        in Inr buf)"

text \<open>The queue of frames between the producers and the writer.\<close>

definition bulk_try_send :: "u8 list \<Rightarrow> u8 list list \<Rightarrow> bool \<times> u8 list list" where
  "bulk_try_send frame q = (if length q < BULK_OUT_DEPTH then (True, q @ [frame]) else (False, q))"

definition bulk_turn :: "u8 list list \<times> endpoint \<Rightarrow> u8 list list \<times> endpoint" where
  "bulk_turn s =
     (case s of (q, e) \<Rightarrow> (case q of [] \<Rightarrow> (q, e) | frame # rest \<Rightarrow> (rest, stream_frame frame e)))"

subsection \<open>The console's loopback\<close>

text \<open>The 128-byte buffer, flushed when the next character does not fit; its flush ignores errors.\<close>

definition echo_byte :: "u8 \<Rightarrow> u8 list \<times> endpoint \<Rightarrow> u8 list \<times> endpoint" where
  "echo_byte b s =
     (case s of (out, e) \<Rightarrow>
        (let piece = (if b = 0x0D then [0x0D, 0x0A] else [b]);
             (out, e) = (if length out + length piece > 128 then ([], snd (write_packet out e)) else (out, e))
         in (out @ piece, e)))"

fun write_until_error :: "u8 list list \<Rightarrow> endpoint \<Rightarrow> endpoint" where
  "write_until_error [] e = e"
| "write_until_error (p # ps) e =
     (let (ok, e) = write_packet p e in if ok then write_until_error ps e else e)"

definition console_packet :: "u8 list \<Rightarrow> endpoint \<Rightarrow> endpoint" where
  "console_packet rx e =
     (let (out, e) = fold echo_byte rx ([], e) in write_until_error (chunks 64 out) e)"

subsection \<open>The host's side\<close>

text \<open>A transfer ends at a packet shorter than 64 bytes; the second result is a transfer in progress.\<close>

fun transfers :: "u8 list \<Rightarrow> u8 list list \<Rightarrow> u8 list list \<times> u8 list" where
  "transfers acc [] = ([], acc)"
| "transfers acc (p # ps) =
     (if length p < 64 then (let (ts, rest) = transfers [] ps in ((acc @ p) # ts, rest))
      else transfers (acc @ p) ps)"

text \<open>The packets of one message.\<close>

definition message_packets :: "u8 list \<Rightarrow> u8 list list" where
  "message_packets m = chunks 64 m @ (if m \<noteq> [] \<and> length m mod 64 = 0 then [[]] else [])"

lemma concat_message_packets [simp]: "concat (message_packets m) = m"
  by (simp add: message_packets_def concat_chunks)

lemma write_packet_ok [simp]:
  "ep_faults e = [] \<Longrightarrow> write_packet p e = (True, e\<lparr>ep_sent := ep_sent e @ [p]\<rparr>)"
  by (simp add: write_packet_def)

lemma write_all_ok:
  "ep_faults e = [] \<Longrightarrow> write_all ps e = (True, e\<lparr>ep_sent := ep_sent e @ ps\<rparr>)"
  by (induction ps arbitrary: e) simp_all

lemma write_chunks_ok:
  "ep_faults e = [] \<Longrightarrow> write_chunks m e = (True, e\<lparr>ep_sent := ep_sent e @ message_packets m\<rparr>)"
  by (simp add: write_chunks_def write_all_ok message_packets_def)

lemma stream_chunks_ok:
  "ep_faults e = [] \<Longrightarrow> stream_chunks ps b e =
     (b \<or> (\<exists>p \<in> set ps. length p = 64), e\<lparr>ep_sent := ep_sent e @ ps\<rparr>)"
  by (induction ps arbitrary: b e) auto

lemma chunks_full:
  "xs \<noteq> [] \<Longrightarrow> 0 < n \<Longrightarrow> length xs mod n = 0 \<Longrightarrow> \<exists>c \<in> set (chunks n xs). length c = n"
  by (subst chunks_step) (auto intro: Suc_leI dvd_imp_le simp: mod_eq_0_iff_dvd min_def dest: dvd_imp_le)

lemma stream_frame_ok:
  assumes "ep_faults e = []"
  shows "stream_frame m e = e\<lparr>ep_sent := ep_sent e @ message_packets m\<rparr>"
proof -
  have "m \<noteq> [] \<longleftrightarrow> (\<exists>p \<in> set (chunks 64 m). length p = 64)" if "length m mod 64 = 0"
    using that chunks_full [of m 64] by auto
  then show ?thesis
    using assms by (auto simp: stream_frame_def stream_chunks_ok message_packets_def)
qed

lemma transfers_message:
  "m \<noteq> [] \<Longrightarrow> length acc mod 64 = 0 \<Longrightarrow>
   transfers acc (message_packets m @ ps) =
     (let (ts, rest) = transfers [] ps in ((acc @ m) # ts, rest))"
proof (induction "length m" arbitrary: m acc rule: less_induct)
  case less
  show ?case
  proof (cases "length m < 64")
    case True
    then have "message_packets m = [m]"
      using less.prems(1) by (simp add: message_packets_def chunks_step)
    with True show ?thesis by simp
  next
    case False
    define r where "r = drop 64 m"
    have m: "m = take 64 m @ r" "length r = length m - 64" by (simp_all add: r_def)
    show ?thesis
    proof (cases "r = []")
      case True
      then have "message_packets m = [m, []]"
        using False less.prems(1) m by (simp add: message_packets_def chunks_step)
      with False show ?thesis by (simp add: case_prod_beta Let_def)
    next
      case r: False
      have "length m mod 64 = length r mod 64" using m False by (simp add: mod_if)
      then have p: "message_packets m = take 64 m # message_packets r"
        using less.prems(1) r by (simp add: message_packets_def chunks_step [of m] flip: r_def)
      from less.hyps [of r "acc @ take 64 m"] m(2) False r less.prems(2)
      have "transfers (acc @ take 64 m) (message_packets r @ ps) =
          (let (ts, rest) = transfers [] ps in ((acc @ take 64 m @ r) # ts, rest))"
        by (simp add: min_def)
      then show ?thesis using False m(1) by (simp add: p min_def)
    qed
  qed
qed

lemma transfers_messages:
  "[] \<notin> set ms \<Longrightarrow> transfers [] (concat (map message_packets ms)) = (ms, [])"
  by (induction ms) (auto simp: transfers_message)

lemma stream_frames_ok:
  "ep_faults e = [] \<Longrightarrow>
   fold stream_frame ms e = e\<lparr>ep_sent := ep_sent e @ concat (map message_packets ms)\<rparr>"
  by (induction ms arbitrary: e) (simp_all add: stream_frame_ok)

subsection \<open>Bulk frames over the wire\<close>

text \<open>The host's parser of a frame, after the layout in the module's documentation.\<close>

definition parse_frame :: "u8 list \<Rightarrow> (u16 \<times> u16 \<times> u8 list) option" where
  "parse_frame f =
     (if 16 \<le> length f \<and> take 4 f = BULK_MAGIC \<and>
         unat (from_be32 (f ! 9) (f ! 8) (f ! 7) (f ! 6)) = length f - 16 \<and> take 4 (drop 12 f) = replicate 4 0
      then Some (from_be16 (f ! 5) (f ! 4), from_be16 (f ! 11) (f ! 10), drop 16 f) else None)"

lemma bulk_build_frame_eq:
  "bulk_build_frame k q p =
     (if length p \<le> 496 then
        Inr (BULK_MAGIC @ le16 (kind_code k) @ le32 (of_nat (length p)) @ le16 q @ replicate 4 0 @ p)
      else Inl ())"
  by (simp add: bulk_build_frame_def try_extend_def vec_extend_def Let_def const_defs BULK_MAGIC_def)

lemma parse_built:
  assumes "length p \<le> 496"
  shows "parse_frame (BULK_MAGIC @ le16 (kind_code k) @ le32 (of_nat (length p)) @ le16 q @ replicate 4 0 @ p) =
    Some (kind_code k, q, p)"
proof -
  have "unat (of_nat (length p) :: u32) = length p" using assms by (simp add: unat_of_nat)
  then show ?thesis
    using from_be16_be16 [of "kind_code k"] from_be16_be16 [of q] from_be32_be32 [of "of_nat (length p)"]
    by (simp add: parse_frame_def BULK_MAGIC_def le16_def le32_def be16_def be32_def numeral_eq_Suc)
qed

text \<open>A producer takes a number for every payload, also for one that turns out not to fit.\<close>

fun produce :: "(bulk_kind \<times> u8 list) list \<Rightarrow> u16 \<Rightarrow> u8 list list" where
  "produce [] seq = []"
| "produce ((k, p) # ks) seq =
     (let (q, seq) = next_seq seq in
      case bulk_build_frame k q p of Inl _ \<Rightarrow> produce ks seq | Inr f \<Rightarrow> f # produce ks seq)"

fun numbered :: "(bulk_kind \<times> u8 list) list \<Rightarrow> u16 \<Rightarrow> (u16 \<times> u16 \<times> u8 list) list" where
  "numbered [] seq = []"
| "numbered ((k, p) # ks) seq =
     (if length p \<le> 496 then (kind_code k, seq, p) # numbered ks (seq + 1) else numbered ks (seq + 1))"

lemma produced_frames:
  "[] \<notin> set (produce ks seq) \<and> map parse_frame (produce ks seq) = map Some (numbered ks seq)"
proof (induction ks seq rule: produce.induct)
  case (2 k p ks seq)
  have "[] \<noteq> BULK_MAGIC @ r" for r by (simp add: BULK_MAGIC_def)
  with 2 show ?case by (auto simp: next_seq_def bulk_build_frame_eq parse_built)
qed simp

text \<open>
  Bulk frames.  On an endpoint that does not fail, whatever the producers hand over, a host that
  ends a transfer at every short packet gets exactly one transfer per frame, none pending; and each
  parses to its kind, its number and its payload.  A payload of more than 496 bytes is dropped and
  leaves a gap in the numbers.
\<close>

theorem bulk_frames_delivered:
  assumes "ep_faults e = []" "ep_sent e = []"
  shows "let (ts, rest) = transfers [] (ep_sent (fold stream_frame (produce ks seq) e)) in
    map parse_frame ts = map Some (numbered ks seq) \<and> rest = []"
  using produced_frames [of ks seq] assms by (simp add: stream_frames_ok transfers_messages)

theorem bulk_frames_delivered_witness:
  "let (ts, rest) = transfers [] (ep_sent (fold stream_frame
       (produce [(BulkTest, replicate 48 1), (RingDump, replicate 500 2), (FileChunk, [3])] 7)
       \<lparr>ep_sent = [], ep_faults = []\<rparr>)) in
    map parse_frame ts = [Some (0xFF, 7, replicate 48 1), Some (3, 9, [3])] \<and> rest = []"
  using bulk_frames_delivered [of "\<lparr>ep_sent = [], ep_faults = []\<rparr>"
      "[(BulkTest, replicate 48 1), (RingDump, replicate 500 2), (FileChunk, [3])]" 7]
  by (simp add: kind_code_def)

text \<open>A failed write in the middle of a frame: the flush that ends the transfer is still sent.\<close>

lemma flush_after_failure:
  assumes "length m = 128" "ep_faults e = [False, True]"
  shows "ep_sent (stream_frame m e) = ep_sent e @ [take 64 m, []]"
proof -
  have "chunks 64 m = [take 64 m, drop 64 m]"
  proof -
    have "m \<noteq> []" "drop 64 m \<noteq> []" "drop 64 (drop 64 m) = []" using assms(1) by auto
    then show ?thesis
      using assms(1) by (simp add: chunks_step [of m] chunks_step [of "drop 64 m"])
  qed
  then show ?thesis using assms by (simp add: stream_frame_def write_packet_def)
qed

subsection \<open>The console\<close>

lemma echo_bytes:
  "length out + 2 * length rx \<le> 128 \<Longrightarrow>
   fold echo_byte rx (out, e) = (out @ concat (map (\<lambda>b. if b = 0x0D then [0x0D, 0x0A] else [b]) rx), e)"
  by (induction rx arbitrary: out) (auto simp: echo_byte_def)

lemma write_until_error_ok:
  "ep_faults e = [] \<Longrightarrow> write_until_error ps e = e\<lparr>ep_sent := ep_sent e @ ps\<rparr>"
  by (induction ps arbitrary: e) simp_all

text \<open>A packet has at most 64 bytes, so the buffer never overflows.\<close>

lemma console_echoes:
  assumes "length rx \<le> 64" "ep_faults e = []"
  shows "ep_sent (console_packet rx e) =
    ep_sent e @ chunks 64 (concat (map (\<lambda>b. if b = 0x0D then [0x0D, 0x0A] else [b]) rx))"
  using assms echo_bytes [of "[]" rx e] by (simp add: console_packet_def write_until_error_ok)

end
