(* ===== verification/Mouse.thy ===== *)
theory Mouse
  imports Injector
begin

text \<open>
  The mouse injector (\<^verbatim>\<open>ps2/mouse_input.rs\<close>): the packing of a PS/2 mouse packet from 16-bit signed
  movements and the task that keeps the sticky button mask.  The lemmas show that a host which reads
  the auxiliary channel three bytes at a time gets the clamped movements with the buttons held.
\<close>

unbundle bit_operations_syntax

subsection \<open>The injector\<close>

datatype mouse_btn = BtnLeft | BtnRight | BtnMiddle

definition btn_mask :: "mouse_btn \<Rightarrow> u8" where
  "btn_mask b = (case b of BtnLeft \<Rightarrow> 0x01 | BtnRight \<Rightarrow> 0x02 | BtnMiddle \<Rightarrow> 0x04)"

text \<open>Movements are \<^verbatim>\<open>i16\<close>, read with \<open>sint\<close>.\<close>

datatype mouse_cmd = Move u16 u16 | Button mouse_btn bool

definition BYTE_GAP_MS :: nat where [const_defs]: "BYTE_GAP_MS = 5"
definition MOUSE_CMD_DEPTH :: nat where [const_defs]: "MOUSE_CMD_DEPTH = 8"

definition clamp9 :: "u16 \<Rightarrow> u16" where
  "clamp9 d = of_int (max (- 256) (min 255 (sint d)))"

definition pack_packet :: "u16 \<Rightarrow> u16 \<Rightarrow> u8 \<Rightarrow> u8 list" where
  "pack_packet dx dy buttons =
     (let dx9 = clamp9 dx;
          dy9 = clamp9 dy;
          x_sign = (ucast (signed_drop_bit 8 dx9 AND 1) :: u8);
          y_sign = (ucast (signed_drop_bit 8 dy9 AND 1) :: u8);
          byte0 = 0x08 OR (buttons AND 0x07) OR push_bit 4 x_sign OR push_bit 5 y_sign;
          byte1 = ucast (dx9 AND 0xFF);
          byte2 = ucast (dy9 AND 0xFF)
      in [byte0, byte1, byte2])"

definition mouse_send_packet :: "u16 \<Rightarrow> u16 \<Rightarrow> u8 \<Rightarrow> tx_op list" where
  "mouse_send_packet dx dy buttons =
     concat (map (\<lambda>b. [SendAt b, WaitMs BYTE_GAP_MS]) (pack_packet dx dy buttons))"

text \<open>One command: the button mask after it, and what the transmitter is told.\<close>

definition mouse_step :: "mouse_cmd \<Rightarrow> u8 \<Rightarrow> u8 \<times> tx_op list" where
  "mouse_step cmd buttons =
     (case cmd of
        Move dx dy \<Rightarrow> (buttons, mouse_send_packet dx dy buttons)
      | Button btn down \<Rightarrow>
          let new = (if down then buttons OR btn_mask btn else buttons AND NOT (btn_mask btn))
          in (new, mouse_send_packet 0 0 new))"

fun mouse_run :: "mouse_cmd list \<Rightarrow> u8 \<Rightarrow> u8 \<times> tx_op list" where
  "mouse_run [] buttons = (buttons, [])"
| "mouse_run (cmd # cmds) buttons =
     (let (buttons, ops) = mouse_step cmd buttons; (buttons, rest) = mouse_run cmds buttons
      in (buttons, ops @ rest))"

subsection \<open>The host's side\<close>

text \<open>A packet as a PS/2 driver reads it: nine-bit movements and the buttons held.\<close>

record mouse_report =
  mr_dx :: int
  mr_dy :: int
  mr_held :: "mouse_btn set"

definition read_packet :: "u8 \<Rightarrow> u8 \<Rightarrow> u8 \<Rightarrow> mouse_report option" where
  "read_packet b0 b1 b2 =
     (if bit b0 3 \<and> \<not> bit b0 6 \<and> \<not> bit b0 7
      then Some \<lparr>mr_dx = uint b1 - (if bit b0 4 then 256 else 0),
                 mr_dy = uint b2 - (if bit b0 5 then 256 else 0),
                 mr_held = {b. b0 AND btn_mask b \<noteq> 0}\<rparr>
      else None)"

fun read_packets :: "u8 list \<Rightarrow> mouse_report option list" where
  "read_packets (b0 # b1 # b2 # bs) = read_packet b0 b1 b2 # read_packets bs"
| "read_packets _ = []"

text \<open>What the operator asked for.\<close>

definition clamped :: "u16 \<Rightarrow> int" where
  "clamped d = max (- 256) (min 255 (sint d))"

fun intended :: "mouse_cmd list \<Rightarrow> mouse_btn set \<Rightarrow> mouse_report list" where
  "intended [] held = []"
| "intended (Move dx dy # cmds) held =
     \<lparr>mr_dx = clamped dx, mr_dy = clamped dy, mr_held = held\<rparr> # intended cmds held"
| "intended (Button b down # cmds) held =
     (let held = (if down then insert b held else held - {b})
      in \<lparr>mr_dx = 0, mr_dy = 0, mr_held = held\<rparr> # intended cmds held)"

definition held_in :: "u8 \<Rightarrow> mouse_btn set" where
  "held_in buttons = {b. buttons AND btn_mask b \<noteq> 0}"

subsection \<open>Packing and reading\<close>

definition btn_bit :: "mouse_btn \<Rightarrow> nat" where
  "btn_bit b = (case b of BtnLeft \<Rightarrow> 0 | BtnRight \<Rightarrow> 1 | BtnMiddle \<Rightarrow> 2)"

lemma btn_bit_simps: "btn_bit b < 3" "btn_bit b = btn_bit c \<longleftrightarrow> b = c" "btn_mask b = push_bit (btn_bit b) 1"
  by (cases b; cases c; simp add: btn_bit_def btn_mask_def push_bit_eq_mult)+

lemma btn_masked: "w AND btn_mask b \<noteq> 0 \<longleftrightarrow> bit w (btn_bit b)"
  using btn_bit_simps(1) [of b] by (simp add: btn_bit_simps(3) push_bit_eq_mult and_exp_eq_0_iff_not_bit)

lemma clamped_bounds: "- 256 \<le> clamped d" "clamped d \<le> 255"
  by (simp_all add: clamped_def)

lemma clamp9_bit: "k < 16 \<Longrightarrow> bit (clamp9 d) k \<longleftrightarrow> bit (clamped d) k"
  by (simp add: clamp9_def clamped_def bit_of_int_iff)

lemma clamped_div_mod:
  "clamped d div 256 = (if clamped d < 0 then - 1 else 0)"
  "clamped d mod 256 = (if clamped d < 0 then clamped d + 256 else clamped d)"
  using clamped_bounds [of d]
  by (auto intro: int_div_pos_eq [of _ _ _ "clamped d + 256"] int_mod_pos_eq [of _ _ "- 1"])

lemma clamped_sign: "bit (clamped d) 8 \<longleftrightarrow> clamped d < 0"
  using clamped_div_mod(1) [of d] by (simp add: bit_iff_odd)

lemma sign_bit: "ucast (signed_drop_bit 8 (clamp9 d) AND 1) = (of_bool (clamped d < 0) :: u8)"
proof -
  have "odd (signed_drop_bit 8 (clamp9 d)) \<longleftrightarrow> bit (clamp9 d) 8"
    by (simp add: bit_signed_drop_bit_iff flip: bit_0)
  then show ?thesis by (simp add: and_one_eq mod_2_eq_odd clamp9_bit clamped_sign)
qed

lemma low_byte: "uint (ucast (clamp9 d AND 0xFF) :: u8) = clamped d mod 256"
proof -
  have ff: "(0xFF :: u16) = mask 8" by (simp add: mask_eq_exp_minus_1)
  have "uint (ucast (clamp9 d AND 0xFF) :: u8) = take_bit 8 (clamped d)"
    unfolding ff by (intro bit_eqI) (auto simp: bit_uint_iff bit_ucast_iff bit_and_iff bit_mask_iff clamp9_bit bit_take_bit_iff)
  then show ?thesis by (simp add: take_bit_eq_mod)
qed

text \<open>The first byte, bit by bit.\<close>

lemma byte0_bits:
  fixes w :: u8 and xs ys :: bool
  defines "b0 \<equiv> 0x08 OR (w AND 0x07) OR push_bit 4 (of_bool xs) OR push_bit 5 (of_bool ys)"
  shows "bit b0 3" "bit b0 4 = xs" "bit b0 5 = ys" "\<not> bit b0 6" "\<not> bit b0 7"
    "\<And>k. k < 3 \<Longrightarrow> bit b0 k = bit w k"
proof -
  have c: "(0x08 :: u8) = push_bit 3 1" "(0x07 :: u8) = mask 3"
    by (simp_all add: push_bit_eq_mult mask_eq_exp_minus_1)
  have b: "bit b0 k \<longleftrightarrow> k = 3 \<or> k < 3 \<and> bit w k \<or> k = 4 \<and> xs \<or> k = 5 \<and> ys" if "k < 8" for k
    using that unfolding b0_def c bit_or_iff bit_and_iff bit_push_bit_iff bit_mask_iff
    by (auto simp: bit_1_iff)
  show "bit b0 3" "bit b0 4 = xs" "bit b0 5 = ys" "\<not> bit b0 6" "\<not> bit b0 7"
    "\<And>k. k < 3 \<Longrightarrow> bit b0 k = bit w k"
    by (simp_all add: b)
qed

lemma read_pack:
  "\<exists>b0 b1 b2. pack_packet dx dy buttons = [b0, b1, b2] \<and>
    read_packet b0 b1 b2 = Some \<lparr>mr_dx = clamped dx, mr_dy = clamped dy, mr_held = held_in buttons\<rparr>"
proof -
  define b0 where "b0 = 0x08 OR (buttons AND 0x07) OR push_bit 4 (of_bool (clamped dx < 0))
    OR push_bit 5 (of_bool (clamped dy < 0))"
  note bits = byte0_bits [where w = buttons and xs = "clamped dx < 0" and ys = "clamped dy < 0", folded b0_def]
  have "{b. b0 AND btn_mask b \<noteq> 0} = held_in buttons"
    by (simp add: held_in_def btn_masked bits(6) btn_bit_simps(1))
  moreover have "pack_packet dx dy buttons = [b0, ucast (clamp9 dx AND 0xFF), ucast (clamp9 dy AND 0xFF)]"
    by (simp add: pack_packet_def Let_def sign_bit b0_def)
  ultimately show ?thesis
    by (simp add: read_packet_def bits low_byte clamped_div_mod)
qed

lemma held_step:
  "held_in (buttons OR btn_mask b) = insert b (held_in buttons)"
  "held_in (buttons AND NOT (btn_mask b)) = held_in buttons - {b}"
proof -
  have m: "bit (btn_mask b) (btn_bit c) \<longleftrightarrow> c = b" for c
    using btn_bit_simps(1) [of c] by (auto simp: btn_bit_simps(2,3) bit_push_bit_iff bit_1_iff simp del: push_bit_of_1)
  show "held_in (buttons OR btn_mask b) = insert b (held_in buttons)"
    by (auto simp: held_in_def btn_masked bit_or_iff m)
  show "held_in (buttons AND NOT (btn_mask b)) = held_in buttons - {b}"
    by (auto simp: held_in_def btn_masked bit_and_iff bit_not_iff m intro: less_trans [OF btn_bit_simps(1)])
qed

lemma sent_packet [simp]: "sent_bytes (mouse_send_packet dx dy buttons) = pack_packet dx dy buttons"
  by (simp add: mouse_send_packet_def pack_packet_def Let_def)

text \<open>
  Mouse.  Whatever commands the mouse injector is given from boot, every packet it sends is well
  formed, and a host that reads the bytes three at a time gets, in order, the requested movements
  clamped to nine bits, each with exactly the buttons that are held at that point.
\<close>

theorem mouse_reports_commands:
  "read_packets (sent_bytes (snd (mouse_run cmds buttons))) = map Some (intended cmds (held_in buttons))"
proof (induction cmds arbitrary: buttons)
  case (Cons cmd cmds)
  show ?case
  proof (cases cmd)
    case (Move dx dy)
    obtain b0 b1 b2 where "pack_packet dx dy buttons = [b0, b1, b2]"
      "read_packet b0 b1 b2 = Some \<lparr>mr_dx = clamped dx, mr_dy = clamped dy, mr_held = held_in buttons\<rparr>"
      using read_pack by blast
    then show ?thesis using Cons Move by (simp add: mouse_step_def case_prod_beta)
  next
    case (Button b down)
    define new where "new = (if down then buttons OR btn_mask b else buttons AND NOT (btn_mask b))"
    have held: "held_in new = (if down then insert b (held_in buttons) else held_in buttons - {b})"
      by (simp add: new_def held_step)
    obtain b0 b1 b2 where "pack_packet 0 0 new = [b0, b1, b2]"
      "read_packet b0 b1 b2 = Some \<lparr>mr_dx = 0, mr_dy = 0, mr_held = held_in new\<rparr>"
      using read_pack [of 0 0 new] by (auto simp: clamped_def)
    then show ?thesis
      using Cons Button by (simp add: mouse_step_def case_prod_beta Let_def held flip: new_def)
  qed
qed simp

end
