(* ===== verification/Control.thy ===== *)
theory Control
  imports Usb Mouse Ps2Wire DebugScript
begin

text \<open>
  The control interface (\<^verbatim>\<open>usb/control.rs\<close>): assembling lines from packets, dispatching verbs, the
  handlers and their replies.  A line is a list of characters below 256, as \<^verbatim>\<open>b as char\<close> makes them;
  its capacity and everything sent count bytes of UTF-8.  The queues to the injectors and the bulk
  writer, the counters and the uptime are part of the state.
\<close>

unbundle bit_operations_syntax

subsection \<open>Text\<close>

definition utf8_char :: "u8 \<Rightarrow> u8 list" where
  "utf8_char c = (if c < 0x80 then [c] else [0xC0 OR drop_bit 6 c, 0x80 OR (c AND 0x3F)])"

definition utf8 :: "u8 list \<Rightarrow> u8 list" where
  "utf8 str = concat (map utf8_char str)"

text \<open>White space: of \<^verbatim>\<open>str::trim\<close>, which is Unicode's, and of \<^verbatim>\<open>split_ascii_whitespace\<close>.\<close>

definition is_whitespace :: "u8 \<Rightarrow> bool" where
  "is_whitespace c \<longleftrightarrow> c \<in> {0x09, 0x0A, 0x0B, 0x0C, 0x0D, 0x20, 0x85, 0xA0}"

definition is_ascii_whitespace :: "u8 \<Rightarrow> bool" where
  "is_ascii_whitespace c \<longleftrightarrow> c \<in> {0x09, 0x0A, 0x0C, 0x0D, 0x20}"

definition trim_start :: "u8 list \<Rightarrow> u8 list" where
  "trim_start str = dropWhile is_whitespace str"

definition trim :: "u8 list \<Rightarrow> u8 list" where
  "trim str = rev (dropWhile is_whitespace (rev (trim_start str)))"

fun cut_at :: "('a \<Rightarrow> bool) \<Rightarrow> 'a list \<Rightarrow> 'a list list" where
  "cut_at p [] = [[]]"
| "cut_at p (c # cs) =
     (if p c then [] # cut_at p cs
      else (case cut_at p cs of w # ws \<Rightarrow> (c # w) # ws | [] \<Rightarrow> [[c]]))"

definition split_ascii_whitespace :: "u8 list \<Rightarrow> u8 list list" where
  "split_ascii_whitespace str = filter (\<lambda>w. w \<noteq> []) (cut_at is_ascii_whitespace str)"

fun strip_prefix :: "'a list \<Rightarrow> 'a list \<Rightarrow> 'a list option" where
  "strip_prefix [] str = Some str"
| "strip_prefix (p # ps) [] = None"
| "strip_prefix (p # ps) (c # cs) = (if p = c then strip_prefix ps cs else None)"

text \<open>Numbers: digits of a radix, an optional sign that is not the whole text, and the type's range.\<close>

definition to_digit :: "nat \<Rightarrow> u8 \<Rightarrow> nat option" where
  "to_digit radix c =
     (let n = unat c;
          d = (if 48 \<le> n \<and> n \<le> 57 then Some (n - 48)
               else if 97 \<le> n \<and> n \<le> 122 then Some (n - 87)
               else if 65 \<le> n \<and> n \<le> 90 then Some (n - 55) else None)
      in (case d of Some k \<Rightarrow> if k < radix then Some k else None | None \<Rightarrow> None))"

fun digits_value :: "nat \<Rightarrow> nat \<Rightarrow> u8 list \<Rightarrow> nat option" where
  "digits_value radix acc [] = Some acc"
| "digits_value radix acc (c # cs) =
     (case to_digit radix c of None \<Rightarrow> None | Some d \<Rightarrow> digits_value radix (acc * radix + d) cs)"

definition parse_nat :: "nat \<Rightarrow> u8 list \<Rightarrow> nat option" where
  "parse_nat radix str =
     (if str = [] \<or> str = [0x2B] then None
      else digits_value radix 0 (if hd str = 0x2B then tl str else str))"

definition parse_u8_hex :: "u8 list \<Rightarrow> u8 option" where
  "parse_u8_hex str =
     (case parse_nat 16 str of Some n \<Rightarrow> if n < 256 then Some (of_nat n) else None | None \<Rightarrow> None)"

definition parse_i16 :: "u8 list \<Rightarrow> u16 option" where
  "parse_i16 str =
     (if str \<noteq> [] \<and> hd str = 0x2D then
        (if tl str = [] then None
         else case digits_value 10 0 (tl str) of
           Some n \<Rightarrow> if n \<le> 32768 then Some (of_int (- int n)) else None
         | None \<Rightarrow> None)
      else case parse_nat 10 str of
        Some n \<Rightarrow> if n < 32768 then Some (of_nat n) else None
      | None \<Rightarrow> None)"

fun fmt_dec :: "nat \<Rightarrow> u8 list" where
  "fmt_dec n = (if n < 10 then [of_nat (48 + n)] else fmt_dec (n div 10) @ [of_nat (48 + n mod 10)])"

declare fmt_dec.simps [simp del]

text \<open>\<^verbatim>\<open>write_fmt\<close> into a bounded string: whole pieces, up to the first that does not fit.\<close>

fun write_fmt :: "nat \<Rightarrow> u8 list list \<Rightarrow> u8 list \<Rightarrow> bool \<times> u8 list" where
  "write_fmt cap [] str = (True, str)"
| "write_fmt cap (p # ps) str =
     (if length str + length p \<le> cap then write_fmt cap ps (str @ p) else (False, str))"

definition writeln_into :: "nat \<Rightarrow> u8 list list \<Rightarrow> u8 list \<Rightarrow> u8 list" where
  "writeln_into cap ps str =
     (let (ok, str) = write_fmt cap ps str in
      if ok \<and> length str < cap then str @ [0x0A] else str)"

definition ascii :: "string \<Rightarrow> u8 list" where
  "ascii str = map (\<lambda>c. of_nat (of_char c)) str"

subsection \<open>The task's state\<close>

definition LINE_CAP :: nat where [const_defs]: "LINE_CAP = 128"
definition OUT_CAP :: nat where [const_defs]: "OUT_CAP = 512"

record control =
  ct_line :: "u8 list"
  ct_ep :: endpoint
  ct_inject :: "u8 list list"
  ct_mouse :: "mouse_cmd list"
  ct_bulk :: "u8 list list"
  ct_bulk_seq :: u16
  ct_kbd :: oversampler_counters
  ct_self_tx :: u32
  ct_aux :: oversampler_counters
  ct_event_drops :: u32
  ct_uptime_ms :: nat

definition send_bytes :: "u8 list \<Rightarrow> control \<Rightarrow> control" where
  "send_bytes bytes s = s\<lparr>ct_ep := snd (write_chunks bytes (ct_ep s))\<rparr>"

text \<open>A line that does not fit is cut; every caller's fits.\<close>

definition send_line :: "u8 list \<Rightarrow> control \<Rightarrow> control" where
  "send_line line s = send_bytes (take (min (length line) LINE_CAP) line @ [0x0A]) s"

text \<open>A reply formatted into a string of the given capacity.\<close>

definition send_fmt :: "nat \<Rightarrow> u8 list list \<Rightarrow> control \<Rightarrow> control" where
  "send_fmt cap ps s = send_line (snd (write_fmt cap ps [])) s"

subsection \<open>The handlers\<close>

text \<open>The loop over the tokens: the bytes, or the reply to the first token that is not one.\<close>

fun inject_bytes :: "u8 list list \<Rightarrow> u8 list \<Rightarrow> u8 list + u8 list" where
  "inject_bytes [] bytes = Inr bytes"
| "inject_bytes (tok # toks) bytes =
     (case parse_u8_hex tok of
        Some b \<Rightarrow>
          if length bytes < INJECT_RAW_MAX then inject_bytes toks (bytes @ [b])
          else Inl (ascii ''err inject too long'')
      | None \<Rightarrow> Inl (snd (write_fmt 64 [ascii ''err bad hex byte: '', utf8 tok] [])))"

definition handle_inject :: "u8 list list \<Rightarrow> control \<Rightarrow> control" where
  "handle_inject parts s =
     (case inject_bytes parts [] of
        Inl reply \<Rightarrow> send_line reply s
      | Inr bytes \<Rightarrow>
          if bytes = [] then send_line (ascii ''err inject needs at least one hex byte'') s
          else if length (ct_inject s) \<ge> INJECT_RAW_DEPTH then send_line (ascii ''err inject queue full'') s
          else send_fmt 32 [ascii ''ok queued '', fmt_dec (length bytes)]
                 (s\<lparr>ct_inject := ct_inject s @ [bytes]\<rparr>))"

definition mouse_try_send :: "mouse_cmd \<Rightarrow> control \<Rightarrow> control" where
  "mouse_try_send cmd s =
     (if length (ct_mouse s) \<ge> MOUSE_CMD_DEPTH then send_line (ascii ''err mouse queue full'') s
      else send_line (ascii ''ok'') (s\<lparr>ct_mouse := ct_mouse s @ [cmd]\<rparr>))"

definition next_token :: "u8 list list \<Rightarrow> u8 list option" where
  "next_token parts = (case parts of [] \<Rightarrow> None | t # _ \<Rightarrow> Some t)"

definition handle_mouse_move :: "u8 list list \<Rightarrow> control \<Rightarrow> control" where
  "handle_mouse_move parts s =
     (case Option.bind (next_token parts) parse_i16 of
        None \<Rightarrow> send_line (ascii ''err mouse_move: bad dx'') s
      | Some dx \<Rightarrow>
          (case Option.bind (next_token (tl parts)) parse_i16 of
             None \<Rightarrow> send_line (ascii ''err mouse_move: bad dy'') s
           | Some dy \<Rightarrow> mouse_try_send (Move dx dy) s))"

definition parse_btn :: "u8 list option \<Rightarrow> mouse_btn option" where
  "parse_btn t =
     (if t = Some [0x6C] \<or> t = Some [0x4C] then Some BtnLeft
      else if t = Some [0x72] \<or> t = Some [0x52] then Some BtnRight
      else if t = Some [0x6D] \<or> t = Some [0x4D] then Some BtnMiddle else None)"

definition handle_mouse_button :: "u8 list list \<Rightarrow> control \<Rightarrow> control" where
  "handle_mouse_button parts s =
     (case parse_btn (next_token parts) of
        None \<Rightarrow> send_line (ascii ''err mouse_button: expected l|r|m'') s
      | Some btn \<Rightarrow>
          let t = next_token (tl parts) in
          if t = Some (ascii ''down'') then mouse_try_send (Button btn True) s
          else if t = Some (ascii ''up'') then mouse_try_send (Button btn False) s
          else send_line (ascii ''err mouse_button: expected up|down'') s)"

definition handle_bulk_test :: "u8 list \<Rightarrow> control \<Rightarrow> control" where
  "handle_bulk_test line s =
     (let rest = trim_start (case strip_prefix (ascii ''bulk_test'') line of Some r \<Rightarrow> r | None \<Rightarrow> []);
          payload = (if rest = [] then ascii ''hello'' else utf8 rest);
          (q, seq) = next_seq (ct_bulk_seq s);
          s = s\<lparr>ct_bulk_seq := seq\<rparr>
      in case bulk_build_frame BulkTest q payload of
           Inl _ \<Rightarrow> send_line (ascii ''err bulk_test payload too long'') s
         | Inr frame \<Rightarrow>
             let (sent, bulk) = bulk_try_send frame (ct_bulk s) in
             if \<not> sent then send_line (ascii ''err bulk queue full'') s
             else send_fmt 48 [ascii ''ok bulk queued '', fmt_dec (length frame), ascii ''B'']
                    (s\<lparr>ct_bulk := bulk\<rparr>))"

definition stats_text :: "control \<Rightarrow> u8 list" where
  "stats_text s =
     (let num = (\<lambda>w :: u32. fmt_dec (unat w));
          out = writeln_into OUT_CAP [ascii ''uptime_ms='', fmt_dec (ct_uptime_ms s)] [];
          out = writeln_into OUT_CAP
            [ascii ''kbd words='', num (oc_words (ct_kbd s)), ascii '' clk_active='', num (oc_clk_active_words (ct_kbd s)),
             ascii '' frames='', num (oc_frames_total (ct_kbd s)), ascii '' errored='', num (oc_frames_errored (ct_kbd s)),
             ascii '' self_tx='', num (ct_self_tx s), ascii '' fifo_ovr='', num (oc_fifo_overrun (ct_kbd s)),
             ascii '' glitches='', num (oc_glitches_total (ct_kbd s))] out;
          out = writeln_into OUT_CAP
            [ascii ''aux words='', num (oc_words (ct_aux s)), ascii '' clk_active='', num (oc_clk_active_words (ct_aux s)),
             ascii '' frames='', num (oc_frames_total (ct_aux s)), ascii '' errored='', num (oc_frames_errored (ct_aux s)),
             ascii '' fifo_ovr='', num (oc_fifo_overrun (ct_aux s)), ascii '' glitches='', num (oc_glitches_total (ct_aux s))] out;
          out = writeln_into OUT_CAP [ascii ''usb event_drops='', num (ct_event_drops s)] out
      in (if length out + 3 \<le> OUT_CAP then out @ [0x6F, 0x6B, 0x0A] else out))"

definition send_stats :: "control \<Rightarrow> control" where
  "send_stats s = send_bytes (stats_text s) s"

definition dispatch :: "u8 list \<Rightarrow> control \<Rightarrow> control" where
  "dispatch line s =
     (let trimmed = trim line;
          words = split_ascii_whitespace trimmed;
          verb = (case words of [] \<Rightarrow> [] | w # _ \<Rightarrow> w);
          parts = tl words
      in if verb = [] then s
         else if verb = ascii ''ping'' then send_fmt 32 [ascii ''pong '', fmt_dec (ct_uptime_ms s)] s
         else if verb = ascii ''stats'' then send_stats s
         else if verb = ascii ''inject'' then handle_inject parts s
         else if verb = ascii ''mouse_move'' then handle_mouse_move parts s
         else if verb = ascii ''mouse_button'' then handle_mouse_button parts s
         else if verb = ascii ''bulk_test'' then handle_bulk_test trimmed s
         else send_fmt 64 [ascii ''err unknown verb: '', utf8 verb] s)"

subsection \<open>The task\<close>

definition control_byte :: "u8 \<Rightarrow> control \<Rightarrow> control" where
  "control_byte b s =
     (if b = 0x0D \<or> b = 0x0A then
        (if ct_line s = [] then s else (dispatch (ct_line s) s)\<lparr>ct_line := []\<rparr>)
      else if length (utf8 (ct_line s)) + length (utf8_char b) \<le> LINE_CAP then s\<lparr>ct_line := ct_line s @ [b]\<rparr>
      else (send_line (ascii ''err line too long'') s)\<lparr>ct_line := []\<rparr>)"

definition control_packet :: "u8 list \<Rightarrow> control \<Rightarrow> control" where
  "control_packet bytes s = fold control_byte bytes s"

text \<open>A host that connects: the line is empty and the banner goes out.\<close>

definition control_banner :: "u8 list" where
  "control_banner = ascii ''vintage-kvm control v1 '' @ [0xE2, 0x80, 0x94] @ 
     ascii '' type '' @ [0x27] @ ascii ''ping'' @ [0x27] @ ascii '' or '' @ [0x27] @ ascii ''stats'' @ [0x27]"

definition control_connect :: "control \<Rightarrow> control" where
  "control_connect s = send_line control_banner (s\<lparr>ct_line := []\<rparr>)"

end
