(* ===== verification/Tools.thy ===== *)
theory Tools
  imports Control
begin

text \<open>
  The control client's conversation (\<^verbatim>\<open>tools/control-client/src/main.rs\<close>): its loop over the reply and
  its reading of the reply's data.  The lemmas join it to the firmware's side: which commands the client
  gets an end of, what an over-long line does, and that counters and byte counts arrive as they are.
\<close>

subsection \<open>The client's loop\<close>

record client_reply =
  cr_ok :: bool
  cr_error :: "u8 list option"
  cr_lines :: "u8 list list"

definition trim_end_crlf :: "u8 list \<Rightarrow> u8 list" where
  "trim_end_crlf str = rev (dropWhile (\<lambda>c. c = 0x0D \<or> c = 0x0A) (rev str))"

definition starts_with :: "'a list \<Rightarrow> 'a list \<Rightarrow> bool" where
  "starts_with p str \<longleftrightarrow> strip_prefix p str \<noteq> None"

text \<open>
  The lines come from the port, without an end once the firmware has sent its reply: running out of
  them is the value \<open>None\<close>, the client waits until its time is over and reports an error.
\<close>

fun client_loop :: "u8 list list \<Rightarrow> u8 list list \<Rightarrow> client_reply option" where
  "client_loop lines [] = None"
| "client_loop lines (buf # bufs) =
     (let trimmed = trim_end_crlf buf in
      if starts_with (ascii ''vintage-kvm control'') trimmed then client_loop lines bufs
      else
        let lines = lines @ [trimmed] in
        case strip_prefix (ascii ''err'') trimmed of
          Some rest \<Rightarrow> Some \<lparr>cr_ok = False, cr_error = Some (trim_start rest), cr_lines = lines\<rparr>
        | None \<Rightarrow>
            if trimmed = ascii ''ok'' \<or> starts_with (ascii ''ok '') trimmed
            then Some \<lparr>cr_ok = True, cr_error = None, cr_lines = lines\<rparr>
            else client_loop lines bufs)"

declare client_loop.simps(2) [simp del]

text \<open>The complete lines of a byte stream.\<close>

definition stream_lines :: "u8 list \<Rightarrow> u8 list list" where
  "stream_lines bytes = butlast (split_on 0x0A bytes)"

subsection \<open>What the firmware answers\<close>

definition answers :: "u8 list \<Rightarrow> control \<Rightarrow> control \<Rightarrow> bool" where
  "answers r s t \<longleftrightarrow> ep_faults (ct_ep t) = [] \<and>
     concat (ep_sent (ct_ep t)) = concat (ep_sent (ct_ep s)) @ r"

text \<open>A line the client ends on, and one it reads over.\<close>

definition plain :: "u8 list \<Rightarrow> bool" where
  "plain l \<longleftrightarrow> 0x0A \<notin> set l \<and> 0x0D \<notin> set l"

definition final_line :: "u8 list \<Rightarrow> bool" where
  "final_line l \<longleftrightarrow> plain l \<and> (starts_with (ascii ''err'') l \<or> l = ascii ''ok'' \<or> starts_with (ascii ''ok '') l)"

definition body_line :: "u8 list \<Rightarrow> bool" where
  "body_line l \<longleftrightarrow> plain l \<and> \<not> starts_with (ascii ''err'') l \<and> l \<noteq> ascii ''ok'' \<and>
     \<not> starts_with (ascii ''ok '') l \<and> \<not> starts_with (ascii ''vintage-kvm control'') l"

lemma ascii_simps [simp]: "ascii [] = []" "ascii (c # cs) = of_nat (of_char c) # ascii cs"
  by (simp_all add: ascii_def)

lemma send_bytes_answers:
  "ep_faults (ct_ep s) = [] \<Longrightarrow> answers m s (send_bytes m s)"
  by (simp add: answers_def send_bytes_def write_chunks_ok)

lemma send_line_answers:
  "ep_faults (ct_ep s) = [] \<Longrightarrow> length l \<le> 128 \<Longrightarrow> answers (l @ [0x0A]) s (send_line l s)"
  by (simp add: send_line_def send_bytes_answers const_defs)

lemma write_fmt_length: "length str \<le> cap \<Longrightarrow> length (snd (write_fmt cap ps str)) \<le> cap"
  by (induction ps arbitrary: str) auto

lemma write_fmt_grows: "\<exists>r. snd (write_fmt cap ps str) = str @ r \<and> set r \<subseteq> \<Union> (set ` set ps)"
proof (induction ps arbitrary: str)
  case (Cons q ps)
  from Cons [of "str @ q"] obtain r where
    "snd (write_fmt cap ps (str @ q)) = str @ q @ r" "set r \<subseteq> \<Union> (set ` set ps)" by auto
  then show ?case by (auto intro: exI [of _ "q @ r"])
qed simp

lemma write_fmt_first:
  assumes "length p \<le> cap"
  shows "\<exists>r. snd (write_fmt cap (p # ps) []) = p @ r \<and> set r \<subseteq> \<Union> (set ` set ps)"
  using write_fmt_grows [of cap ps p] assms by simp

lemma strip_prefix_append [simp]: "strip_prefix p (p @ r) = Some r"
  by (induction p) auto

lemma starts_with_append [simp]: "starts_with p (p @ r)"
  by (simp add: starts_with_def)

text \<open>Numbers and echoed tokens do not break a line.\<close>

lemma plain_simps [simp]: "plain []" "plain (c # cs) \<longleftrightarrow> c \<noteq> 0x0A \<and> c \<noteq> 0x0D \<and> plain cs"
  "plain (xs @ ys) \<longleftrightarrow> plain xs \<and> plain ys"
  by (auto simp: plain_def)

lemma nat_less_10: "n < 10 \<Longrightarrow> n \<in> {0, 1, 2, 3, 4, 5, 6, 7, 8, 9::nat}"
  by (simp add: less_Suc_eq numeral_eq_Suc)

lemma dec_digit: "k < 10 \<Longrightarrow> of_nat (48 + k) \<in> {0x30, 0x31, 0x32, 0x33, 0x34, 0x35, 0x36, 0x37, 0x38, 0x39 :: u8}"
  by (drule nat_less_10) auto

lemma fmt_dec_digits: "set (fmt_dec n) \<subseteq> {0x30, 0x31, 0x32, 0x33, 0x34, 0x35, 0x36, 0x37, 0x38, 0x39}"
proof (induction n rule: fmt_dec.induct)
  case (1 n)
  then show ?case
    using dec_digit [of n] dec_digit [of "n mod 10"]
    by (cases "n < 10"; subst fmt_dec.simps) (simp_all del: of_nat_add)
qed

lemma plain_fmt_dec [simp]: "plain (fmt_dec n)"
  using fmt_dec_digits [of n] by (auto simp: plain_def)

lemma length_fmt_dec: "n < 10 ^ k \<Longrightarrow> 0 < k \<Longrightarrow> length (fmt_dec n) \<le> k"
proof (induction n arbitrary: k rule: fmt_dec.induct)
  case (1 n)
  show ?case
  proof (cases "n < 10")
    case True
    then show ?thesis using 1(3) by (subst fmt_dec.simps) simp
  next
    case False
    then have "1 < k" using 1(2) by (cases k; cases "k - 1") auto
    moreover have "n div 10 < 10 ^ (k - 1)"
      using 1(2) \<open>1 < k\<close> by (cases k) (auto simp: less_mult_imp_div_less mult.commute)
    ultimately have "length (fmt_dec (n div 10)) \<le> k - 1" using 1(1) False by simp
    with False \<open>1 < k\<close> show ?thesis by (subst fmt_dec.simps) simp
  qed
qed

lemma plain_utf8: "plain w \<Longrightarrow> plain (utf8 w)"
proof -
  have "0x0A \<noteq> x OR y" "0x0D \<noteq> x OR y" if "0x80 \<le> x" for x y :: u8
    using le_word_or2 [of x y] that by (auto simp: word_le_nat_alt)
  from this [of "0xC0"] this [of "0x80"] have "plain (utf8_char c)" if "c \<noteq> 0x0A" "c \<noteq> 0x0D" for c
    using that by (auto simp: utf8_char_def dest: sym)
  then show "plain w \<Longrightarrow> plain (utf8 w)"
    by (induction w) (auto simp: utf8_def)
qed

lemma cut_at_members: "w \<in> set (cut_at p str) \<Longrightarrow> c \<in> set w \<Longrightarrow> \<not> p c"
  by (induction p str arbitrary: w rule: cut_at.induct) (auto split: if_splits list.splits, blast)

lemma plain_token: "w \<in> set (split_ascii_whitespace str) \<Longrightarrow> plain w"
  using cut_at_members [of w is_ascii_whitespace str]
  by (auto simp: split_ascii_whitespace_def plain_def is_ascii_whitespace_def)

subsection \<open>Which replies end the client's loop\<close>

lemma split_lines [simp]: "plain l \<Longrightarrow> stream_lines (l @ 0x0A # r) = l # stream_lines r"
proof -
  have "split_on 0x0A r \<noteq> []" for r :: "u8 list" by (induction r) (auto split: list.split)
  then show "plain l \<Longrightarrow> stream_lines (l @ 0x0A # r) = l # stream_lines r"
    by (simp add: stream_lines_def plain_def)
qed

lemma stream_lines_Nil [simp]: "stream_lines [] = []"
  by (simp add: stream_lines_def)

lemma trim_plain [simp]: "plain l \<Longrightarrow> trim_end_crlf l = l"
  by (cases l rule: rev_cases) (auto simp: trim_end_crlf_def)

lemma body_loop: "body_line l \<Longrightarrow> client_loop ls (l # ms) = client_loop (ls @ [l]) ms"
  by (auto simp: client_loop.simps(2) body_line_def starts_with_def)

lemma final_not_banner: "final_line l \<Longrightarrow> \<not> starts_with (ascii ''vintage-kvm control'') l"
  by (cases l) (auto simp: final_line_def starts_with_def)

lemma final_loop:
  "final_line l \<Longrightarrow> \<exists>r. client_loop ls (l # ms) = Some r \<and> cr_lines r = ls @ [l] \<and>
     (cr_ok r \<longleftrightarrow> \<not> starts_with (ascii ''err'') l)"
  using final_not_banner [of l]
  by (auto simp: client_loop.simps(2) final_line_def starts_with_def Let_def split: option.split)

definition replies_final :: "control \<Rightarrow> control \<Rightarrow> bool" where
  "replies_final s t \<longleftrightarrow> (\<exists>l. final_line l \<and> answers (l @ [0x0A]) s t)"

lemma send_final:
  assumes "final_line l" "length l \<le> 128" "ep_faults (ct_ep s) = []"
  shows "replies_final s (send_line l s)"
  using assms send_line_answers by (auto simp: replies_final_def)

lemma fmt_final:
  assumes "starts_with (ascii ''err'') p \<or> starts_with (ascii ''ok '') p" "length p \<le> cap"
    "\<forall>q \<in> set (p # ps). plain q"
  shows "final_line (snd (write_fmt cap (p # ps) []))"
proof -
  obtain r where r: "snd (write_fmt cap (p # ps) []) = p @ r" "set r \<subseteq> \<Union> (set ` set ps)"
    using write_fmt_first [OF assms(2)] by blast
  have "plain r" using r(2) assms(3) by (auto simp: plain_def)
  moreover have "starts_with q (p @ r)" if "starts_with q p" for q
    using that by (induction q p rule: strip_prefix.induct) (auto simp: starts_with_def split: if_splits)
  ultimately show ?thesis using assms(1,3) unfolding r(1) final_line_def by auto
qed

lemma send_fmt_final:
  assumes "starts_with (ascii ''err'') p \<or> starts_with (ascii ''ok '') p" "length p \<le> cap" "cap \<le> 128"
    "\<forall>q \<in> set (p # ps). plain q" "ep_faults (ct_ep s) = []"
  shows "replies_final s (send_fmt cap (p # ps) s)"
  using write_fmt_length [of "[]" cap "p # ps"] send_final [OF fmt_final [OF assms(1,2,4)] _ assms(5)] assms(3)
  by (simp add: send_fmt_def)

lemma answers_updates [simp]:
  "answers r (ct_inject_update f s) t = answers r s t" "answers r (ct_mouse_update g s) t = answers r s t"
  "answers r (ct_bulk_update f s) t = answers r s t" "answers r (ct_bulk_seq_update h s) t = answers r s t"
  by (simp_all add: answers_def)

lemma replies_updates [simp]:
  "replies_final (ct_inject_update f s) t = replies_final s t" "replies_final (ct_mouse_update g s) t = replies_final s t"
  "replies_final (ct_bulk_update f s) t = replies_final s t" "replies_final (ct_bulk_seq_update h s) t = replies_final s t"
  by (simp_all add: replies_final_def)

text \<open>The literal replies.\<close>

lemma error_replies:
  "final_line (ascii ''err inject too long'')" "final_line (ascii ''err inject needs at least one hex byte'')"
  "final_line (ascii ''err inject queue full'')" "final_line (ascii ''err mouse queue full'')"
  "final_line (ascii ''err mouse_move: bad dx'')" "final_line (ascii ''err mouse_move: bad dy'')"
  "final_line (ascii ''err mouse_button: expected l|r|m'')" "final_line (ascii ''err mouse_button: expected up|down'')"
  "final_line (ascii ''err bulk_test payload too long'')" "final_line (ascii ''err bulk queue full'')"
  "final_line (ascii ''ok'')"
  by (simp_all add: final_line_def starts_with_def)

lemma inject_bytes_reply:
  assumes "\<forall>tok \<in> set toks. plain tok" "inject_bytes toks bytes = Inl reply"
  shows "final_line reply \<and> length reply \<le> 64"
  using assms
proof (induction toks arbitrary: bytes)
  case (Cons tok toks)
  have "final_line (snd (write_fmt 64 [ascii ''err bad hex byte: '', utf8 tok] []))"
    using Cons.prems(1) by (intro fmt_final) (simp_all add: starts_with_def plain_utf8)
  moreover have "length (snd (write_fmt 64 [ascii ''err bad hex byte: '', utf8 tok] [])) \<le> 64"
    by (rule write_fmt_length) simp
  ultimately show ?case
    using Cons error_replies(1) by (auto split: option.splits if_splits)
qed simp

lemma handlers_reply:
  assumes "ep_faults (ct_ep s) = []"
  shows "\<forall>tok \<in> set parts. plain tok \<Longrightarrow> replies_final s (handle_inject parts s)"
    "replies_final s (handle_mouse_move parts s)" "replies_final s (handle_mouse_button parts s)"
    "replies_final s (handle_bulk_test line s)"
proof -
  note send = send_final [OF _ _ assms]
  have updates: "ep_faults (ct_ep (ct_inject_update f s)) = []" "ep_faults (ct_ep (ct_mouse_update g s)) = []"
    "ep_faults (ct_ep (ct_bulk_update f (ct_bulk_seq_update h s))) = []"
    "ep_faults (ct_ep (ct_bulk_seq_update h s)) = []" for f g h
    using assms by simp_all
  have mouse: "replies_final s (mouse_try_send cmd s)" for cmd
    using send error_replies send_final [OF error_replies(11) _ updates(2)]
    by (simp add: mouse_try_send_def)
  show "replies_final s (handle_mouse_move parts s)" "replies_final s (handle_mouse_button parts s)"
    using mouse send error_replies
    by (simp_all add: handle_mouse_move_def handle_mouse_button_def Let_def split: option.split)
  show "replies_final s (handle_inject parts s)" if "\<forall>tok \<in> set parts. plain tok"
    using send error_replies inject_bytes_reply [OF that]
      send_fmt_final [of "ascii ''ok queued ''" 32 "[fmt_dec n]" for n, OF _ _ _ _ updates(1)]
    by (force simp: handle_inject_def starts_with_def split: sum.split)
  show "replies_final s (handle_bulk_test line s)"
    using send_final [OF error_replies(9) _ updates(4)] send_final [OF error_replies(10) _ updates(4)]
      send_fmt_final [of "ascii ''ok bulk queued ''" 48 "[fmt_dec n, ascii ''B'']" for n, OF _ _ _ _ updates(3)]
    by (simp add: handle_bulk_test_def Let_def case_prod_beta starts_with_def split: sum.split option.split)
qed

text \<open>The lines of a stats reply.\<close>

definition stats_lines :: "control \<Rightarrow> u8 list list" where
  "stats_lines s =
     (let num = (\<lambda>w :: u32. fmt_dec (unat w)) in
      [ascii ''uptime_ms='' @ fmt_dec (ct_uptime_ms s),
       ascii ''kbd words='' @ num (oc_words (ct_kbd s)) @ ascii '' clk_active='' @ num (oc_clk_active_words (ct_kbd s)) @
         ascii '' frames='' @ num (oc_frames_total (ct_kbd s)) @ ascii '' errored='' @ num (oc_frames_errored (ct_kbd s)) @
         ascii '' self_tx='' @ num (ct_self_tx s) @ ascii '' fifo_ovr='' @ num (oc_fifo_overrun (ct_kbd s)) @
         ascii '' glitches='' @ num (oc_glitches_total (ct_kbd s)),
       ascii ''aux words='' @ num (oc_words (ct_aux s)) @ ascii '' clk_active='' @ num (oc_clk_active_words (ct_aux s)) @
         ascii '' frames='' @ num (oc_frames_total (ct_aux s)) @ ascii '' errored='' @ num (oc_frames_errored (ct_aux s)) @
         ascii '' fifo_ovr='' @ num (oc_fifo_overrun (ct_aux s)) @ ascii '' glitches='' @ num (oc_glitches_total (ct_aux s)),
       ascii ''usb event_drops='' @ num (ct_event_drops s)])"

lemma write_fmt_fits: "length str + length (concat ps) \<le> cap \<Longrightarrow> write_fmt cap ps str = (True, str @ concat ps)"
  by (induction ps arbitrary: str) auto

lemma writeln_fits:
  "length str + length (concat ps) < cap \<Longrightarrow> writeln_into cap ps str = str @ concat ps @ [0x0A]"
  by (simp add: writeln_into_def write_fmt_fits)

lemma length_fmt_u32: "length (fmt_dec (unat (w :: u32))) \<le> 10"
proof -
  have "unat w < 10 ^ 10" using unsigned_less [of w, where ?'a = nat] by simp
  then show ?thesis by (rule length_fmt_dec) simp
qed

lemma length_fmt_u64: "n < 2 ^ 64 \<Longrightarrow> length (fmt_dec n) \<le> 20"
  by (rule length_fmt_dec) simp_all

lemma length_ascii [simp]: "length (ascii cs) = length cs"
  by (simp add: ascii_def)

lemma stats_text_lines:
  assumes "ct_uptime_ms s < 2 ^ 64"
  shows "stats_text s = concat (map (\<lambda>l. l @ [0x0A]) (stats_lines s)) @ [0x6F, 0x6B, 0x0A]"
proof -
  note len = length_fmt_u32 length_fmt_u64 [OF assms]
  have fits: "writeln_into 512 ps str = str @ concat ps @ [0x0A]"
    if "length str \<le> m" "length (concat ps) \<le> k" "m + k < 512" for str ps m k
    using that by (intro writeln_fits) simp
  have bounds: "length (fmt_dec (ct_uptime_ms s)) \<le> 20" "\<And>w. length (fmt_dec (unat (w :: u32))) \<le> 10"
    using len by auto
  obtain l1 l2 l3 l4 where l: "stats_lines s = [l1, l2, l3, l4]"
    by (simp add: stats_lines_def Let_def)
  have b: "length l1 \<le> 30" "length l2 \<le> 140" "length l3 \<le> 130" "length l4 \<le> 30"
    using l bounds(1) bounds(2) [of "oc_words (ct_kbd s)"] bounds(2) [of "oc_clk_active_words (ct_kbd s)"]
      bounds(2) [of "oc_frames_total (ct_kbd s)"] bounds(2) [of "oc_frames_errored (ct_kbd s)"]
      bounds(2) [of "ct_self_tx s"] bounds(2) [of "oc_fifo_overrun (ct_kbd s)"]
      bounds(2) [of "oc_glitches_total (ct_kbd s)"] bounds(2) [of "oc_words (ct_aux s)"]
      bounds(2) [of "oc_clk_active_words (ct_aux s)"] bounds(2) [of "oc_frames_total (ct_aux s)"]
      bounds(2) [of "oc_frames_errored (ct_aux s)"] bounds(2) [of "oc_fifo_overrun (ct_aux s)"]
      bounds(2) [of "oc_glitches_total (ct_aux s)"] bounds(2) [of "ct_event_drops s"]
    by (auto simp: stats_lines_def Let_def simp del: ascii_simps)
  obtain p1 p2 p3 p4 where p: "concat p1 = l1" "concat p2 = l2" "concat p3 = l3" "concat p4 = l4"
    "stats_text s =
       (let out = writeln_into 512 p4 (writeln_into 512 p3 (writeln_into 512 p2 (writeln_into 512 p1 []))) in
        if length out + 3 \<le> 512 then out @ [0x6F, 0x6B, 0x0A] else out)"
  proof
    show "stats_text s =
       (let out = writeln_into 512 [ascii ''usb event_drops='', fmt_dec (unat (ct_event_drops s))]
          (writeln_into 512 [ascii ''aux words='', fmt_dec (unat (oc_words (ct_aux s))), ascii '' clk_active='',
             fmt_dec (unat (oc_clk_active_words (ct_aux s))), ascii '' frames='', fmt_dec (unat (oc_frames_total (ct_aux s))),
             ascii '' errored='', fmt_dec (unat (oc_frames_errored (ct_aux s))), ascii '' fifo_ovr='',
             fmt_dec (unat (oc_fifo_overrun (ct_aux s))), ascii '' glitches='', fmt_dec (unat (oc_glitches_total (ct_aux s)))]
          (writeln_into 512 [ascii ''kbd words='', fmt_dec (unat (oc_words (ct_kbd s))), ascii '' clk_active='',
             fmt_dec (unat (oc_clk_active_words (ct_kbd s))), ascii '' frames='', fmt_dec (unat (oc_frames_total (ct_kbd s))),
             ascii '' errored='', fmt_dec (unat (oc_frames_errored (ct_kbd s))), ascii '' self_tx='',
             fmt_dec (unat (ct_self_tx s)), ascii '' fifo_ovr='', fmt_dec (unat (oc_fifo_overrun (ct_kbd s))),
             ascii '' glitches='', fmt_dec (unat (oc_glitches_total (ct_kbd s)))]
          (writeln_into 512 [ascii ''uptime_ms='', fmt_dec (ct_uptime_ms s)] []))) in
        if length out + 3 \<le> 512 then out @ [0x6F, 0x6B, 0x0A] else out)"
      by (simp only: stats_text_def Let_def OUT_CAP_def)
  qed (use l in \<open>simp_all add: stats_lines_def Let_def del: ascii_simps\<close>)
  have "writeln_into 512 p4 (writeln_into 512 p3 (writeln_into 512 p2 (writeln_into 512 p1 []))) =
      l1 @ [0x0A] @ l2 @ [0x0A] @ l3 @ [0x0A] @ l4 @ [0x0A]"
    using b by (simp add: writeln_fits p)
  then show ?thesis using b by (simp add: p(5) l)
qed

lemma stats_lines_body: "l \<in> set (stats_lines s) \<Longrightarrow> body_line l"
  by (auto simp: stats_lines_def Let_def body_line_def starts_with_def)

definition verb_of :: "u8 list \<Rightarrow> u8 list" where
  "verb_of line = (case split_ascii_whitespace (trim line) of [] \<Rightarrow> [] | w # _ \<Rightarrow> w)"

lemma body_lines_loop:
  "\<forall>l \<in> set bs. body_line l \<Longrightarrow> client_loop ls (bs @ ms) = client_loop (ls @ bs) ms"
  by (induction bs arbitrary: ls) (simp_all add: body_loop)

lemma stream_lines_concat:
  "\<forall>l \<in> set ls. plain l \<Longrightarrow> stream_lines (concat (map (\<lambda>l. l @ [0x0A]) ls)) = ls"
  by (induction ls) simp_all

text \<open>
  C38. Commands and replies.  For every line of the control interface with a verb, over a port that does
  not fail: the firmware answers with complete lines, and the client's loop over them ends, with the
  last line as its verdict, exactly if the verb is not \<^verbatim>\<open>ping\<close>.  The answer to \<^verbatim>\<open>ping\<close> is the one line
  \<^verbatim>\<open>pong\<close> with the uptime, which the loop takes for a body line: the client waits for more until its time
  is over and reports a failure.
\<close>

theorem client_waits_for_ping:
  assumes "ep_faults (ct_ep s) = []" "ct_uptime_ms s < 2 ^ 64" "verb_of line \<noteq> []"
  shows "\<exists>ls. ls \<noteq> [] \<and> answers (concat (map (\<lambda>l. l @ [0x0A]) ls)) s (dispatch line s) \<and>
    (verb_of line \<noteq> ascii ''ping'' \<longrightarrow>
       (\<exists>r. client_loop [] (stream_lines (concat (map (\<lambda>l. l @ [0x0A]) ls))) = Some r \<and> cr_lines r = ls \<and>
          (cr_ok r \<longleftrightarrow> \<not> starts_with (ascii ''err'') (last ls)))) \<and>
    (verb_of line = ascii ''ping'' \<longrightarrow>
       ls = [ascii ''pong '' @ fmt_dec (ct_uptime_ms s)] \<and>
       client_loop [] (stream_lines (concat (map (\<lambda>l. l @ [0x0A]) ls))) = None)"
proof -
  define words where "words = split_ascii_whitespace (trim line)"
  obtain v parts where w: "words = v # parts" "verb_of line = v"
    using assms(3) by (auto simp: verb_of_def words_def split: list.splits)
  have toks: "\<forall>tok \<in> set parts. plain tok" "plain v"
    using w(1) plain_token [of _ "trim line"] by (auto simp flip: words_def)
  show ?thesis
  proof (cases "v = ascii ''ping'' \<or> v = ascii ''stats''")
    case False
    have "v \<noteq> []" using assms(3) w(2) by simp
    then have "replies_final s (dispatch line s)"
      using False w(1) handlers_reply(1) [OF assms(1) toks(1)] handlers_reply(2-) [OF assms(1)]
        send_fmt_final [of "ascii ''err unknown verb: ''" 64 "[utf8 v]", OF _ _ _ _ assms(1)] toks(2)
      by (auto simp: dispatch_def Let_def starts_with_def plain_utf8 simp flip: words_def)
    then obtain l where l: "final_line l" "answers (l @ [0x0A]) s (dispatch line s)"
      by (auto simp: replies_final_def)
    then have "plain l" by (simp add: final_line_def)
    then show ?thesis
      using l final_loop [OF l(1), of "[]" "[]"] False w(2) by (intro exI [of _ "[l]"]) simp
  next
    case True
    then consider "v = ascii ''ping''" | "v = ascii ''stats''" by blast
    then show ?thesis
    proof cases
      case 1
      let ?l = "ascii ''pong '' @ fmt_dec (ct_uptime_ms s)"
      have "dispatch line s = send_line ?l s"
        using 1 w(1) length_fmt_u64 [OF assms(2)]
        by (simp add: dispatch_def Let_def send_fmt_def write_fmt_fits flip: words_def)
      moreover have "body_line ?l" by (simp add: body_line_def starts_with_def)
      moreover have "length ?l \<le> 128" using length_fmt_u64 [OF assms(2)] by simp
      ultimately show ?thesis
        using 1 w(2) send_line_answers [OF assms(1), of ?l] body_loop [of ?l "[]" "[]"] stream_lines_concat [of "[?l]"]
        by (intro exI [of _ "[?l]"]) (simp add: body_line_def)
    next
      case 2
      have d: "dispatch line s = send_bytes (stats_text s) s"
        using 2 w(1) by (simp add: dispatch_def Let_def send_stats_def flip: words_def)
      define ls where "ls = stats_lines s @ [ascii ''ok'']"
      have t: "stats_text s = concat (map (\<lambda>l. l @ [0x0A]) ls)"
        by (simp add: stats_text_lines [OF assms(2)] ls_def)
      have "\<forall>l \<in> set ls. plain l" using stats_lines_body by (auto simp: body_line_def ls_def)
      then have lines: "stream_lines (concat (map (\<lambda>l. l @ [0x0A]) ls)) = ls" by (rule stream_lines_concat)
      have "client_loop [] ls = client_loop (stats_lines s) [ascii ''ok'']"
        using body_lines_loop [of "stats_lines s" "[]" "[ascii ''ok'']"] stats_lines_body by (simp add: ls_def)
      then obtain r where r: "client_loop [] ls = Some r" "cr_lines r = ls"
        "cr_ok r \<longleftrightarrow> \<not> starts_with (ascii ''err'') (last ls)"
        using final_loop [OF error_replies(11), of "stats_lines s" "[]"] by (auto simp: ls_def)
      have "answers (concat (map (\<lambda>l. l @ [0x0A]) ls)) s (dispatch line s)"
        unfolding d t [symmetric] by (rule send_bytes_answers [OF assms(1)])
      moreover have "ls \<noteq> []" by (simp add: ls_def)
      ultimately show ?thesis
        using r 2 w(2) by (intro exI [of _ ls]) (simp add: lines)
    qed
  qed
qed

text \<open>A task for the witnesses.\<close>

definition idle_control :: control where
  "idle_control =
     \<lparr>ct_line = [], ct_ep = \<lparr>ep_sent = [], ep_faults = []\<rparr>, ct_inject = [], ct_mouse = [], ct_bulk = [],
      ct_bulk_seq = 0, ct_kbd = counters_new, ct_self_tx = 0, ct_aux = counters_new, ct_event_drops = 0,
      ct_uptime_ms = 7\<rparr>"

lemma verb_of_word: "\<forall>c \<in> set w. \<not> is_whitespace c \<Longrightarrow> verb_of w = w"
proof -
  assume w: "\<forall>c \<in> set w. \<not> is_whitespace c"
  then have "dropWhile is_whitespace w = w" "dropWhile is_whitespace (rev w) = rev w"
    by (auto simp: dropWhile_eq_self_iff hd_rev)
  then have "trim w = w" by (simp add: trim_def trim_start_def)
  moreover have "cut_at is_ascii_whitespace w = [w]"
    using w by (induction w) (auto simp: is_whitespace_def is_ascii_whitespace_def)
  ultimately show ?thesis by (simp add: verb_of_def split_ascii_whitespace_def)
qed

theorem client_waits_for_ping_witness:
  "verb_of (ascii ''ping'') = ascii ''ping'' \<and>
   answers (ascii ''pong '' @ fmt_dec 7 @ [0x0A]) idle_control (dispatch (ascii ''ping'') idle_control) \<and>
   client_loop [] (stream_lines (ascii ''pong '' @ fmt_dec 7 @ [0x0A])) = None"
proof -
  have v: "verb_of (ascii ''ping'') = ascii ''ping''"
    by (rule verb_of_word) (simp add: is_whitespace_def)
  moreover have "ascii ''ping'' \<noteq> []" by simp
  moreover have "ep_faults (ct_ep idle_control) = []" "ct_uptime_ms idle_control = 7"
    by (simp_all add: idle_control_def)
  ultimately show ?thesis
    using client_waits_for_ping [of idle_control "ascii ''ping''"]
    by (auto simp del: ascii_simps split_lines)
qed

subsection \<open>Commands\<close>

lemma control_bytes_line:
  assumes "\<forall>c \<in> set l. c \<noteq> 0x0D \<and> c \<noteq> 0x0A \<and> c < 0x80" "length (ct_line s) + length l \<le> 128"
    and "\<forall>c \<in> set (ct_line s). c < 0x80"
  shows "control_packet l s = s\<lparr>ct_line := ct_line s @ l\<rparr>"
  using assms
proof (induction l arbitrary: s)
  case (Cons c l)
  have "length (utf8 w) = length w" if "\<forall>c \<in> set w. c < 0x80" for w
    using that by (induction w) (simp_all add: utf8_def utf8_char_def)
  then have "control_byte c s = s\<lparr>ct_line := ct_line s @ [c]\<rparr>"
    using Cons.prems by (simp add: control_byte_def utf8_char_def const_defs)
  with Cons show ?case by (simp add: control_packet_def)
qed (simp add: control_packet_def)

lemma control_line:
  assumes "ct_line s = []" "\<forall>c \<in> set l. c \<noteq> 0x0D \<and> c \<noteq> 0x0A \<and> c < 0x80" "l \<noteq> []" "length l \<le> 128"
  shows "control_packet (l @ [0x0D]) s = (dispatch l (s\<lparr>ct_line := l\<rparr>))\<lparr>ct_line := []\<rparr>"
  using control_bytes_line [of l s] assms by (simp add: control_packet_def control_byte_def)

text \<open>
  Over-long lines.  When a line does not fit the buffer, the task says so and starts a new line
  right there: the first 129 characters are dropped, and whatever follows them in the same line is
  executed as a command of its own.
\<close>

theorem overlong_line_runs_tail:
  assumes "ct_line s = []" "length junk = 129" "\<forall>c \<in> set junk. c \<noteq> 0x0D \<and> c \<noteq> 0x0A \<and> c < 0x80"
    and "\<forall>c \<in> set cmd. c \<noteq> 0x0D \<and> c \<noteq> 0x0A \<and> c < 0x80" "cmd \<noteq> []" "length cmd \<le> 128"
  shows "control_packet (junk @ cmd @ [0x0D]) s =
    (let s1 = send_line (ascii ''err line too long'') (s\<lparr>ct_line := take 128 junk\<rparr>)
     in (dispatch cmd (s1\<lparr>ct_line := cmd\<rparr>))\<lparr>ct_line := []\<rparr>)"
proof -
  obtain pre c where j: "junk = pre @ [c]" "length pre = 128"
    using assms(2) by (cases junk rule: rev_cases) auto
  have u: "length (utf8 pre) = length pre"
    using assms(3) j(1) by (induction pre arbitrary: junk) (simp_all add: utf8_def utf8_char_def)
  have "control_packet pre s = s\<lparr>ct_line := pre\<rparr>"
    using control_bytes_line [of pre s] assms(1,3) j by simp
  moreover have "control_byte c (s\<lparr>ct_line := pre\<rparr>) =
      (send_line (ascii ''err line too long'') (s\<lparr>ct_line := pre\<rparr>))\<lparr>ct_line := []\<rparr>"
    using assms(3) j u by (simp add: control_byte_def utf8_char_def const_defs del: ascii_simps)
  moreover have "control_packet cmd (t\<lparr>ct_line := []\<rparr>) = t\<lparr>ct_line := cmd\<rparr>" for t
    using control_bytes_line [of cmd "t\<lparr>ct_line := []\<rparr>"] assms(4,6) by simp
  ultimately show ?thesis
    using assms(5) j by (simp add: control_packet_def control_byte_def Let_def del: ascii_simps)
qed

theorem overlong_line_runs_tail_witness:
  "ct_mouse (control_packet (replicate 129 0x20 @ ascii ''mouse_button l down'' @ [0x0D]) idle_control) =
     [Button BtnLeft True]"
proof -
  have w: "split_ascii_whitespace (trim (ascii ''mouse_button l down'')) =
      [ascii ''mouse_button'', ascii ''l'', ascii ''down'']"
    by (simp add: trim_def trim_start_def is_whitespace_def split_ascii_whitespace_def is_ascii_whitespace_def)
  have m: "ct_mouse (send_line l s) = ct_mouse s" for l s by (simp add: send_line_def send_bytes_def)
  show ?thesis
    using w overlong_line_runs_tail [of idle_control "replicate 129 0x20" "ascii ''mouse_button l down''"]
    by (simp add: idle_control_def dispatch_def handle_mouse_button_def next_token_def parse_btn_def
        mouse_try_send_def m const_defs)
qed

subsection \<open>What the client reads off a reply\<close>

text \<open>JSON as the client builds it; an object replaces the value of a key that comes again.\<close>

datatype json = JNat nat | JInt int | JText "u8 list" | JObject "(u8 list \<times> json) list"

definition json_insert :: "u8 list \<Rightarrow> json \<Rightarrow> (u8 list \<times> json) list \<Rightarrow> (u8 list \<times> json) list" where
  "json_insert k v m = filter (\<lambda>(k', _). k' \<noteq> k) m @ [(k, v)]"

definition parse_u64 :: "u8 list \<Rightarrow> nat option" where
  "parse_u64 str =
     (case parse_nat 10 str of Some n \<Rightarrow> if n < 2 ^ 64 then Some n else None | None \<Rightarrow> None)"

definition parse_i64 :: "u8 list \<Rightarrow> int option" where
  "parse_i64 str =
     (if str \<noteq> [] \<and> hd str = 0x2D then
        (if tl str = [] then None
         else case digits_value 10 0 (tl str) of
           Some n \<Rightarrow> if n \<le> 2 ^ 63 then Some (- int n) else None | None \<Rightarrow> None)
      else case parse_nat 10 str of Some n \<Rightarrow> if n < 2 ^ 63 then Some (int n) else None | None \<Rightarrow> None)"

definition kv_value :: "u8 list \<Rightarrow> json" where
  "kv_value str =
     (case parse_u64 str of
        Some n \<Rightarrow> JNat n
      | None \<Rightarrow> (case parse_i64 str of Some i \<Rightarrow> JInt i | None \<Rightarrow> JText str))"

fun split_once :: "'a \<Rightarrow> 'a list \<Rightarrow> ('a list \<times> 'a list) option" where
  "split_once d [] = None"
| "split_once d (c # cs) =
     (if c = d then Some ([], cs) else map_option (\<lambda>(k, v). (c # k, v)) (split_once d cs))"

definition section_of :: "u8 list list \<Rightarrow> (u8 list \<times> json) list" where
  "section_of parts =
     fold (\<lambda>tok m. case split_once 0x3D tok of Some (k, v) \<Rightarrow> json_insert k (kv_value v) m | None \<Rightarrow> m) parts []"

definition parse_stats_line :: "u8 list \<Rightarrow> (u8 list \<times> json) list \<Rightarrow> (u8 list \<times> json) list" where
  "parse_stats_line line m =
     (if starts_with (ascii ''ok'') line then m
      else case split_ascii_whitespace line of
        [] \<Rightarrow> m
      | first # parts \<Rightarrow>
          (case split_once 0x3D first of
             Some (k, v) \<Rightarrow> json_insert k (kv_value v) m
           | None \<Rightarrow> json_insert first (JObject (section_of parts)) m))"

definition parse_stats :: "u8 list list \<Rightarrow> json" where
  "parse_stats lines = JObject (fold parse_stats_line lines [])"

definition trim_end_B :: "u8 list \<Rightarrow> u8 list" where
  "trim_end_B str = rev (dropWhile (\<lambda>c. c = 0x42) (rev str))"

definition parse_data :: "u8 list \<Rightarrow> u8 list list \<Rightarrow> json option" where
  "parse_data verb lines =
     (let first = (case lines of [] \<Rightarrow> None | l # _ \<Rightarrow> Some l);
          final = (if lines = [] then None else Some (last lines));
          object = (\<lambda>k n. JObject [(ascii k, JNat n)]) in
      if verb = ascii ''ping'' then
        map_option (object ''uptime_ms'')
          (Option.bind (Option.bind first (strip_prefix (ascii ''pong''))) (\<lambda>rest. parse_u64 (trim_start rest)))
      else if verb = ascii ''stats'' then Some (parse_stats lines)
      else if verb = ascii ''inject'' then
        map_option (object ''queued'')
          (Option.bind (Option.bind final (strip_prefix (ascii ''ok queued''))) (\<lambda>rest. parse_u64 (trim_start rest)))
      else if verb = ascii ''bulk_test'' then
        map_option (object ''queued_bytes'')
          (Option.bind (Option.bind final (strip_prefix (ascii ''ok bulk queued'')))
            (\<lambda>rest. parse_u64 (trim_end_B (trim rest))))
      else None)"

lemma to_digit_hex: "n < 16 \<Longrightarrow> to_digit 16 (hex_digit n) = Some n"
  by (drule nat_less_16) (auto simp: to_digit_def hex_digit_def)

lemma hex_digit_not_sign: "n < 16 \<Longrightarrow> hex_digit n \<noteq> 0x2B"
  using hex_digit_char [of n] by (auto simp: hex_chars_def)

lemma parse_u8_fmt: "parse_u8_hex (fmt_02x b) = Some b"
proof -
  have "unat b div 16 < 16" "unat b < 256" using unsigned_less [of b, where ?'a = nat] by simp_all
  then show ?thesis
    by (simp add: parse_u8_hex_def parse_nat_def fmt_02x_def to_digit_hex hex_digit_not_sign)
qed

lemma digits_value_append:
  "digits_value r acc (xs @ ys) = Option.bind (digits_value r acc xs) (\<lambda>a. digits_value r a ys)"
  by (induction xs arbitrary: acc) (auto split: option.split)

lemma to_digit_dec: "k < 10 \<Longrightarrow> to_digit 10 (of_nat (48 + k)) = Some k"
  by (drule nat_less_10) (auto simp: to_digit_def)

lemma digits_fmt_dec: "digits_value 10 0 (fmt_dec n) = Some n"
proof (induction n rule: fmt_dec.induct)
  case (1 n)
  show ?case
  proof (cases "n < 10")
    case True
    then show ?thesis by (subst fmt_dec.simps) (simp add: to_digit_dec del: of_nat_add)
  next
    case False
    then show ?thesis
      using 1 to_digit_dec [of "n mod 10"]
      by (subst fmt_dec.simps) (simp add: digits_value_append del: of_nat_add)
  qed
qed

lemma fmt_dec_first: "fmt_dec n \<noteq> []" "hd (fmt_dec n) \<noteq> 0x2B" "hd (fmt_dec n) \<noteq> 0x20" "\<not> is_whitespace (hd (fmt_dec n))"
proof -
  show "fmt_dec n \<noteq> []" by (subst fmt_dec.simps) simp
  then have "hd (fmt_dec n) \<in> set (fmt_dec n)" by simp
  with fmt_dec_digits [of n] show "hd (fmt_dec n) \<noteq> 0x2B" "hd (fmt_dec n) \<noteq> 0x20"
    "\<not> is_whitespace (hd (fmt_dec n))"
    by (auto simp: is_whitespace_def)
qed

lemma parse_u64_fmt [simp]: "n < 2 ^ 64 \<Longrightarrow> parse_u64 (fmt_dec n) = Some n"
  using fmt_dec_first [of n] digits_fmt_dec [of n]
  by (cases "fmt_dec n") (auto simp: parse_u64_def parse_nat_def)

subsection \<open>Commands end to end\<close>

lemma cut_words:
  assumes "p d" "\<forall>c \<in> set w. \<not> p c" "\<forall>x \<in> set ws. \<forall>c \<in> set x. \<not> p c"
  shows "cut_at p (w @ concat (map (\<lambda>x. d # x) ws)) = w # ws"
proof -
  have snoc: "cut_at p (w @ d # r) = w # cut_at p r" if "\<forall>c \<in> set w. \<not> p c" for w r
    using that assms(1) by (induction w) auto
  have single: "cut_at p w = [w]" if "\<forall>c \<in> set w. \<not> p c" for w
    using that by (induction w) auto
  show ?thesis
    using assms(2,3) by (induction ws arbitrary: w) (simp_all add: snoc single)
qed

definition wordy :: "u8 list \<Rightarrow> bool" where
  "wordy w \<longleftrightarrow> w \<noteq> [] \<and> (\<forall>c \<in> set w. \<not> is_whitespace c)"

lemma split_ascii_words:
  assumes "\<forall>x \<in> set (w # ws). wordy x"
  shows "split_ascii_whitespace (w @ concat (map (\<lambda>x. 0x20 # x) ws)) = w # ws"
proof -
  have a: "\<not> is_ascii_whitespace c" if "\<not> is_whitespace c" for c
    using that by (auto simp: is_whitespace_def is_ascii_whitespace_def)
  have "cut_at is_ascii_whitespace (w @ concat (map (\<lambda>x. 0x20 # x) ws)) = w # ws"
    by (rule cut_words) (use assms a in \<open>auto simp: wordy_def is_ascii_whitespace_def\<close>)
  then show ?thesis
    using assms by (simp add: split_ascii_whitespace_def wordy_def filter_id_conv)
qed

lemma trim_id:
  assumes "\<not> is_whitespace (hd l)" "\<not> is_whitespace (last l)"
  shows "trim l = l"
proof -
  have "dropWhile is_whitespace l = l" "dropWhile is_whitespace (rev l) = rev l"
    using assms by (simp_all add: dropWhile_eq_self_iff hd_rev)
  then show ?thesis by (simp add: trim_def trim_start_def)
qed

lemma trim_words:
  assumes "\<forall>x \<in> set (w # ws). wordy x"
  shows "trim (w @ concat (map (\<lambda>x. 0x20 # x) ws)) = w @ concat (map (\<lambda>x. 0x20 # x) ws)"
proof -
  let ?l = "w @ concat (map (\<lambda>x. 0x20 # x) ws)"
  have "\<not> is_whitespace (hd ?l)" using assms by (cases w) (auto simp: wordy_def)
  moreover have "\<not> is_whitespace (last ?l)"
    using assms by (cases ws rule: rev_cases) (auto simp: wordy_def)
  ultimately show ?thesis
    by (rule trim_id)
qed

lemma wordy_simps [simp]: "wordy (fmt_02x b)" "wordy (fmt_dec n)"
proof -
  have "\<not> is_whitespace c" if "c \<in> set hex_chars" for c
    using that by (auto simp: hex_chars_def is_whitespace_def)
  then show "wordy (fmt_02x b)"
    using fmt_chars(1) [of b] by (auto simp: wordy_def fmt_02x_def)
  show "wordy (fmt_dec n)"
    using fmt_dec_digits [of n] fmt_dec_first(1) [of n] by (auto simp: wordy_def is_whitespace_def)
qed

lemma inject_bytes_fmt:
  "length acc + length bs \<le> INJECT_RAW_MAX \<Longrightarrow> inject_bytes (map fmt_02x bs) acc = Inr (acc @ bs)"
  by (induction bs arbitrary: acc) (simp_all add: parse_u8_fmt)

definition inject_command :: "u8 list \<Rightarrow> u8 list" where
  "inject_command bytes = ascii ''inject'' @ concat (map (\<lambda>x. 0x20 # x) (map fmt_02x bytes))"

text \<open>
  Injecting bytes.  For one to 32 bytes, typed in hexadecimal after the verb, with room in the
  injector's queue: the bytes are queued for the keyboard as they are, once, behind what waits there;
  and the client, when it reads the reply, ends and reports their number.
\<close>

lemma inject_command_queues:
  assumes "ct_line s = []" "ep_faults (ct_ep s) = []" "length (ct_inject s) < 4"
    and "bytes \<noteq> []" "length bytes \<le> 32"
  shows "\<exists>reply. let t = control_packet (inject_command bytes @ [0x0D]) s in
    ct_inject t = ct_inject s @ [bytes] \<and> ct_line t = [] \<and> answers (reply @ [0x0A]) s t \<and>
    (\<exists>r. client_loop [] (stream_lines (reply @ [0x0A])) = Some r \<and> cr_ok r \<and>
       parse_data (ascii ''inject'') (cr_lines r) = Some (JObject [(ascii ''queued'', JNat (length bytes))]))"
proof -
  let ?l = "inject_command bytes"
  have "wordy (ascii ''inject'')" by (simp add: wordy_def is_whitespace_def)
  then have w: "\<forall>x \<in> set (ascii ''inject'' # map fmt_02x bytes). wordy x" by simp
  have split: "split_ascii_whitespace (trim ?l) = ascii ''inject'' # map fmt_02x bytes"
    unfolding inject_command_def trim_words [OF w] by (rule split_ascii_words [OF w])
  have "\<forall>c \<in> set ?l. c \<noteq> 0x0D \<and> c \<noteq> 0x0A \<and> c < 0x80"
  proof -
    have "\<forall>c \<in> set hex_chars. c \<noteq> 0x0D \<and> c \<noteq> 0x0A \<and> c < 0x80" by (simp add: hex_chars_def)
    then have "\<forall>c \<in> set (fmt_02x b). c \<noteq> 0x0D \<and> c \<noteq> 0x0A \<and> c < 0x80" for b
      using fmt_chars(1) [of b] by blast
    then show ?thesis by (auto simp: inject_command_def)
  qed
  moreover have "length ?l \<le> 128"
  proof -
    have "length (concat (map (\<lambda>x. 0x20 # x) (map fmt_02x bytes))) = 3 * length bytes"
      by (induction bytes) (simp_all add: fmt_02x_def)
    then show ?thesis using assms(5) by (simp add: inject_command_def del: map_map)
  qed
  moreover have "?l \<noteq> []" by (simp add: inject_command_def)
  ultimately have line: "control_packet (?l @ [0x0D]) s = (dispatch ?l (s\<lparr>ct_line := ?l\<rparr>))\<lparr>ct_line := []\<rparr>"
    using assms(1) by (intro control_line)
  define reply where "reply = ascii ''ok queued '' @ fmt_dec (length bytes)"
  have n: "length (fmt_dec (length bytes)) \<le> 2" using assms(5) by (intro length_fmt_dec) simp_all
  define t where "t = s\<lparr>ct_line := ?l, ct_inject := ct_inject s @ [bytes]\<rparr>"
  have d: "dispatch ?l (s\<lparr>ct_line := ?l\<rparr>) = send_line reply t"
  proof -
    have "dispatch ?l (s\<lparr>ct_line := ?l\<rparr>) = handle_inject (map fmt_02x bytes) (s\<lparr>ct_line := ?l\<rparr>)"
      unfolding dispatch_def Let_def split list.case list.sel by simp
    also have "inject_bytes (map fmt_02x bytes) [] = Inr bytes"
      using assms(5) inject_bytes_fmt [of "[]" bytes] by (simp add: const_defs)
    then have "handle_inject (map fmt_02x bytes) (s\<lparr>ct_line := ?l\<rparr>) =
        send_fmt 32 [ascii ''ok queued '', fmt_dec (length bytes)] t"
      using assms(3,4) by (simp add: handle_inject_def t_def const_defs del: ascii_simps)
    also have "\<dots> = send_line reply t"
      using n by (simp add: send_fmt_def write_fmt_fits reply_def del: ascii_simps)
    finally show ?thesis .
  qed
  have "answers (reply @ [0x0A]) t (send_line reply t)"
    using assms(2) n by (intro send_line_answers) (simp_all add: t_def reply_def)
  then have "answers (reply @ [0x0A]) s ((send_line reply t)\<lparr>ct_line := []\<rparr>)"
    by (simp add: answers_def t_def)
  moreover have "ct_inject (send_line reply t) = ct_inject s @ [bytes]"
    by (simp add: send_line_def send_bytes_def t_def)
  moreover have "final_line reply" "\<not> starts_with (ascii ''err'') reply"
    by (simp_all add: reply_def final_line_def starts_with_def)
  moreover have "trim_start (0x20 # fmt_dec (length bytes)) = fmt_dec (length bytes)"
    using fmt_dec_first [of "length bytes"] by (cases "fmt_dec (length bytes)") (auto simp: trim_start_def is_whitespace_def)
  then have "parse_data (ascii ''inject'') [reply] = Some (JObject [(ascii ''queued'', JNat (length bytes))])"
    using assms(5) by (simp add: parse_data_def Let_def reply_def)
  ultimately show ?thesis
    using final_loop [of reply "[]" "[]"]
    by (intro exI [of _ reply]) (auto simp: line d Let_def final_line_def)
qed

text \<open>Statistics: a line is a section's name and its \<^verbatim>\<open>key=value\<close> words.\<close>

definition counter_word :: "string \<Rightarrow> nat \<Rightarrow> u8 list" where
  "counter_word k n = ascii k @ 0x3D # fmt_dec n"

definition counter_words :: "(string \<times> nat) list \<Rightarrow> u8 list list" where
  "counter_words kvs = map (\<lambda>(k, n). counter_word k n) kvs"

definition counter_object :: "(string \<times> nat) list \<Rightarrow> json" where
  "counter_object kvs = JObject (map (\<lambda>(k, n). (ascii k, JNat n)) kvs)"

definition key_ok :: "string \<Rightarrow> bool" where
  "key_ok k \<longleftrightarrow> wordy (ascii k) \<and> 0x3D \<notin> set (ascii k)"

lemma split_once_append: "d \<notin> set k \<Longrightarrow> split_once d (k @ d # v) = Some (k, v)"
  by (induction k) auto

lemma split_once_none: "d \<notin> set k \<Longrightarrow> split_once d k = None"
  by (induction k) auto

lemma counter_word_facts:
  assumes "key_ok k" "n < 2 ^ 64"
  shows "wordy (counter_word k n)" "split_once 0x3D (counter_word k n) = Some (ascii k, fmt_dec n)"
    "kv_value (fmt_dec n) = JNat n"
proof -
  show "wordy (counter_word k n)"
    using assms(1) wordy_simps(2) [of n] by (auto simp: counter_word_def key_ok_def wordy_def is_whitespace_def)
  show "split_once 0x3D (counter_word k n) = Some (ascii k, fmt_dec n)"
    using assms(1) by (simp add: counter_word_def key_ok_def split_once_append)
  show "kv_value (fmt_dec n) = JNat n" using assms(2) by (simp add: kv_value_def)
qed

lemma section_of_counters:
  assumes "\<forall>(k, n) \<in> set kvs. key_ok k \<and> n < 2 ^ 64" "distinct (map (ascii \<circ> fst) kvs)"
  shows "JObject (section_of (counter_words kvs)) = counter_object kvs"
proof -
  have "fold (\<lambda>tok m. case split_once 0x3D tok of Some (k, v) \<Rightarrow> json_insert k (kv_value v) m | None \<Rightarrow> m)
      (counter_words kvs) m = m @ map (\<lambda>(k, n). (ascii k, JNat n)) kvs"
    if "\<forall>(k, v) \<in> set m. k \<notin> (ascii \<circ> fst) ` set kvs" for m
    using assms that
  proof (induction kvs arbitrary: m)
    case (Cons kv kvs)
    obtain k n where kv: "kv = (k, n)" by (cases kv)
    then have kn: "key_ok k" "n < 2 ^ 64" using Cons.prems(1) by auto
    have "filter (\<lambda>(k', _). k' \<noteq> ascii k) m = m"
      using Cons.prems(3) kv by (auto simp: filter_id_conv)
    then have "json_insert (ascii k) (JNat n) m = m @ [(ascii k, JNat n)]"
      by (simp add: json_insert_def)
    moreover have "\<forall>(k', v) \<in> set (m @ [(ascii k, JNat n)]). k' \<notin> (ascii \<circ> fst) ` set kvs"
      using Cons.prems(2,3) kv by auto
    note Cons.IH [OF _ _ this]
    ultimately show ?case
      using Cons.prems(1,2) kv counter_word_facts(2,3) [OF kn] by (simp add: counter_words_def)
  qed (simp add: counter_words_def)
  from this [of "[]"] show ?thesis by (simp add: section_of_def counter_object_def)
qed

lemma parse_stats_section:
  assumes "key_ok name" "\<not> starts_with (ascii ''ok'') (ascii name)" "length (ascii name) = 3"
    "\<forall>(k, n) \<in> set kvs. key_ok k \<and> n < 2 ^ 64" "distinct (map (ascii \<circ> fst) kvs)"
  shows "parse_stats_line (ascii name @ concat (map (\<lambda>x. 0x20 # x) (counter_words kvs))) m =
    json_insert (ascii name) (counter_object kvs) m"
proof -
  have w: "\<forall>x \<in> set (ascii name # counter_words kvs). wordy x"
    using assms(1,4) counter_word_facts(1) by (auto simp: counter_words_def key_ok_def)
  obtain a b c where abc: "ascii name = [a, b, c]"
    using assms(3) by (auto simp: numeral_3_eq_3 length_Suc_conv simp del: length_ascii)
  have "\<not> starts_with (ascii ''ok'') (ascii name @ r)" for r
    using assms(2) unfolding abc by (simp add: starts_with_def split: if_splits)
  moreover have "split_once 0x3D (ascii name) = None"
    using split_once_none [of "0x3D" "ascii name"] assms(1) by (simp add: key_ok_def)
  ultimately show ?thesis
    unfolding parse_stats_line_def split_ascii_words [OF w] list.case
    by (simp add: section_of_counters [OF assms(4,5)] del: ascii_simps)
qed

definition kbd_counters :: "control \<Rightarrow> (string \<times> nat) list" where
  "kbd_counters s =
     [(''words'', unat (oc_words (ct_kbd s))), (''clk_active'', unat (oc_clk_active_words (ct_kbd s))),
      (''frames'', unat (oc_frames_total (ct_kbd s))), (''errored'', unat (oc_frames_errored (ct_kbd s))),
      (''self_tx'', unat (ct_self_tx s)), (''fifo_ovr'', unat (oc_fifo_overrun (ct_kbd s))),
      (''glitches'', unat (oc_glitches_total (ct_kbd s)))]"

definition aux_counters :: "control \<Rightarrow> (string \<times> nat) list" where
  "aux_counters s =
     [(''words'', unat (oc_words (ct_aux s))), (''clk_active'', unat (oc_clk_active_words (ct_aux s))),
      (''frames'', unat (oc_frames_total (ct_aux s))), (''errored'', unat (oc_frames_errored (ct_aux s))),
      (''fifo_ovr'', unat (oc_fifo_overrun (ct_aux s))), (''glitches'', unat (oc_glitches_total (ct_aux s)))]"

lemma stats_lines_words:
  "stats_lines s =
     [counter_word ''uptime_ms'' (ct_uptime_ms s),
      ascii ''kbd'' @ concat (map (\<lambda>x. 0x20 # x) (counter_words (kbd_counters s))),
      ascii ''aux'' @ concat (map (\<lambda>x. 0x20 # x) (counter_words (aux_counters s))),
      ascii ''usb'' @ concat (map (\<lambda>x. 0x20 # x) (counter_words [(''event_drops'', unat (ct_event_drops s))]))]"
  by (simp add: stats_lines_def Let_def counter_words_def counter_word_def kbd_counters_def aux_counters_def)

lemma stats_keys:
  "key_ok ''uptime_ms''" "key_ok ''words''" "key_ok ''clk_active''" "key_ok ''frames''" "key_ok ''errored''"
  "key_ok ''self_tx''" "key_ok ''fifo_ovr''" "key_ok ''glitches''" "key_ok ''event_drops''"
  "key_ok ''kbd''" "key_ok ''aux''" "key_ok ''usb''"
  by (simp_all add: key_ok_def wordy_def is_whitespace_def)

lemma u32_small: "unat (w :: u32) < 18446744073709551616"
  using unsigned_less [of w, where ?'a = nat] by simp

lemma counters_ok:
  "\<forall>(k, n) \<in> set (kbd_counters s). key_ok k \<and> n < 2 ^ 64" "distinct (map (ascii \<circ> fst) (kbd_counters s))"
  "\<forall>(k, n) \<in> set (aux_counters s). key_ok k \<and> n < 2 ^ 64" "distinct (map (ascii \<circ> fst) (aux_counters s))"
  using u32_small stats_keys by (simp_all add: kbd_counters_def aux_counters_def)

text \<open>
  C26. Statistics.  The client reads the firmware's counters off the reply to \<^verbatim>\<open>stats\<close> exactly: its loop
  ends with success, and the object it builds has the uptime, the keyboard's and the auxiliary
  channel's counters and the number of dropped events, each under its name.
\<close>

theorem stats_reported:
  assumes "ct_uptime_ms s < 2 ^ 64"
  shows "\<exists>r. client_loop [] (stream_lines (stats_text s)) = Some r \<and> cr_ok r \<and>
    parse_data (ascii ''stats'') (cr_lines r) = Some (JObject
      [(ascii ''uptime_ms'', JNat (ct_uptime_ms s)), (ascii ''kbd'', counter_object (kbd_counters s)),
       (ascii ''aux'', counter_object (aux_counters s)),
       (ascii ''usb'', counter_object [(''event_drops'', unat (ct_event_drops s))])])"
proof -
  define ls where "ls = stats_lines s @ [ascii ''ok'']"
  have t: "stats_text s = concat (map (\<lambda>l. l @ [0x0A]) ls)"
    by (simp add: stats_text_lines [OF assms] ls_def)
  have "\<forall>l \<in> set ls. plain l" using stats_lines_body by (auto simp: body_line_def ls_def)
  then have lines: "stream_lines (stats_text s) = ls" unfolding t by (rule stream_lines_concat)
  have "client_loop [] ls = client_loop (stats_lines s) [ascii ''ok'']"
    using body_lines_loop [of "stats_lines s" "[]" "[ascii ''ok'']"] stats_lines_body by (simp add: ls_def)
  then obtain r where r: "client_loop [] ls = Some r" "cr_lines r = ls" "cr_ok r"
    using final_loop [OF error_replies(11), of "stats_lines s" "[]"] by (auto simp: ls_def starts_with_def)
  have up: "parse_stats_line (counter_word ''uptime_ms'' (ct_uptime_ms s)) [] =
      [(ascii ''uptime_ms'', JNat (ct_uptime_ms s))]"
  proof -
    note f = counter_word_facts [OF stats_keys(1) assms]
    have "split_ascii_whitespace (counter_word ''uptime_ms'' (ct_uptime_ms s)) = [counter_word ''uptime_ms'' (ct_uptime_ms s)]"
      using split_ascii_words [of "counter_word ''uptime_ms'' (ct_uptime_ms s)" "[]"] f(1) by simp
    moreover have "\<not> starts_with (ascii ''ok'') (counter_word ''uptime_ms'' (ct_uptime_ms s))"
      by (simp add: counter_word_def starts_with_def)
    ultimately show ?thesis
      using f(2,3) by (simp add: parse_stats_line_def json_insert_def del: ascii_simps)
  qed
  have no: "\<not> starts_with (ascii ''ok'') (ascii ''kbd'')" "\<not> starts_with (ascii ''ok'') (ascii ''aux'')"
    "\<not> starts_with (ascii ''ok'') (ascii ''usb'')" by (simp_all add: starts_with_def)
  have ok: "parse_stats_line (ascii ''ok'') m = m" for m
    by (simp add: parse_stats_line_def starts_with_def)
  have u: "\<forall>(k, n) \<in> set [(''event_drops'', unat (ct_event_drops s))]. key_ok k \<and> n < 2 ^ 64"
    "distinct (map (ascii \<circ> fst) [(''event_drops'', unat (ct_event_drops s))])"
    using u32_small stats_keys(9) by simp_all
  have kbd: "parse_stats_line (ascii ''kbd'' @ concat (map ((#) 0x20) (counter_words (kbd_counters s)))) m =
      json_insert (ascii ''kbd'') (counter_object (kbd_counters s)) m" for m
    using parse_stats_section [OF stats_keys(10) no(1) _ counters_ok(1,2), of s m] by simp
  have aux: "parse_stats_line (ascii ''aux'' @ concat (map ((#) 0x20) (counter_words (aux_counters s)))) m =
      json_insert (ascii ''aux'') (counter_object (aux_counters s)) m" for m
    using parse_stats_section [OF stats_keys(11) no(2) _ counters_ok(3,4), of s m] by simp
  have usb: "parse_stats_line (ascii ''usb'' @ concat (map ((#) 0x20)
        (counter_words [(''event_drops'', unat (ct_event_drops s))]))) m =
      json_insert (ascii ''usb'') (counter_object [(''event_drops'', unat (ct_event_drops s))]) m" for m
    using parse_stats_section [OF stats_keys(12) no(3) _ u, of m] by simp
  have "fold parse_stats_line ls [] =
      [(ascii ''uptime_ms'', JNat (ct_uptime_ms s)), (ascii ''kbd'', counter_object (kbd_counters s)),
       (ascii ''aux'', counter_object (aux_counters s)),
       (ascii ''usb'', counter_object [(''event_drops'', unat (ct_event_drops s))])]"
    unfolding ls_def stats_lines_words append.simps fold.simps comp_apply id_apply up kbd aux usb ok
    by (simp add: json_insert_def)
  then show ?thesis using r by (auto simp: lines parse_data_def Let_def parse_stats_def ls_def)
qed

theorem stats_reported_witness:
  "\<exists>r. client_loop [] (stream_lines (stats_text idle_control)) = Some r \<and> cr_ok r \<and>
    parse_data (ascii ''stats'') (cr_lines r) = Some (JObject
      [(ascii ''uptime_ms'', JNat 7), (ascii ''kbd'', counter_object (kbd_counters idle_control)),
       (ascii ''aux'', counter_object (aux_counters idle_control)),
       (ascii ''usb'', counter_object [(''event_drops'', unat (ct_event_drops idle_control))])])"
proof -
  have "ct_uptime_ms idle_control = 7" by (simp add: idle_control_def)
  then show ?thesis using stats_reported [of idle_control] by (simp del: ascii_simps)
qed

end
