(* ===== verification/EventStream.thy ===== *)
theory EventStream
  imports Usb "HOL-Library.List_Lexorder" "HOL-Library.Product_Lexorder"
begin

text \<open>
  The event stream from the firmware's inbox to the lines the host prints: the shape of an event as
  the serializer sees it (\<^verbatim>\<open>crates/telemetry-schema\<close>), the host's mirror of the event type
  (\<^verbatim>\<open>tools/events-consumer/src/event.rs\<close>) and the reader with its frame splitter
  (\<^verbatim>\<open>tools/events-consumer/src/main.rs\<close>).  The serializer itself is a library and a parameter; what
  is assumed of it is its documentation: a frame ends with its only zero byte, and a frame is decoded
  to the value it was made of by a reader whose type has the same variants and fields.
\<close>

subsection \<open>The shapes of the two event types\<close>

text \<open>The derived implementations hand the serializer the variant's number and the fields in order.\<close>

datatype wire_type = TStr | TBool | TU8 | TU16 | TU32 | TEnum nat
datatype wire_value = VStr string | VBool bool | VU8 u8 | VU16 u16 | VU32 u32 | VEnum nat

fun has_type :: "wire_value \<Rightarrow> wire_type \<Rightarrow> bool" where
  "has_type (VStr _) TStr = True"
| "has_type (VBool _) TBool = True"
| "has_type (VU8 _) TU8 = True"
| "has_type (VU16 _) TU16 = True"
| "has_type (VU32 _) TU32 = True"
| "has_type (VEnum i) (TEnum n) = (i < n)"
| "has_type _ _ = False"

definition conforms :: "wire_type list list \<Rightarrow> nat \<times> wire_value list \<Rightarrow> bool" where
  "conforms schema v = (fst v < length schema \<and> list_all2 has_type (snd v) (schema ! fst v))"

definition reason_index :: "resync_reason \<Rightarrow> nat" where
  "reason_index r =
     (case r of PreSohByte \<Rightarrow> 0 | PayloadTooLong \<Rightarrow> 1 | ResyncBadCrc \<Rightarrow> 2 | ResyncBadEtx \<Rightarrow> 3 | ResyncDecodeError \<Rightarrow> 4)"

definition event_value :: "event \<Rightarrow> nat \<times> wire_value list" where
  "event_value e =
     (case e of
        Boot fw_version phase \<Rightarrow> (0, [VStr fw_version, VU8 phase])
      | DownloadBegin total_blocks expected_crc32 size_bytes \<Rightarrow>
          (1, [VU16 total_blocks, VU32 expected_crc32, VU32 size_bytes])
      | BlockAck block_no running_crc32 \<Rightarrow> (2, [VU16 block_no, VU32 running_crc32])
      | DownloadComplete crc_match final_crc32 \<Rightarrow> (3, [VBool crc_match, VU32 final_crc32])
      | SeqGap expected got cmd \<Rightarrow> (4, [VU8 expected, VU8 got, VU8 cmd])
      | UnknownCmd cmd \<Rightarrow> (5, [VU8 cmd])
      | PacketStreamResync reason \<Rightarrow> (6, [VEnum (reason_index reason)])
      | EncodeError \<Rightarrow> (7, []))"

datatype host_reason = HPreSohByte | HPayloadTooLong | HBadCrc | HBadEtx | HDecodeError

datatype host_event =
    HBoot string u8
  | HDownloadBegin u16 u32 u32
  | HBlockAck u16 u32
  | HDownloadComplete bool u32
  | HSeqGap u8 u8 u8
  | HUnknownCmd u8
  | HPacketStreamResync host_reason
  | HEncodeError

text \<open>The types the host's reader expects, variant by variant, and the value it builds of them.\<close>

definition host_schema :: "wire_type list list" where
  "host_schema =
     [[TStr, TU8], [TU16, TU32, TU32], [TU16, TU32], [TBool, TU32], [TU8, TU8, TU8], [TU8], [TEnum 5], []]"

definition host_reason_of :: "nat \<Rightarrow> host_reason option" where
  "host_reason_of n =
     (if n = 0 then Some HPreSohByte else if n = 1 then Some HPayloadTooLong else if n = 2 then Some HBadCrc
      else if n = 3 then Some HBadEtx else if n = 4 then Some HDecodeError else None)"

fun host_event_of :: "nat \<times> wire_value list \<Rightarrow> host_event option" where
  "host_event_of (n, vs) =
     (case vs of
        [VStr v, VU8 p] \<Rightarrow> if n = 0 then Some (HBoot v p) else None
      | [VU16 t, VU32 c, VU32 s] \<Rightarrow> if n = 1 then Some (HDownloadBegin t c s) else None
      | [VU16 b, VU32 c] \<Rightarrow> if n = 2 then Some (HBlockAck b c) else None
      | [VBool m, VU32 c] \<Rightarrow> if n = 3 then Some (HDownloadComplete m c) else None
      | [VU8 e, VU8 g, VU8 c] \<Rightarrow> if n = 4 then Some (HSeqGap e g c) else None
      | [VU8 c] \<Rightarrow> if n = 5 then Some (HUnknownCmd c) else None
      | [VEnum r] \<Rightarrow> if n = 6 then map_option HPacketStreamResync (host_reason_of r) else None
      | [] \<Rightarrow> if n = 7 then Some HEncodeError else None
      | _ \<Rightarrow> None)"

text \<open>What the host ought to print for an event.\<close>

definition mirror_reason :: "resync_reason \<Rightarrow> host_reason" where
  "mirror_reason r =
     (case r of PreSohByte \<Rightarrow> HPreSohByte | PayloadTooLong \<Rightarrow> HPayloadTooLong | ResyncBadCrc \<Rightarrow> HBadCrc
      | ResyncBadEtx \<Rightarrow> HBadEtx | ResyncDecodeError \<Rightarrow> HDecodeError)"

definition mirror :: "event \<Rightarrow> host_event" where
  "mirror e =
     (case e of
        Boot v p \<Rightarrow> HBoot v p
      | DownloadBegin t c s \<Rightarrow> HDownloadBegin t c s
      | BlockAck b c \<Rightarrow> HBlockAck b c
      | DownloadComplete m c \<Rightarrow> HDownloadComplete m c
      | SeqGap x g c \<Rightarrow> HSeqGap x g c
      | UnknownCmd c \<Rightarrow> HUnknownCmd c
      | PacketStreamResync r \<Rightarrow> HPacketStreamResync (mirror_reason r)
      | EncodeError \<Rightarrow> HEncodeError)"

text \<open>The two declarations agree.\<close>

lemma event_conforms: "conforms host_schema (event_value e)"
  by (cases e) (auto simp: conforms_def host_schema_def event_value_def reason_index_def split: resync_reason.splits)

lemma mirror_decodes: "host_event_of (event_value e) = Some (mirror e)"
  by (cases e)
    (auto simp: event_value_def mirror_def reason_index_def mirror_reason_def host_reason_of_def
      split: resync_reason.splits)

subsection \<open>The reader\<close>

datatype line = Printed host_event | DecodeFailed nat

text \<open>
  \<^verbatim>\<open>drain_frames\<close>: complete frames are cut off the buffer and decoded; the timestamps and the error
  text of the printed lines are left out.
\<close>

function drain_frames :: "(u8 list \<Rightarrow> host_event option) \<Rightarrow> u8 list \<Rightarrow> line list \<times> u8 list" where
  "drain_frames decode buf =
     (if 0 \<in> set buf then
        let pos = length (takeWhile (\<lambda>b. b \<noteq> 0) buf);
            frame = take (Suc pos) buf;
            (printed, rest) = drain_frames decode (drop (Suc pos) buf)
        in (if length frame \<le> 1 then printed
            else (case decode frame of Some ev \<Rightarrow> Printed ev | None \<Rightarrow> DecodeFailed (length frame)) # printed,
            rest)
      else ([], buf))"
  by pat_completeness auto
termination by (relation "measure (\<lambda>(d, b). length b)") (auto simp: neq_Nil_conv dest: split_list)

declare drain_frames.simps [simp del]

datatype read_result = ReadOk "u8 list" | ReadTimedOut | ReadFailed

text \<open>The main loop over the results of the reads so far: the lines, and the buffer unless it has returned.\<close>

fun read_loop ::
  "(u8 list \<Rightarrow> host_event option) \<Rightarrow> u8 list \<Rightarrow> read_result list \<Rightarrow> line list \<times> u8 list option" where
  "read_loop decode buf [] = ([], Some buf)"
| "read_loop decode buf (ReadOk chunk # rs) =
     (if chunk = [] then read_loop decode buf rs
      else
        let (printed, buf) = drain_frames decode (buf @ chunk);
            (more_lines, res) = read_loop decode buf rs
        in (printed @ more_lines, res))"
| "read_loop decode buf (ReadTimedOut # rs) = read_loop decode buf rs"
| "read_loop decode buf (ReadFailed # rs) = ([], None)"

text \<open>Choosing the port: of those with the device's identifiers the call-up variants first, then by name.\<close>

definition contains :: "u8 list \<Rightarrow> u8 list \<Rightarrow> bool" where
  "contains pat str = list_ex (\<lambda>i. take (length pat) (drop i str) = pat) [0..<Suc (length str)]"

definition port_prio :: "u8 list \<Rightarrow> nat" where
  "port_prio name = (if contains [0x63, 0x75, 0x2E] name then 0 else 1)"

definition auto_detect :: "(u8 list \<times> (u16 \<times> u16) option) list \<Rightarrow> u8 list option" where
  "auto_detect ports =
     (let found = map fst (filter (\<lambda>(_, usb). usb = Some (0xC0DE, 0xCAFE)) ports) in
      case sort_key (\<lambda>n. (port_prio n, n)) found of [] \<Rightarrow> None | n # _ \<Rightarrow> Some n)"

subsection \<open>Splitting the stream\<close>

text \<open>What the host prints for one frame, given without its terminator.\<close>

definition frame_lines :: "(u8 list \<Rightarrow> host_event option) \<Rightarrow> u8 list \<Rightarrow> line list" where
  "frame_lines decode p =
     (if p = [] then []
      else [case decode (p @ [0]) of Some ev \<Rightarrow> Printed ev | None \<Rightarrow> DecodeFailed (Suc (length p))])"

lemma drain_none: "0 \<notin> set buf \<Longrightarrow> drain_frames decode buf = ([], buf)"
  by (simp add: drain_frames.simps)

lemma drain_step:
  "0 \<notin> set p \<Longrightarrow> drain_frames decode (p @ 0 # xs) =
     (let (printed, rest) = drain_frames decode xs in (frame_lines decode p @ printed, rest))"
proof -
  assume p: "0 \<notin> set p"
  then have "takeWhile (\<lambda>b. b \<noteq> 0) (p @ 0 # xs) = p" by (subst takeWhile_append2) auto
  moreover have "take (Suc (length p)) (p @ 0 # xs) = p @ [0]" "drop (Suc (length p)) (p @ 0 # xs) = xs"
    by (simp_all add: Suc_diff_le)
  ultimately show ?thesis
    unfolding drain_frames.simps [of decode "p @ 0 # xs"]
    by (simp add: Let_def frame_lines_def case_prod_beta split: option.split del: take_append drop_append)
qed

lemma drain_rest: "0 \<notin> set (snd (drain_frames decode buf))"
proof (induction "length buf" arbitrary: buf rule: less_induct)
  case less
  show ?case
  proof (cases "0 \<in> set buf")
    case True
    then obtain p xs where "buf = p @ 0 # xs" "0 \<notin> set p" using split_list_first by fastforce
    then show ?thesis using less [of xs] by (simp add: drain_step case_prod_beta Let_def)
  qed (simp add: drain_none)
qed

text \<open>It does not matter how the stream is cut into reads.\<close>

lemma drain_append:
  "drain_frames decode (xs @ ys) =
     (let (l, r) = drain_frames decode xs; (l', r') = drain_frames decode (r @ ys) in (l @ l', r'))"
proof (induction "length xs" arbitrary: xs rule: less_induct)
  case less
  show ?case
  proof (cases "0 \<in> set xs")
    case True
    then obtain p ts where xs: "xs = p @ 0 # ts" "0 \<notin> set p" using split_list_first by fastforce
    show ?thesis using less [of ts] xs by (simp add: drain_step case_prod_beta Let_def)
  next
    case False
    then show ?thesis by (simp add: drain_none case_prod_beta Let_def)
  qed
qed

definition received :: "read_result list \<Rightarrow> u8 list" where
  "received rs = concat (map (\<lambda>r. case r of ReadOk c \<Rightarrow> c | _ \<Rightarrow> []) rs)"

lemma read_loop_drains:
  "ReadFailed \<notin> set rs \<Longrightarrow> 0 \<notin> set buf \<Longrightarrow> read_loop decode buf rs =
     (fst (drain_frames decode (buf @ received rs)), Some (snd (drain_frames decode (buf @ received rs))))"
proof (induction decode buf rs rule: read_loop.induct)
  case (1 decode buf)
  then show ?case by (simp add: received_def drain_none)
next
  case (2 decode buf chunk rs)
  show ?case
  proof (cases "chunk = []")
    case True
    then show ?thesis using 2 by (simp add: received_def)
  next
    case False
    obtain l r where d: "drain_frames decode (buf @ chunk) = (l, r)" by fastforce
    then have "0 \<notin> set r" using drain_rest [of decode "buf @ chunk"] by simp
    with 2(2) [OF False d [symmetric] refl] 2(3) False d
    show ?thesis
      using drain_append [of decode "buf @ chunk" "received rs"]
      by (simp add: received_def case_prod_beta Let_def)
  qed
next
  case (3 decode buf rs)
  then show ?case by (simp add: received_def)
qed simp

lemma drain_all_frames:
  "\<forall>p \<in> set ps. 0 \<notin> set p \<Longrightarrow> drain_frames decode (concat (map (\<lambda>p. p @ [0]) ps)) =
     (concat (map (frame_lines decode) ps), [])"
  by (induction ps) (simp_all add: drain_none drain_step)

subsection \<open>From the inbox to the lines\<close>

text \<open>The writer's turns send the frames of the queued events that can be encoded, in order.\<close>

lemma events_turns:
  assumes "ep_faults e = []" "length (usb_event_chan u) \<le> n"
  shows "concat (ep_sent (snd ((events_turn encode ^^ n) (u, e)))) =
    concat (ep_sent e) @ concat (List.map_filter encode (usb_event_chan u))"
  using assms
proof (induction n arbitrary: u e)
  case 0
  then show ?case by (simp add: map_filter_def)
next
  case (Suc n)
  show ?case
  proof (cases "usb_event_chan u")
    case Nil
    then have "events_turn encode (u, e) = (u, e)" by (simp add: events_turn_def)
    with Suc Nil show ?thesis by (simp add: funpow_Suc_right del: funpow.simps)
  next
    case (Cons ev evs)
    define u' where "u' = u\<lparr>usb_event_chan := evs\<rparr>"
    have t: "events_turn encode (u, e) = (u', write_event encode ev e)"
      using Cons by (simp add: events_turn_def u'_def)
    have w: "ep_faults (write_event encode ev e) = []"
      "concat (ep_sent (write_event encode ev e)) =
        concat (ep_sent e) @ (case encode ev of None \<Rightarrow> [] | Some bs \<Rightarrow> bs)"
      using Suc.prems by (simp_all add: write_event_def stream_frame_ok concat_message_packets split: option.splits)
    have "concat (ep_sent (snd ((events_turn encode ^^ n) (u', write_event encode ev e)))) =
        concat (ep_sent (write_event encode ev e)) @ concat (List.map_filter encode evs)"
      using Suc.IH [OF w(1), of u'] Suc.prems(2) Cons by (simp add: u'_def)
    with w(2) Cons show ?thesis
      by (simp add: t funpow_Suc_right map_filter_def split: option.splits del: funpow.simps)
  qed
qed

definition host_decode ::
  "(wire_type list list \<Rightarrow> u8 list \<Rightarrow> (nat \<times> wire_value list) option) \<Rightarrow> u8 list \<Rightarrow> host_event option" where
  "host_decode from_bytes bs = Option.bind (from_bytes host_schema bs) host_event_of"

text \<open>What the serializer promises.\<close>

definition frames_terminated :: "(nat \<times> wire_value list \<Rightarrow> u8 list option) \<Rightarrow> bool" where
  "frames_terminated to_slice =
     (\<forall>v bs. to_slice v = Some bs \<longrightarrow> (\<exists>p. bs = p @ [0] \<and> p \<noteq> [] \<and> 0 \<notin> set p))"

definition decodes_back ::
  "(nat \<times> wire_value list \<Rightarrow> u8 list option) \<Rightarrow>
   (wire_type list list \<Rightarrow> u8 list \<Rightarrow> (nat \<times> wire_value list) option) \<Rightarrow> bool" where
  "decodes_back to_slice from_bytes =
     (\<forall>schema v bs. conforms schema v \<longrightarrow> to_slice v = Some bs \<longrightarrow> from_bytes schema bs = Some v)"

lemma frame_printed:
  assumes "frames_terminated to_slice" "decodes_back to_slice from_bytes"
    "to_slice (event_value ev) = Some bs"
  shows "0 \<notin> set (butlast bs)" "butlast bs @ [0] = bs"
    "frame_lines (host_decode from_bytes) (butlast bs) = [Printed (mirror ev)]"
proof -
  obtain p where p: "bs = p @ [0]" "p \<noteq> []" "0 \<notin> set p"
    using assms(1,3) unfolding frames_terminated_def by blast
  have b: "from_bytes host_schema bs = Some (event_value ev)"
    using assms(2,3) event_conforms [of ev] unfolding decodes_back_def by blast
  from p show "0 \<notin> set (butlast bs)" "butlast bs @ [0] = bs" by simp_all
  show "frame_lines (host_decode from_bytes) (butlast bs) = [Printed (mirror ev)]"
    using p b mirror_decodes [of ev]
    by (simp add: frame_lines_def host_decode_def)
qed

lemma frames_printed:
  assumes "frames_terminated to_slice" "decodes_back to_slice from_bytes"
  shows "drain_frames (host_decode from_bytes) (concat (List.map_filter (to_slice \<circ> event_value) evs)) =
    (map (Printed \<circ> mirror) (filter (\<lambda>ev. to_slice (event_value ev) \<noteq> None) evs), [])"
proof (induction evs)
  case Nil
  then show ?case by (simp add: map_filter_def drain_none)
next
  case (Cons ev evs)
  show ?case
  proof (cases "to_slice (event_value ev)")
    case None
    then show ?thesis using Cons by (simp add: map_filter_def)
  next
    case (Some bs)
    have f: "0 \<notin> set (butlast bs)" "butlast bs @ [0] = bs"
        "frame_lines (host_decode from_bytes) (butlast bs) = [Printed (mirror ev)]"
      using frame_printed [OF assms Some] by blast+
    have "bs @ r = butlast bs @ 0 # r" for r
      using arg_cong [OF f(2), of "\<lambda>x. x @ r"] by simp
    note eq = this
    have "drain_frames (host_decode from_bytes) (bs @ r) =
        (let (printed, rest) = drain_frames (host_decode from_bytes) r in (Printed (mirror ev) # printed, rest))" for r
      unfolding eq drain_step [OF f(1)] f(3) by simp
    then show ?thesis using Cons Some by (simp add: map_filter_def)
  qed
qed

text \<open>
  C18. The event stream.  A burst of events is emitted and the writer is given turns enough.  However
  the host cuts its reads, and even when its first read begins in the middle of a frame, it prints the
  events of the burst in order, each as its own mirror of the event: all that found room in the inbox
  and that the serializer accepted, and before them at most one line for the cut frame.
\<close>

theorem events_reach_the_host:
  fixes to_slice :: "nat \<times> wire_value list \<Rightarrow> u8 list option"
    and from_bytes :: "wire_type list list \<Rightarrow> u8 list \<Rightarrow> (nat \<times> wire_value list) option"
  assumes serializer: "frames_terminated to_slice" "decodes_back to_slice from_bytes"
    and link: "ep_faults e = []" "ep_sent e = []"
    and turns: "32 \<le> n"
    and cut: "cut_frame = [] \<or> (\<exists>p. cut_frame = p @ [0] \<and> 0 \<notin> set p)"
    and reads: "ReadFailed \<notin> set rs" "received rs = cut_frame @ concat (ep_sent (snd
      ((events_turn (to_slice \<circ> event_value) ^^ n)
        (fold usb_emit es \<lparr>usb_event_chan = [], usb_event_drops = 0\<rparr>, e))))"
  shows "\<exists>first. length first \<le> 1 \<and> (cut_frame = [] \<longrightarrow> first = []) \<and>
    read_loop (host_decode from_bytes) [] rs =
      (first @ map (Printed \<circ> mirror) (filter (\<lambda>ev. to_slice (event_value ev) \<noteq> None) (take 32 es)), Some [])"
proof -
  have u: "fold usb_emit es \<lparr>usb_event_chan = [], usb_event_drops = 0\<rparr> =
      \<lparr>usb_event_chan = take 32 es, usb_event_drops = of_nat (length es - 32)\<rparr>"
    by (simp add: usb_fold)
  have r: "received rs = cut_frame @ concat (List.map_filter (to_slice \<circ> event_value) (take 32 es))"
    using reads(2) link turns by (simp add: u events_turns)
  have d: "drain_frames (host_decode from_bytes) (concat (List.map_filter (to_slice \<circ> event_value) (take 32 es))) =
      (map (Printed \<circ> mirror) (filter (\<lambda>ev. to_slice (event_value ev) \<noteq> None) (take 32 es)), [])"
    using serializer by (rule frames_printed)
  show ?thesis
  proof (cases "cut_frame = []")
    case True
    then show ?thesis using r reads(1) d by (intro exI [of _ "[]"]) (simp add: read_loop_drains)
  next
    case False
    then obtain p where p: "cut_frame = p @ [0]" "0 \<notin> set p" using cut by blast
    then show ?thesis
      using r reads(1) d drain_step [OF p(2)]
      by (intro exI [of _ "frame_lines (host_decode from_bytes) p"])
        (simp add: read_loop_drains frame_lines_def)
  qed
qed

text \<open>A serializer that knows three events only, with the bytes the real one gives for them.\<close>

definition three_events :: "((nat \<times> wire_value list) \<times> u8 list) list" where
  "three_events =
     [((7, []), [2, 7, 0]), ((5, [VU8 0x42]), [3, 5, 0x42, 0]),
      ((4, [VU8 0, VU8 3, VU8 0x10]), [2, 4, 3, 3, 0x10, 0])]"

definition three_decode :: "wire_type list list \<Rightarrow> u8 list \<Rightarrow> (nat \<times> wire_value list) option" where
  "three_decode schema bs = map_of (map (\<lambda>(v, b). (b, v)) three_events) bs"

theorem events_reach_the_host_witness:
  "\<exists>first. length first \<le> 1 \<and>
    read_loop (host_decode three_decode) []
      [ReadTimedOut, ReadOk [9, 9, 0, 2], ReadOk [4, 3, 3, 0x10, 0, 3, 5], ReadOk [], ReadOk [0x42, 0]] =
      (first @ [Printed (HSeqGap 0 3 0x10), Printed (HUnknownCmd 0x42)], Some [])"
proof -
  have s: "frames_terminated (map_of three_events)" "decodes_back (map_of three_events) three_decode"
    by (auto simp: frames_terminated_def decodes_back_def three_events_def three_decode_def
        split: if_splits)
  have u: "fold usb_emit es \<lparr>usb_event_chan = [], usb_event_drops = 0\<rparr> =
      \<lparr>usb_event_chan = take 32 es, usb_event_drops = of_nat (length es - 32)\<rparr>" for es
    by (simp add: usb_fold)
  define rs where
    "rs = [ReadTimedOut, ReadOk [9, 9, 0, 2], ReadOk [4, 3, 3, 0x10, 0, 3, 5], ReadOk [], ReadOk [0x42, 0]]"
  have "ReadFailed \<notin> set rs" "received rs = [9, 9, 0] @ concat (ep_sent (snd
      ((events_turn (map_of three_events \<circ> event_value) ^^ 32)
        (fold usb_emit [SeqGap 0 3 0x10, UnknownCmd 0x42] \<lparr>usb_event_chan = [], usb_event_drops = 0\<rparr>,
         \<lparr>ep_sent = [], ep_faults = []\<rparr>))))"
    unfolding u
    by (simp_all add: rs_def received_def events_turns three_events_def event_value_def map_filter_def)
  then show ?thesis
    using events_reach_the_host [OF s, of "\<lparr>ep_sent = [], ep_faults = []\<rparr>" 32 "[9, 9, 0]" rs
        "[SeqGap 0 3 0x10, UnknownCmd 0x42]"]
    unfolding rs_def [symmetric] by (simp add: three_events_def event_value_def mirror_def)
qed

end
