(* ===== verification/Client.thy ===== *)
theory Client
  imports Tools EventStream "HOL-Library.Option_ord" "HOL-Library.Multiset"
begin

text \<open>
  The control client as a command (\<^verbatim>\<open>tools/control-client/src/main.rs\<close>): its arguments, the choice of
  the port, the request it writes and the object it prints with \<^verbatim>\<open>--json\<close>.  The theory
  \<^theory_text>\<open>Tools\<close> has its loop over the reply and the reading of the reply's data.
\<close>

subsection \<open>Arguments\<close>

record args =
  ar_port_override :: "u8 list option"
  ar_json :: bool
  ar_rest :: "u8 list list"

text \<open>The ways the client ends before it opens a port; asking for help is a success.\<close>

datatype args_end = NeedsPath | HelpShown | MissingVerb

fun parse_options :: "u8 list list \<Rightarrow> args \<Rightarrow> args_end + args" where
  "parse_options [] a = Inr a"
| "parse_options (w # ws) a =
     (if w = ascii ''--port'' then
        (case ws of
           [] \<Rightarrow> Inl NeedsPath
         | path # ws' \<Rightarrow> parse_options ws' (a\<lparr>ar_port_override := Some path\<rparr>))
      else if w = ascii ''--json'' then parse_options ws (a\<lparr>ar_json := True\<rparr>)
      else if w = ascii ''-h'' \<or> w = ascii ''--help'' then Inl HelpShown
      else Inr (a\<lparr>ar_rest := ar_rest a @ w # ws\<rparr>))"

definition parse_args :: "u8 list list \<Rightarrow> args_end + args" where
  "parse_args argv =
     (case parse_options argv \<lparr>ar_port_override = None, ar_json = False, ar_rest = []\<rparr> of
        Inl e \<Rightarrow> Inl e
      | Inr a \<Rightarrow> if ar_rest a = [] then Inl MissingVerb else Inr a)"

subsection \<open>The port\<close>

text \<open>A port: its name and, of a USB port, vendor, product and interface number.\<close>

definition control_candidates ::
  "(u8 list \<times> (u16 \<times> u16 \<times> u8 option) option) list \<Rightarrow> (u8 option \<times> u8 list) list" where
  "control_candidates ports =
     filter (\<lambda>(_, name). \<not> contains (ascii ''/tty.'') name)
       (List.map_filter
          (\<lambda>(name, usb). case usb of
             Some (vid, pid, interface) \<Rightarrow> if vid = 0xC0DE \<and> pid = 0xCAFE then Some (interface, name) else None
           | None \<Rightarrow> None) ports)"

definition auto_detect_control ::
  "(u8 list \<times> (u16 \<times> u16 \<times> u8 option) option) list \<Rightarrow> u8 list option" where
  "auto_detect_control ports =
     (let sorted_ports = sort (control_candidates ports)
      in if 1 < length sorted_ports then Some (snd (sorted_ports ! 1)) else None)"

subsection \<open>Request and report\<close>

fun join :: "u8 list list \<Rightarrow> u8 list" where
  "join [] = []"
| "join [w] = w"
| "join (w # w' # ws) = w @ 0x20 # join (w' # ws)"

definition client_request :: "args \<Rightarrow> u8 list" where
  "client_request a = join (ar_rest a) @ [0x0D]"

record json_reply =
  jr_ok :: bool
  jr_verb :: "u8 list"
  jr_data :: json
  jr_error :: "u8 list option"
  jr_lines :: "u8 list list"

text \<open>The object printed with \<^verbatim>\<open>--json\<close>, and the exit status.\<close>

definition client_report :: "args \<Rightarrow> client_reply \<Rightarrow> json_reply" where
  "client_report a r =
     (let verb = hd (ar_rest a);
          data = (if cr_ok r then (case parse_data verb (cr_lines r) of Some v \<Rightarrow> v | None \<Rightarrow> JObject []) else JObject [])
      in \<lparr>jr_ok = cr_ok r, jr_verb = verb, jr_data = data, jr_error = cr_error r, jr_lines = cr_lines r\<rparr>)"

definition exit_status :: "client_reply \<Rightarrow> nat" where
  "exit_status r = (if cr_ok r then 0 else 1)"

subsection \<open>Which port\<close>

text \<open>In whatever order the system lists the three serial interfaces, the second one is chosen.\<close>

lemma second_interface_chosen:
  assumes "mset (control_candidates ports) = {#(Some 0, events), (Some 2, control), (Some 4, console)#}"
  shows "auto_detect_control ports = Some control"
proof -
  have "sort (control_candidates ports) = [(Some 0, events), (Some 2, control), (Some 4, console)]"
    using assms by (intro properties_for_sort) (simp_all add: less_eq_prod_def less_prod_def)
  then show ?thesis by (simp add: auto_detect_control_def)
qed

subsection \<open>A command from the host's shell to the keyboard\<close>

lemma join_words: "join (w # ws) = w @ concat (map ((#) 0x20) ws)"
  by (induction ws arbitrary: w) simp_all

lemma fmt_not_option: "fmt_02x b \<noteq> ascii ''--port''" "fmt_02x b \<noteq> ascii ''--json''"
  by (simp_all add: fmt_02x_def)

text \<open>
  C20. Injecting bytes.  \<^verbatim>\<open>control-client --json inject <hex> ...\<close> with one to 32 bytes, while the firmware's
  injector has room in its queue: the request is one line, the firmware queues the bytes for the
  keyboard as they are, once, behind what waits there, and the client, when it reads the reply, exits
  with success and prints their number.
\<close>

theorem client_injects:
  assumes "ct_line s = []" "ep_faults (ct_ep s) = []" "length (ct_inject s) < 4"
    and "bytes \<noteq> []" "length bytes \<le> 32"
  shows "\<exists>a reply r.
    parse_args (ascii ''--json'' # ascii ''inject'' # map fmt_02x bytes) = Inr a \<and> ar_json a \<and>
    (let t = control_packet (client_request a) s in
       ct_inject t = ct_inject s @ [bytes] \<and> ct_line t = [] \<and> answers reply s t) \<and>
    client_loop [] (stream_lines reply) = Some r \<and> exit_status r = 0 \<and> jr_ok (client_report a r) \<and>
    jr_verb (client_report a r) = ascii ''inject'' \<and>
    jr_data (client_report a r) = JObject [(ascii ''queued'', JNat (length bytes))]"
proof -
  define a where
    "a = \<lparr>ar_port_override = None, ar_json = True, ar_rest = ascii ''inject'' # map fmt_02x bytes\<rparr>"
  have "parse_args (ascii ''--json'' # ascii ''inject'' # map fmt_02x bytes) = Inr a"
    by (simp add: parse_args_def a_def)
  moreover have "client_request a = inject_command bytes @ [0x0D]"
    by (simp add: client_request_def a_def join_words inject_command_def del: ascii_simps)
  moreover obtain reply r where "let t = control_packet (inject_command bytes @ [0x0D]) s in
      ct_inject t = ct_inject s @ [bytes] \<and> ct_line t = [] \<and> answers (reply @ [0x0A]) s t"
    "client_loop [] (stream_lines (reply @ [0x0A])) = Some r" "cr_ok r"
    "parse_data (ascii ''inject'') (cr_lines r) = Some (JObject [(ascii ''queued'', JNat (length bytes))])"
    using inject_command_queues [OF assms] by (auto simp: Let_def)
  ultimately show ?thesis
    by (intro exI [of _ a] exI [of _ "reply @ [0x0A]"] exI [of _ r])
      (simp add: a_def client_report_def exit_status_def Let_def del: ascii_simps)
qed

theorem client_injects_witness:
  "\<exists>a. parse_args (map ascii [''--json'', ''inject'', ''1c'', ''f0'', ''1c'']) = Inr a \<and>
    ct_inject (control_packet (client_request a) idle_control) = [[0x1C, 0xF0, 0x1C]]"
proof -
  have "ct_line idle_control = []" "ep_faults (ct_ep idle_control) = []" "ct_inject idle_control = []"
    by (simp_all add: idle_control_def)
  moreover have "map ascii [''1c'', ''f0'', ''1c''] = map fmt_02x [0x1C, 0xF0, 0x1C]"
    by (simp add: fmt_02x_def hex_digit_def)
  ultimately show ?thesis
    using client_injects [of idle_control "[0x1C, 0xF0, 0x1C]"] by (auto simp: Let_def simp del: ascii_simps)
qed

end
