(* ===== verification/WireModes.thy ===== *)
theory WireModes
  imports Wire
begin

text \<open>
  The faster modes of the parallel port on the wire: the programs of Byte, ECP and EPP mode run cycle by
  cycle against the host's side of their handshakes.  A handshake line the host drives (nAutoFd, HostClk,
  HostAck or nDataStb) is low for a while per cycle; the state machine answers on its side-set line, and
  the host takes the data at that line's falling edge.  The locale \<open>handshake\<close> states what one cycle of
  a program does and proves the run over any number of cycles; it is interpreted on each of the four
  programs.  With the mode switch and the serve loop of \<open>Phys\<close> this gives the data plane in Byte and
  ECP mode from wire to wire.
\<close>

subsection \<open>What the host sees and does\<close>

text \<open>
  A run whose receive FIFO is emptied after every cycle, with the received words and, for each cycle, the
  levels of the side-set line and of the data lines.
\<close>

fun port_run :: "sm_config \<Rightarrow> pio_input list \<Rightarrow> sm_state \<Rightarrow> sm_state \<times> u32 list \<times> (bool \<times> u32) list" where
  "port_run cf [] s = (s, [], [])"
| "port_run cf (i # is) s =
     (let s = sm_cycle cf i s;
          (t, ws, tr) = port_run cf is (s\<lparr>sm_rx := []\<rparr>)
      in (t, sm_rx s @ ws, (sm_side s, sm_out s) # tr))"

lemma port_run_append:
  "port_run cf (xs @ ys) s =
     (let (s1, ws1, tr1) = port_run cf xs s; (s2, ws2, tr2) = port_run cf ys s1
      in (s2, ws1 @ ws2, tr1 @ tr2))"
  by (induction xs arbitrary: s) (simp_all add: Let_def case_prod_beta)

lemma port_run_seq:
  "port_run cf xs s = (s1, ws1, tr1) \<Longrightarrow> port_run cf ys s1 = (s2, ws2, tr2) \<Longrightarrow>
     port_run cf (xs @ ys) s = (s2, ws1 @ ws2, tr1 @ tr2)"
  by (simp add: port_run_append)

lemma port_run_stall:
  assumes "\<forall>i \<in> set xs. sm_cycle cf i s = s" "sm_rx s = []"
  shows "port_run cf xs s = (s, [], replicate (length xs) (sm_side s, sm_out s))"
proof -
  have e: "s\<lparr>sm_rx := []\<rparr> = s" using assms(2) by (cases s) simp
  show ?thesis using assms(1) by (induction xs) (simp_all add: e assms(2))
qed

text \<open>Waiting for a line: the side-set applies from the first cycle on.\<close>

lemma port_run_wait:
  assumes "\<And>i. i \<in> set ws \<Longrightarrow> sm_cycle cf i s = s' \<and> sm_cycle cf i s' = s'"
    and "sm_cycle cf z s = t" "sm_cycle cf z s' = t" "sm_rx s' = []" "sm_rx t = []"
    and "sm_side s' = sm_side t" "sm_out s' = sm_out t"
  shows "port_run cf (ws @ [z]) s = (t, [], replicate (Suc (length ws)) (sm_side t, sm_out t))"
proof -
  have e: "s'\<lparr>sm_rx := []\<rparr> = s'" "t\<lparr>sm_rx := []\<rparr> = t" using assms(4,5) by (cases s', cases t, simp)+
  have w: "port_run cf (ws @ [z]) s' = (t, [], replicate (Suc (length ws)) (sm_side t, sm_out t))"
    using assms(1) by (induction ws) (simp_all add: assms(2-) e)
  show ?thesis
  proof (cases ws)
    case Nil
    then show ?thesis by (simp add: assms(2,5) e)
  next
    case (Cons i ws')
    then have "port_run cf (ws' @ [z]) s' = (t, [], replicate (Suc (length ws')) (sm_side t, sm_out t))"
      using w assms(1,4,6,7) by (auto simp: e prod_eq_iff Let_def case_prod_beta)
    then show ?thesis using Cons assms(1,4,6,7) by (simp add: e)
  qed
qed

text \<open>The data at each falling edge of the line, and for how many cycles the line stays low.\<close>

function host_latch :: "(bool \<times> 'a) list \<Rightarrow> ('a \<times> nat) list" where
  "host_latch [] = []"
| "host_latch ((True, d) # tr) = host_latch tr"
| "host_latch ((False, d) # tr) =
     (d, Suc (length (takeWhile (Not \<circ> fst) tr))) # host_latch (dropWhile (Not \<circ> fst) tr)"
  by pat_completeness auto
termination by (relation "measure length") (simp_all add: le_imp_less_Suc length_dropWhile_le)

lemma host_latch_high [simp]: "host_latch (replicate n (True, d) @ tr) = host_latch tr"
  by (induction n) simp_all

lemma host_latch_highs [simp]: "host_latch (replicate n (True, d)) = []"
  using host_latch_high [of n d "[]"] by simp

lemma host_latch_append: 
  "tr = [] \<or> fst (last tr) \<Longrightarrow> host_latch (tr @ tr') = host_latch tr @ host_latch tr'"
proof (induction tr rule: host_latch.induct)
  case (3 d tr)
  then have ne: "tr \<noteq> []" "fst (last tr)" by (auto split: if_splits)
  then have x: "\<exists>x \<in> set tr. fst x" using last_in_set by blast
  then have "dropWhile (Not \<circ> fst) tr \<noteq> []" by (simp add: dropWhile_eq_Nil_conv)
  then have l: "fst (last (dropWhile (Not \<circ> fst) tr))"
    using ne(2) by (metis last_appendR takeWhile_dropWhile_id)
  have "takeWhile (Not \<circ> fst) (tr @ tr') = takeWhile (Not \<circ> fst) tr"
    "dropWhile (Not \<circ> fst) (tr @ tr') = dropWhile (Not \<circ> fst) tr @ tr'"
    using x by auto
  then show ?case using 3 l by simp
qed (auto split: if_splits)

text \<open>
  The host's cycles on a line: quiet for any time, then low for at least \<open>low\<close> cycles in which the pins
  hold what the cycle \<open>a\<close> requires, then high for at least \<open>high\<close>.
\<close>

inductive host_cycles :: "(pio_input \<Rightarrow> bool) \<Rightarrow> ('a \<Rightarrow> pio_input \<Rightarrow> bool) \<Rightarrow> nat \<Rightarrow> nat \<Rightarrow> 'a list \<Rightarrow> pio_input list \<Rightarrow> bool"
  for line holds low high where
  quiet: "\<forall>i \<in> set xs. line i \<Longrightarrow> host_cycles line holds low high [] xs"
| cycle: "\<forall>i \<in> set xs. line i \<Longrightarrow> low \<le> length ys \<Longrightarrow> \<forall>i \<in> set ys. \<not> line i \<and> holds a i \<Longrightarrow>
    length zs = high \<Longrightarrow> \<forall>i \<in> set zs. line i \<Longrightarrow> host_cycles line holds low high as is \<Longrightarrow>
    host_cycles line holds low high (a # as) (xs @ ys @ zs @ is)"

text \<open>The first \<open>k\<close> cycles of a program do not look at the line: they may fall into either part.\<close>

lemma split_setup:
  assumes "k \<le> length ys" "\<forall>i \<in> set xs. p i" "\<forall>i \<in> set ys. q i"
  obtains us vs ws where "xs @ ys = us @ vs @ ws" "length us = k" "\<forall>i \<in> set vs. p i"
    "\<forall>i \<in> set ws. q i" "length ys \<le> k + length ws"
proof (rule that [of "take k (xs @ ys)" "drop k xs" "drop (k - length xs) ys"])
  show "xs @ ys = take k (xs @ ys) @ drop k xs @ drop (k - length xs) ys"
    by (metis append_take_drop_id drop_append)
qed (use assms in \<open>auto dest: in_set_dropD simp: min_def\<close>)

definition port_ready :: "sm_state \<Rightarrow> bool" where
  "port_ready s \<longleftrightarrow> capture_ready s \<and> sm_side s"

text \<open>
  One cycle of a program: \<open>lead\<close> cycles without regard to the line, then a wait for its falling edge, and
  after its release the program is ready again; the words \<open>sent a\<close> are consumed, the words \<open>received a\<close>
  captured, and exactly one pulse is made.
\<close>

locale handshake =
  fixes cf :: sm_config and line :: "pio_input \<Rightarrow> bool" and holds :: "'a \<Rightarrow> pio_input \<Rightarrow> bool"
    and lead low high :: nat and sent received :: "'a \<Rightarrow> u32 list" and pulse :: "'a \<Rightarrow> u32 \<times> nat \<Rightarrow> bool"
  assumes lead_low: "lead \<le> low"
    and idle: "port_ready s \<Longrightarrow> sm_tx s = [] \<Longrightarrow> line i \<Longrightarrow> sm_cycle cf i s = s"
    and one_cycle: "port_ready s \<Longrightarrow> sm_tx s = sent a @ rest \<Longrightarrow> length us = lead \<Longrightarrow> \<forall>i \<in> set vs. line i \<Longrightarrow>
      low \<le> lead + length ws \<Longrightarrow> \<forall>i \<in> set ws. \<not> line i \<and> holds a i \<Longrightarrow> length zs = high \<Longrightarrow>
      \<forall>i \<in> set zs. line i \<Longrightarrow>
      \<exists>t tr p. port_run cf (us @ vs @ ws @ zs) s = (t, received a, tr) \<and> port_ready t \<and> sm_tx t = rest \<and>
        tr \<noteq> [] \<and> fst (last tr) \<and> host_latch tr = [p] \<and> pulse a p"
begin

lemma run:
  assumes "host_cycles line holds low high as is" "port_ready s" "sm_tx s = concat (map sent as)"
  shows "\<exists>t tr. port_run cf is s = (t, concat (map received as), tr) \<and> port_ready t \<and>
    list_all2 pulse as (host_latch tr)"
  using assms
proof (induction arbitrary: s rule: host_cycles.induct)
  case (quiet xs)
  then have "port_run cf xs s = (s, [], replicate (length xs) (True, sm_out s))"
    using port_run_stall [of xs cf s] idle by (simp add: port_ready_def capture_ready_def)
  with quiet show ?case by simp
next
  case (cycle xs ys a zs as "is")
  obtain us vs ws where s: "xs @ ys = us @ vs @ ws" "length us = lead" "\<forall>i \<in> set vs. line i"
    "\<forall>i \<in> set ws. \<not> line i \<and> holds a i" "length ys \<le> lead + length ws"
    by (rule split_setup [of lead ys xs line "\<lambda>i. \<not> line i \<and> holds a i"])
      (use cycle.hyps lead_low in auto)
  obtain t tr p where 1: "port_run cf (us @ vs @ ws @ zs) s = (t, received a, tr)" "port_ready t"
    "sm_tx t = concat (map sent as)" "tr \<noteq> []" "fst (last tr)" "host_latch tr = [p]" "pulse a p"
    using one_cycle [OF cycle.prems(1) _ s(2,3) _ s(4) cycle.hyps(4,5), of "concat (map sent as)"]
      cycle.prems(2) s(5) cycle.hyps(2)
    by force
  obtain t' tr' where 2: "port_run cf is t = (t', concat (map received as), tr')" "port_ready t'"
    "list_all2 pulse as (host_latch tr')"
    using cycle.IH [OF 1(2,3)] by blast
  have e: "xs @ ys @ zs @ is = (us @ vs @ ws @ zs) @ is" using s(1) by simp
  have "port_run cf (xs @ ys @ zs @ is) s = (t', received a @ concat (map received as), tr @ tr')"
    unfolding e port_run_append [of cf "us @ vs @ ws @ zs"] 1(1) Let_def prod.case 2(1) ..
  moreover have "host_latch (tr @ tr') = p # host_latch tr'"
    using host_latch_append [of tr tr'] 1(4-6) by simp
  ultimately show ?case using 1 2 by simp
qed

end

text \<open>The byte-mode driver: the request is nAutoFd, the acknowledgement nAck.\<close>

definition strobe_line :: "pio_input \<Rightarrow> bool" where
  "strobe_line i = bit (fst i) 0"

definition gpio20_line :: "pio_input \<Rightarrow> bool" where
  "gpio20_line i = snd i 20"

lemmas port_step = sm_cycle_def sm_exec_def sm_advance_def sm_push_def isr_shift_def program_defs ins_defs
  port_ready_def capture_ready_def strobe_line_def gpio20_line_def const_defs

lemma replicate_list:
  "replicate 2 x = [x, x]" "replicate 3 x = [x, x, x]" "replicate 4 x = [x, x, x, x]"
  "replicate 5 x = [x, x, x, x, x]"
  by (simp_all add: numeral_eq_Suc)

lemma cycle_list:
  assumes "n \<le> length ws"
  obtains as bs where "ws = as @ bs" "length as = n"
  using assms by (intro that [of "take n ws" "drop n ws"]) simp_all

interpretation byte_rev: handshake byte_rev_config strobe_line "\<lambda>_ _. True" 1 8 1 "\<lambda>w. [w]" "\<lambda>_. []"
  "\<lambda>w p. p = (w AND mask 8, 5)"
proof unfold_locales
  fix s :: sm_state and a :: u32 and rest and us vs ws zs :: "pio_input list"
  assume s: "port_ready s" "sm_tx s = [a] @ rest" and us: "length us = 1" and vs: "\<forall>i \<in> set vs. strobe_line i"
    and ws: "8 \<le> 1 + length ws" "\<forall>i \<in> set ws. \<not> strobe_line i \<and> True"
    and zs: "length zs = 1" "\<forall>i \<in> set zs. strobe_line i"
  obtain u where u: "us = [u]" using us by (auto simp: length_Suc_conv)
  obtain z where z: "zs = [z]" using zs(1) by (auto simp: length_Suc_conv)
  obtain ds ws' where ds: "ws = ds @ ws'" "length ds = 7" by (rule cycle_list [of 7 ws]) (use ws in auto)
  obtain w0 w1 w2 w3 w4 w5 w6 where "ds = [w0, w1, w2, w3, w4, w5, w6]"
    using ds(2) by (auto simp: length_Suc_conv numeral_eq_Suc)
  then have w: "ws = [w0, w1, w2, w3, w4, w5, w6] @ ws'" using ds(1) by simp
  define s1 where "s1 = s\<lparr>sm_pc := 1, sm_osr := a, sm_tx := rest\<rparr>"
  define s2 where "s2 = s1\<lparr>sm_pc := 4, sm_osr := drop_bit 8 a, sm_out := a AND mask 8, sm_side := True\<rparr>"
  have 1: "port_run byte_rev_config us s = (s1, [], [(True, sm_out s)])"
    using s by (simp add: u s1_def port_step)
  have 2: "port_run byte_rev_config vs s1 = (s1, [], replicate (length vs) (True, sm_out s))"
    using s vs by (subst port_run_stall) (auto simp: s1_def port_step)
  have 3: "port_run byte_rev_config [w0, w1, w2, w3, w4, w5, w6] s1 =
      (s2\<lparr>sm_side := False\<rparr>, [], (True, sm_out s) # (True, a AND mask 8) # replicate 5 (False, a AND mask 8))"
    using s ws(2) by (simp add: s1_def s2_def w port_step numeral_eq_Suc)
  show "\<exists>t tr p. port_run byte_rev_config (us @ vs @ ws @ zs) s = (t, [], tr) \<and> port_ready t \<and> sm_tx t = rest \<and>
      tr \<noteq> [] \<and> fst (last tr) \<and> host_latch tr = [p] \<and> p = (a AND mask 8, 5)"
  proof (intro exI conjI)
    have "port_run byte_rev_config (ws' @ [z]) (s2\<lparr>sm_side := False\<rparr>) =
        (s2\<lparr>sm_pc := 0\<rparr>, [], replicate (Suc (length ws')) (sm_side (s2\<lparr>sm_pc := 0\<rparr>), sm_out (s2\<lparr>sm_pc := 0\<rparr>)))"
      using s ws(2) zs(2) by (intro port_run_wait [where s' = s2]) (auto simp: s2_def s1_def w z port_step)
    from port_run_seq [OF 1 port_run_seq [OF 2 port_run_seq [OF 3 this]]]
    show "port_run byte_rev_config (us @ vs @ ws @ zs) s = (s2\<lparr>sm_pc := 0\<rparr>, [],
        replicate (2 + length vs) (True, sm_out s) @ (True, a AND mask 8) # replicate 5 (False, a AND mask 8) @
        replicate (Suc (length ws')) (True, a AND mask 8))"
      by (simp add: w z s2_def replicate_app_Cons_same)
  qed (use s in \<open>simp_all add: s2_def s1_def port_ready_def capture_ready_def numeral_eq_Suc\<close>)
qed (auto simp: port_step)

text \<open>The ECP drivers: in reverse the request is HostAck, in forward the strobe is HostClk.\<close>

interpretation ecp_rev: handshake ecp_rev_config gpio20_line "\<lambda>_ _. True" 2 6 1 "\<lambda>w. [w]" "\<lambda>_. []"
  "\<lambda>w p. p = (w AND mask 8, 3)"
proof unfold_locales
  fix s :: sm_state and a :: u32 and rest and us vs ws zs :: "pio_input list"
  assume s: "port_ready s" "sm_tx s = [a] @ rest" and us: "length us = 2" and vs: "\<forall>i \<in> set vs. gpio20_line i"
    and ws: "6 \<le> 2 + length ws" "\<forall>i \<in> set ws. \<not> gpio20_line i \<and> True"
    and zs: "length zs = 1" "\<forall>i \<in> set zs. gpio20_line i"
  obtain u0 u1 where u: "us = [u0, u1]" using us by (auto simp: length_Suc_conv numeral_eq_Suc)
  obtain z where z: "zs = [z]" using zs(1) by (auto simp: length_Suc_conv)
  obtain ds ws' where ds: "ws = ds @ ws'" "length ds = 4" by (rule cycle_list [of 4 ws]) (use ws in auto)
  obtain w0 w1 w2 w3 where "ds = [w0, w1, w2, w3]"
    using ds(2) by (auto simp: length_Suc_conv numeral_eq_Suc)
  then have w: "ws = [w0, w1, w2, w3] @ ws'" using ds(1) by simp
  define s1 where "s1 = s\<lparr>sm_pc := 2, sm_osr := drop_bit 8 a, sm_out := a AND mask 8, sm_tx := rest\<rparr>"
  define s2 where "s2 = s1\<lparr>sm_pc := 4, sm_side := True\<rparr>"
  have 1: "port_run ecp_rev_config us s = (s1, [], [(True, sm_out s), (True, a AND mask 8)])"
    using s by (simp add: u s1_def port_step)
  have 2: "port_run ecp_rev_config vs s1 = (s1, [], replicate (length vs) (True, a AND mask 8))"
    using s vs by (subst port_run_stall) (auto simp: s1_def port_step numeral_2_eq_2)
  have 3: "port_run ecp_rev_config [w0, w1, w2, w3] s1 =
      (s2\<lparr>sm_side := False\<rparr>, [], (True, a AND mask 8) # replicate 3 (False, a AND mask 8))"
    using s ws(2) by (simp add: s1_def s2_def w port_step numeral_eq_Suc)
  show "\<exists>t tr p. port_run ecp_rev_config (us @ vs @ ws @ zs) s = (t, [], tr) \<and> port_ready t \<and> sm_tx t = rest \<and>
      tr \<noteq> [] \<and> fst (last tr) \<and> host_latch tr = [p] \<and> p = (a AND mask 8, 3)"
  proof (intro exI conjI)
    have "port_run ecp_rev_config (ws' @ [z]) (s2\<lparr>sm_side := False\<rparr>) =
        (s2\<lparr>sm_pc := 0\<rparr>, [], replicate (Suc (length ws')) (sm_side (s2\<lparr>sm_pc := 0\<rparr>), sm_out (s2\<lparr>sm_pc := 0\<rparr>)))"
      using s ws(2) zs(2) by (intro port_run_wait [where s' = s2]) (auto simp: s2_def s1_def w z port_step)
    from port_run_seq [OF 1 port_run_seq [OF 2 port_run_seq [OF 3 this]]]
    show "port_run ecp_rev_config (us @ vs @ ws @ zs) s = (s2\<lparr>sm_pc := 0\<rparr>, [],
        (True, sm_out s) # replicate (2 + length vs) (True, a AND mask 8) @ replicate 3 (False, a AND mask 8) @
        replicate (Suc (length ws')) (True, a AND mask 8))"
      by (simp add: w z s2_def s1_def replicate_app_Cons_same)
  qed (use s in \<open>simp_all add: s2_def s1_def port_ready_def capture_ready_def numeral_eq_Suc\<close>)
qed (auto simp: port_step)

interpretation ecp_fwd: handshake ecp_fwd_config strobe_line "\<lambda>b i. fst i AND mask 9 = captured b" 0 6 1
  "\<lambda>_. []" "\<lambda>b. [captured b]" "\<lambda>_ p. snd p = 4"
proof unfold_locales
  fix s :: sm_state and b :: u8 and rest and us vs ws zs :: "pio_input list"
  assume s: "port_ready s" "sm_tx s = [] @ rest" and us: "length us = 0" and vs: "\<forall>i \<in> set vs. strobe_line i"
    and ws: "6 \<le> 0 + length ws" "\<forall>i \<in> set ws. \<not> strobe_line i \<and> fst i AND mask 9 = captured b"
    and zs: "length zs = 1" "\<forall>i \<in> set zs. strobe_line i"
  obtain z where z: "zs = [z]" using zs(1) by (auto simp: length_Suc_conv)
  obtain ds ws' where ds: "ws = ds @ ws'" "length ds = 6" by (rule cycle_list [of 6 ws]) (use ws in auto)
  obtain w0 w1 w2 w3 w4 w5 where "ds = [w0, w1, w2, w3, w4, w5]"
    using ds(2) by (auto simp: length_Suc_conv numeral_eq_Suc)
  then have w: "ws = [w0, w1, w2, w3, w4, w5] @ ws'" using ds(1) by simp
  define s1 where "s1 = s\<lparr>sm_pc := 4\<rparr>"
  have 2: "port_run ecp_fwd_config vs s = (s, [], replicate (length vs) (True, sm_out s))"
    using s vs by (subst port_run_stall) (auto simp: port_step)
  have 3: "port_run ecp_fwd_config [w0, w1, w2, w3, w4, w5] s =
      (s1\<lparr>sm_side := False\<rparr>, [captured b], replicate 2 (True, sm_out s) @ replicate 4 (False, sm_out s))"
    using s ws(2) by (simp add: s1_def w port_step numeral_eq_Suc)
  show "\<exists>t tr p. port_run ecp_fwd_config (us @ vs @ ws @ zs) s = (t, [captured b], tr) \<and> port_ready t \<and>
      sm_tx t = rest \<and> tr \<noteq> [] \<and> fst (last tr) \<and> host_latch tr = [p] \<and> snd p = 4"
  proof (intro exI conjI)
    have "port_run ecp_fwd_config (ws' @ [z]) (s1\<lparr>sm_side := False\<rparr>) =
        (s, [], replicate (Suc (length ws')) (sm_side s, sm_out s))"
      using s ws(2) zs(2) by (intro port_run_wait [where s' = s1]) (auto simp: s1_def w z port_step)
    from port_run_seq [OF 2 port_run_seq [OF 3 this]]
    show "port_run ecp_fwd_config (us @ vs @ ws @ zs) s = (s, [captured b],
        replicate (2 + length vs) (True, sm_out s) @ replicate 4 (False, sm_out s) @
        replicate (Suc (length ws')) (True, sm_out s))"
      using s us by (simp add: w z port_ready_def replicate_app_Cons_same numeral_eq_Suc)
    show "host_latch (replicate (2 + length vs) (True, sm_out s) @ replicate 4 (False, sm_out s) @
        replicate (Suc (length ws')) (True, sm_out s)) = [(sm_out s, 4)]"
      by (simp add: numeral_eq_Suc)
  qed (use s in \<open>simp_all add: port_ready_def capture_ready_def\<close>)
qed (auto simp: port_step)

text \<open>EPP: a command word with its lowest bit set makes a read cycle, one without makes a write cycle.\<close>

definition epp_holds :: "u32 \<times> u8 \<Rightarrow> pio_input \<Rightarrow> bool" where
  "epp_holds c i \<longleftrightarrow> bit (fst c) 0 \<or> fst i AND mask 8 = ucast (snd c)"

definition epp_sampled :: "u32 \<times> u8 \<Rightarrow> u32 list" where
  "epp_sampled c = (if bit (fst c) 0 then [] else [ucast (snd c)])"

definition epp_pulse :: "u32 \<times> u8 \<Rightarrow> u32 \<times> nat \<Rightarrow> bool" where
  "epp_pulse c p \<longleftrightarrow> (bit (fst c) 0 \<longrightarrow> p = (drop_bit 24 (fst c) AND mask 8, 5))"

lemma and_one: "(w :: u32) AND 1 = (if bit w 0 then 1 else 0)"
  by (rule bit_word_eqI) (auto simp: bit_and_iff bit_1_iff intro: gr0I)

lemma epp_lead:
  assumes "port_ready s" "sm_tx s = a # rest" "length us = 4"
  shows "port_run epp_config us s =
    (s\<lparr>sm_pc := (if bit a 0 then 4 else 9), sm_x := (if bit a 0 then 1 else 0), sm_osr := drop_bit 24 a, sm_tx := rest\<rparr>,
     [], replicate 4 (True, sm_out s))"
proof -
  obtain u0 u1 u2 u3 where u: "us = [u0, u1, u2, u3]" using assms(3) by (auto simp: length_Suc_conv numeral_eq_Suc)
  show ?thesis
    using assms(1,2) by (simp add: u port_step and_one replicate_list)
qed

lemma epp_reverse_cycle:
  assumes s: "port_ready s" "sm_tx s = a # rest" "length us = 4" and a: "bit a 0"
    and vs: "\<forall>i \<in> set vs. gpio20_line i" and ws: "11 \<le> 4 + length ws" "\<forall>i \<in> set ws. \<not> gpio20_line i"
    and zs: "length zs = 2" "\<forall>i \<in> set zs. gpio20_line i"
  shows "\<exists>t tr. port_run epp_config (us @ vs @ ws @ zs) s = (t, [], tr) \<and> port_ready t \<and> sm_tx t = rest \<and>
    tr \<noteq> [] \<and> fst (last tr) \<and> host_latch tr = [(drop_bit 24 a AND mask 8, 5)]"
proof -
  obtain x vs' ws1 where x: "vs @ ws = x @ vs' @ ws1" "length x = 1" "\<forall>i \<in> set vs'. gpio20_line i"
    "\<forall>i \<in> set ws1. \<not> gpio20_line i" "length ws \<le> 1 + length ws1"
    by (rule split_setup [of 1 ws vs gpio20_line "\<lambda>i. \<not> gpio20_line i"]) (use ws vs in auto)
  obtain o1 where o1: "x = [o1]" using x(2) by (auto simp: length_Suc_conv)
  obtain z z' where z: "zs = [z, z']" using zs(1) by (auto simp: length_Suc_conv numeral_eq_Suc)
  obtain ds ws' where ds: "ws1 = ds @ ws'" "length ds = 6" by (rule cycle_list [of 6 ws1]) (use ws x in auto)
  obtain w0 w1 w2 w3 w4 w5 where "ds = [w0, w1, w2, w3, w4, w5]"
    using ds(2) by (auto simp: length_Suc_conv numeral_eq_Suc)
  then have w: "ws1 = [w0, w1, w2, w3, w4, w5] @ ws'" using ds(1) by simp
  let ?d = "drop_bit 24 a AND mask 8"
  define s0 where "s0 = s\<lparr>sm_pc := 4, sm_x := 1, sm_osr := drop_bit 24 a, sm_tx := rest\<rparr>"
  define s1 where "s1 = s0\<lparr>sm_pc := 5, sm_osr := drop_bit 8 (drop_bit 24 a), sm_out := ?d\<rparr>"
  define s2 where "s2 = s1\<lparr>sm_pc := 7, sm_side := True\<rparr>"
  have 0: "port_run epp_config us s = (s0, [], replicate 4 (True, sm_out s))"
    using epp_lead [OF s] a by (simp add: s0_def)
  have 1: "port_run epp_config x s0 = (s1, [], [(True, ?d)])"
    using s by (simp add: o1 s0_def s1_def port_step)
  have 2: "port_run epp_config vs' s1 = (s1, [], replicate (length vs') (True, ?d))"
    using s x(3) by (subst port_run_stall) (auto simp: s0_def s1_def port_step replicate_list)
  have 3: "port_run epp_config [w0, w1, w2, w3, w4, w5] s1 =
      (s2\<lparr>sm_side := False\<rparr>, [], (True, ?d) # replicate 5 (False, ?d))"
    using s x(4) by (simp add: s0_def s1_def s2_def w port_step replicate_list)
  have 4: "port_run epp_config (ws' @ [z]) (s2\<lparr>sm_side := False\<rparr>) =
      (s2\<lparr>sm_pc := 8\<rparr>, [], replicate (Suc (length ws')) (sm_side (s2\<lparr>sm_pc := 8\<rparr>), sm_out (s2\<lparr>sm_pc := 8\<rparr>)))"
    using s x(4) zs(2) by (intro port_run_wait [where s' = s2]) (auto simp: s2_def s1_def s0_def w z port_step replicate_list)
  have 5: "port_run epp_config [z'] (s2\<lparr>sm_pc := 8\<rparr>) = (s2\<lparr>sm_pc := 0\<rparr>, [], [(True, ?d)])"
    using s by (simp add: s2_def s1_def s0_def port_step replicate_list)
  have e: "us @ vs @ ws @ zs = us @ x @ vs' @ [w0, w1, w2, w3, w4, w5] @ (ws' @ [z]) @ [z']"
    using arg_cong [OF x(1), of "\<lambda>q. q @ zs"] by (simp add: w z)
  from port_run_seq [OF 0 port_run_seq [OF 1 port_run_seq [OF 2 port_run_seq [OF 3 port_run_seq [OF 4 5]]]]]
  have r: "port_run epp_config (us @ vs @ ws @ zs) s = (s2\<lparr>sm_pc := 0\<rparr>, [],
      replicate 4 (True, sm_out s) @ replicate (2 + length vs') (True, ?d) @ replicate 5 (False, ?d) @
      replicate (2 + length ws') (True, ?d))"
    by (simp add: e s2_def s1_def replicate_app_Cons_same)
  show ?thesis unfolding r
    using s by (simp add: s2_def s1_def s0_def port_ready_def capture_ready_def numeral_eq_Suc)
qed

lemma epp_forward_cycle:
  assumes s: "port_ready s" "sm_tx s = a # rest" "length us = 4" and a: "\<not> bit a 0"
    and vs: "\<forall>i \<in> set vs. gpio20_line i" and ws: "11 \<le> 4 + length ws"
      "\<forall>i \<in> set ws. \<not> gpio20_line i \<and> fst i AND mask 8 = ucast b"
    and zs: "length zs = 2" "\<forall>i \<in> set zs. gpio20_line i"
  shows "\<exists>t tr p. port_run epp_config (us @ vs @ ws @ zs) s = (t, [ucast (b :: u8)], tr) \<and> port_ready t \<and>
    sm_tx t = rest \<and> tr \<noteq> [] \<and> fst (last tr) \<and> host_latch tr = [p]"
proof -
  obtain z z' where z: "zs = [z, z']" using zs(1) by (auto simp: length_Suc_conv numeral_eq_Suc)
  obtain ds ws' where ds: "ws = ds @ ws'" "length ds = 3" by (rule cycle_list [of 3 ws]) (use ws in auto)
  obtain w0 w1 w2 where "ds = [w0, w1, w2]" using ds(2) by (auto simp: length_Suc_conv numeral_eq_Suc)
  then have w: "ws = [w0, w1, w2] @ ws'" using ds(1) by simp
  define s0 where "s0 = s\<lparr>sm_pc := 9, sm_x := 0, sm_osr := drop_bit 24 a, sm_tx := rest\<rparr>"
  define s1 where "s1 = s0\<lparr>sm_pc := 12, sm_side := False\<rparr>"
  have 0: "port_run epp_config us s = (s0, [], replicate 4 (True, sm_out s))"
    using epp_lead [OF s] a by (simp add: s0_def)
  have 1: "port_run epp_config vs s0 = (s0, [], replicate (length vs) (True, sm_out s))"
    using s vs by (subst port_run_stall) (auto simp: s0_def port_step replicate_list)
  have 2: "port_run epp_config [w0, w1, w2] s0 =
      (s1, [ucast b], (True, sm_out s) # replicate 2 (False, sm_out s))"
    using s ws(2) by (simp add: s0_def s1_def w port_step replicate_list)
  have 3: "port_run epp_config (ws' @ [z]) s1 =
      (s1\<lparr>sm_pc := 13\<rparr>, [], replicate (Suc (length ws')) (sm_side (s1\<lparr>sm_pc := 13\<rparr>), sm_out (s1\<lparr>sm_pc := 13\<rparr>)))"
    using s ws(2) zs(2) by (intro port_run_wait [where s' = s1]) (auto simp: s1_def s0_def w z port_step replicate_list)
  have 4: "port_run epp_config [z'] (s1\<lparr>sm_pc := 13\<rparr>) = (s1\<lparr>sm_pc := 0, sm_side := True\<rparr>, [], [(True, sm_out s)])"
    using s by (simp add: s1_def s0_def port_step replicate_list)
  from port_run_seq [OF 0 port_run_seq [OF 1 port_run_seq [OF 2 port_run_seq [OF 3 4]]]]
  have r: "port_run epp_config (us @ vs @ ws @ zs) s = (s1\<lparr>sm_pc := 0, sm_side := True\<rparr>, [ucast b],
      replicate (5 + length vs) (True, sm_out s) @ replicate (Suc (2 + length ws')) (False, sm_out s) @
      [(True, sm_out s)])"
    by (simp add: w z s1_def s0_def replicate_app_Cons_same numeral_eq_Suc)
  show ?thesis unfolding r
    using s by (simp add: s1_def s0_def port_ready_def capture_ready_def takeWhile_append dropWhile_append)
qed

interpretation epp: handshake epp_config gpio20_line epp_holds 4 11 2 "\<lambda>c. [fst c]" epp_sampled epp_pulse
proof unfold_locales
  fix s :: sm_state and c :: "u32 \<times> u8" and rest and us vs ws zs :: "pio_input list"
  assume a: "port_ready s" "sm_tx s = [fst c] @ rest" "length us = 4" "\<forall>i \<in> set vs. gpio20_line i"
    "11 \<le> 4 + length ws" "\<forall>i \<in> set ws. \<not> gpio20_line i \<and> epp_holds c i" "length zs = 2"
    "\<forall>i \<in> set zs. gpio20_line i"
  show "\<exists>t tr p. port_run epp_config (us @ vs @ ws @ zs) s = (t, epp_sampled c, tr) \<and> port_ready t \<and>
      sm_tx t = rest \<and> tr \<noteq> [] \<and> fst (last tr) \<and> host_latch tr = [p] \<and> epp_pulse c p"
  proof (cases "bit (fst c) 0")
    case True
    then show ?thesis
      using epp_reverse_cycle [of s "fst c" rest us vs ws zs] a by (auto simp: epp_sampled_def epp_pulse_def)
  next
    case False
    then show ?thesis
      using epp_forward_cycle [of s "fst c" rest us vs ws "snd c" zs] a
      by (auto simp: epp_sampled_def epp_pulse_def epp_holds_def)
  qed
qed (auto simp: port_step)

subsection \<open>The modes from boot\<close>

text \<open>What taking down the boot configuration leaves to the next phy.\<close>

lemma switch_from_boot:
  assumes "base AND 1023 = 0"
  obtains mx0 old hw where "mux_new (hardware_new base bursts rx) = Some mx0" "mx_active mx0 = Some old"
    "phy_dismantle old (mx_hw mx0) = Some hw" "hw_idle (set_transceiver_mode m hw)"
    "set_for m (set_transceiver_mode m hw)" "hw_bursts (set_transceiver_mode m hw) = bursts"
    "hw_rx (set_transceiver_mode m hw) = rx"
proof -
  let ?hw0 = "hardware_new base bursts rx"
  have i: "hw_idle ?hw0" "set_for SppNibble ?hw0" using hardware_new_idle [OF assms] by blast+
  obtain p hw0 where p: "spp_build ?hw0 = Some (p, hw0)" "phy_ok (ActSppNibble p)" "hw_running SppNibble hw0"
    using spp_build_running [OF i] by blast
  have k: "ci_bursts (dp_compat_in p) = bursts \<and> hw_rx hw0 = rx"
    using p(1) by (auto simp: spp_build_def build_defs hw_step_defs hardware_new_def Let_def
        split: Option.bind_splits if_splits)
  obtain hw where hw: "phy_dismantle (ActSppNibble p) hw0 = Some hw" "hw_idle hw"
    using dismantle_idle [OF p(2)] p(3) by (auto simp: phy_mode_def)
  have b: "hw_bursts hw = bursts" "hw_rx hw = rx"
    using hw(1) k by (auto simp: phy_dismantle_def dismantle_defs hw_step_defs Let_def)
  show thesis
  proof (rule that)
    show "mux_new ?hw0 = Some \<lparr>mx_hw = hw0, mx_active = Some (ActSppNibble p)\<rparr>"
      using p(1) by (simp add: mux_new_def)
  qed (use hw b in \<open>auto simp: set_transceiver_mode_def hw_step_defs hw_idle_def hw_aligned_def set_for_def split: lpt_mode.splits\<close>)
qed

lemma byte_mode_live:
  assumes "base AND 1023 = 0" "bursts_fit 0 bursts"
  shows "\<exists>mx0 mx. mux_new (hardware_new base bursts rx) = Some mx0 \<and> switch_to Byte mx0 = Some (Inr (), mx) \<and>
    mux_live mx \<and> mux_current_mode mx = Some Byte \<and> mux_incoming mx = map word_byte (concat bursts) \<and>
    mux_outgoing mx = []"
proof -
  obtain mx0 old hw where 0: "mux_new (hardware_new base bursts rx) = Some mx0" "mx_active mx0 = Some old"
    "phy_dismantle old (mx_hw mx0) = Some hw" "hw_idle (set_transceiver_mode Byte hw)"
    "set_for Byte (set_transceiver_mode Byte hw)" "hw_bursts (set_transceiver_mode Byte hw) = bursts"
    by (rule switch_from_boot [OF assms(1), of bursts rx Byte])
  define hw1 where "hw1 = set_transceiver_mode Byte hw"
  obtain r where r: "ring_arm LPT_RING_WORDS (hw_ring_words hw1) (hw_ring_base hw1) = Some r"
    "ring_ok LPT_RING_WORDS r" "ring_queue LPT_RING_WORDS r = []"
    using arm_idle 0(4) by (metis hw_idle_def hw1_def)
  have "ring_pending LPT_RING_WORDS r = 0" using r(3) by (simp flip: length_ring_queue)
  moreover have "\<exists>hw' ci tx. byte_build hw1 = Some (\<lparr>dp_compat_in = ci, dp_tx = tx\<rparr>, hw') \<and>
      ci_ring ci = r \<and> ci_bursts ci = bursts \<and> tx_words tx = [] \<and>
      phy_ok (ActByte \<lparr>dp_compat_in = ci, dp_tx = tx\<rparr>) \<and> hw_running Byte hw'"
    using r 0(4-6) unfolding hw1_def [symmetric]
    by (simp add: byte_build_def build_defs running_defs hw_idle_def set_for_def hw_step_defs Let_def)
  ultimately show ?thesis
    using 0(1-3) r assms(2)
    by (auto simp: switch_to_def hw1_def [symmetric] mux_live_def mux_ok_def phy_live_def compat_in_live_def
        phy_mode_def mux_current_mode_def mux_incoming_def phy_incoming_def compat_in_bytes_def
        mux_outgoing_def phy_outgoing_def)
qed

lemma ecp_mode_live:
  assumes "base AND 1023 = 0"
  shows "\<exists>mx0 mx. mux_new (hardware_new base bursts rx) = Some mx0 \<and> switch_to Ecp mx0 = Some (Inr (), mx) \<and>
    mux_live mx \<and> mux_current_mode mx = Some Ecp \<and> mux_incoming mx = map word_byte rx \<and> mux_outgoing mx = []"
proof -
  obtain mx0 old hw where 0: "mux_new (hardware_new base bursts rx) = Some mx0" "mx_active mx0 = Some old"
    "phy_dismantle old (mx_hw mx0) = Some hw" "hw_idle (set_transceiver_mode Ecp hw)"
    "set_for Ecp (set_transceiver_mode Ecp hw)" "hw_rx (set_transceiver_mode Ecp hw) = rx"
    by (rule switch_from_boot [OF assms, of bursts rx Ecp])
  define hw1 where "hw1 = set_transceiver_mode Ecp hw"
  have "\<exists>hw' ef tx. ecp_build hw1 = Some (\<lparr>ec_fwd = ef, ec_rev = tx\<rparr>, hw') \<and> ef_rx ef = rx \<and> tx_words tx = [] \<and>
      phy_ok (ActEcp \<lparr>ec_fwd = ef, ec_rev = tx\<rparr>) \<and> hw_running Ecp hw'"
    using 0(4-6) unfolding hw1_def [symmetric]
    by (simp add: build_defs running_defs hw_idle_def set_for_def hw_step_defs Let_def)
  then show ?thesis
    using 0(1-3)
    by (auto simp: switch_to_def hw1_def [symmetric] mux_live_def mux_ok_def phy_live_def
        phy_mode_def mux_current_mode_def mux_incoming_def phy_incoming_def mux_outgoing_def phy_outgoing_def)
qed

text \<open>Serving keeps the mode.\<close>

lemma mux_keeps_mode:
  assumes "mux_recv mx = Some (r, mx') \<or> mux_send_bytes bs mx = Some (x, mx')"
  shows "mux_current_mode mx' = mux_current_mode mx"
proof (cases "mx_active mx")
  case None
  then show ?thesis using assms by (simp add: mux_recv_def mux_send_bytes_def)
next
  case (Some a)
  then show ?thesis using assms
    by (cases a) (auto simp: mux_recv_def mux_send_bytes_def lift_phy_def mux_current_mode_def phy_mode_def)
qed

interpretation moded: reliable_phy mux_recv mux_send_bytes "\<lambda>mx. mux_live mx \<and> mux_current_mode mx = m"
  mux_incoming mux_outgoing for m
proof unfold_locales
  fix mx r mx' assume "mux_live mx \<and> mux_current_mode mx = m" "mux_recv mx = Some (r, mx')"
  then show "(mux_live mx' \<and> mux_current_mode mx' = m) \<and> mux_incoming mx = unwrap_or 0 r # mux_incoming mx' \<and>
      mux_outgoing mx' = mux_outgoing mx"
    using mux_recv_some mux_keeps_mode by blast
next
  fix mx bs x mx' assume "mux_live mx \<and> mux_current_mode mx = m" "mux_send_bytes bs mx = Some (x, mx')"
  then show "(mux_live mx' \<and> mux_current_mode mx' = m) \<and> mux_incoming mx' = mux_incoming mx \<and>
      (x = Inr () \<longrightarrow> mux_outgoing mx' = mux_outgoing mx @ bs)"
    using mux_send_some mux_keeps_mode by blast
qed (use mux_recv_none mux_send_total in blast)+

text \<open>The reverse driver of the two modes whose words are bytes.\<close>

definition reverse_config :: "lpt_mode \<Rightarrow> sm_config" where
  "reverse_config m = (if m = Byte then byte_rev_config else ecp_rev_config)"

definition reverse_pulse :: "lpt_mode \<Rightarrow> nat" where
  "reverse_pulse m = (if m = Byte then 5 else 3)"

definition host_requests :: "lpt_mode \<Rightarrow> nat \<Rightarrow> pio_input list \<Rightarrow> bool" where
  "host_requests m n is \<longleftrightarrow>
     (if m = Byte then host_cycles strobe_line (\<lambda>_ _. True) 8 1 (replicate n ()) is
      else host_cycles gpio20_line (\<lambda>_ _. True) 6 1 (replicate n ()) is)"

definition mux_words :: "lpt_mux \<Rightarrow> u32 list" where
  "mux_words mx =
     (case mx_active mx of
        Some (ActByte p) \<Rightarrow> tx_words (dp_tx p)
      | Some (ActEcp p) \<Rightarrow> tx_words (ec_rev p)
      | _ \<Rightarrow> [])"

lemma mux_outgoing_words:
  assumes "mux_current_mode mx = Some m" "m \<in> {Byte, Ecp}"
  shows "mux_outgoing mx = map ucast (mux_words mx)"
proof -
  obtain a where a: "mx_active mx = Some a" using assms(1) by (auto simp: mux_current_mode_def)
  then show ?thesis using assms
    by (cases a) (auto simp: mux_current_mode_def phy_mode_def mux_outgoing_def phy_outgoing_def mux_words_def)
qed

lemma host_cycles_all2:
  "host_cycles line holds low high as is \<Longrightarrow> list_all2 (\<lambda>a b. \<forall>i. holds a i \<longrightarrow> holds' b i) as bs \<Longrightarrow>
     host_cycles line holds' low high bs is"
proof (induction arbitrary: bs rule: host_cycles.induct)
  case (quiet xs)
  then show ?case by (auto intro: host_cycles.quiet)
next
  case (cycle xs ys a zs as "is")
  then show ?case by (auto simp: list_all2_Cons1 intro!: host_cycles.cycle)
qed

lemma ready_start: "port_ready ((sm_start 0 0 True)\<lparr>sm_tx := ws\<rparr>)"
  by (simp add: port_ready_def capture_ready_def sm_start_def)

lemma list_all2_eq_map: "list_all2 (\<lambda>a p. p = f a) as ps \<longleftrightarrow> ps = map f as"
  by (induction as arbitrary: ps) (auto simp: list_all2_Cons1)

lemma reverse_run:
  assumes "m \<in> {Byte, Ecp}" "host_requests m (length ws) is"
  shows "\<exists>t tr. port_run (reverse_config m) is ((sm_start 0 0 True)\<lparr>sm_tx := ws\<rparr>) = (t, [], tr) \<and>
    host_latch tr = map (\<lambda>w. (w AND mask 8, reverse_pulse m)) ws"
proof -
  have r: "list_all2 (\<lambda>a b. \<forall>i :: pio_input. True \<longrightarrow> True) (replicate (length ws) ()) ws"
    by (simp add: list_all2_conv_all_nth)
  show ?thesis
  proof (cases "m = Byte")
    case True
    then show ?thesis
      using byte_rev.run [OF host_cycles_all2 [OF _ r] ready_start] assms(2)
      by (fastforce simp: host_requests_def reverse_config_def reverse_pulse_def list_all2_eq_map)
  next
    case False
    then show ?thesis
      using ecp_rev.run [OF host_cycles_all2 [OF _ r] ready_start] assms
      by (fastforce simp: host_requests_def reverse_config_def reverse_pulse_def list_all2_eq_map)
  qed
qed

lemma ucast_masked: "(ucast ((w :: u32) AND mask 8) :: u8) = ucast w"
  by (rule bit_word_eqI) (auto simp: bit_ucast_iff bit_and_iff bit_mask_iff)

lemma mode_serves:
  assumes "mux_live mx" "mux_current_mode mx = Some m" "m \<in> {Byte, Ecp}" "mux_incoming mx = noisy_stream xs"
    "mux_outgoing mx = []" "clean_packets xs"
    and "answer = reply_frames (replies_spec (es2_crc (ss_blob s)) (ss_tx_seq s) (map snd xs))"
    and "host_requests m (length answer) os"
  shows "\<exists>s' buf' mx' t' z tr.
    serve_rounds mux_recv mux_send_bytes emit (length xs) (s, reassembler_new, mx, t) = Served (s', buf', mx', t') \<and>
    port_run (reverse_config m) os ((sm_start 0 0 True)\<lparr>sm_tx := mux_words mx'\<rparr>) = (z, [], tr) \<and>
    map (ucast \<circ> fst) (host_latch tr) = answer \<and> map snd (host_latch tr) = replicate (length answer) (reverse_pulse m)"
proof -
  obtain s' buf' mx' t' where 1: "serve_rounds mux_recv mux_send_bytes emit (length xs)
      (s, reassembler_new, mx, t) = Served (s', buf', mx', t')" "mux_current_mode mx' = Some m"
    "mux_outgoing mx' = answer"
    using moded.serve_rounds_stream [of mx "Some m" reassembler_new xs "[]" emit s t] assms(1,2,4-7)
    by (auto simp: reassembler_new_def const_defs)
  have w: "answer = map ucast (mux_words mx')" using mux_outgoing_words [OF 1(2) assms(3)] 1(3) by simp
  then have "host_requests m (length (mux_words mx')) os" using assms(8) by simp
  from reverse_run [OF assms(3) this] obtain z tr where
    "port_run (reverse_config m) os ((sm_start 0 0 True)\<lparr>sm_tx := mux_words mx'\<rparr>) = (z, [], tr)"
    "host_latch tr = map (\<lambda>w. (w AND mask 8, reverse_pulse m)) (mux_words mx')" by blast
  with 1(1) w show ?thesis by (auto simp: ucast_masked comp_def map_replicate_const)
qed



text \<open>A host that keeps to the shortest cycles, for the witnesses.\<close>

definition brisk_host :: "nat \<Rightarrow> ('a \<Rightarrow> pio_input) \<Rightarrow> pio_input list \<Rightarrow> 'a list \<Rightarrow> pio_input list" where
  "brisk_host low f zs as = concat (map (\<lambda>a. replicate low (f a) @ zs) as)"

lemma brisk_host_cycles:
  assumes "\<And>a. \<not> line (f a) \<and> holds a (f a)" "length zs = high" "\<forall>i \<in> set zs. line i"
  shows "host_cycles line holds low high as (brisk_host low f zs as)"
proof (induction as)
  case (Cons a as)
  then show ?case
    using host_cycles.cycle [of "[]" line low "replicate low (f a)" holds a zs high as "brisk_host low f zs as"] assms
    by (simp add: brisk_host_def)
qed (simp add: brisk_host_def host_cycles.quiet)

lemma captured_mask: "captured b AND mask 9 = captured b"
  by (rule bit_word_eqI)
    (unfold captured_def bit_and_iff bit_mask_iff bit_push_bit_iff bit_ucast_iff, auto dest: bit_imp_le_length)

lemma captured_low: "\<not> strobe_line (captured b, g)"
  by (simp add: strobe_line_def not_bit_captured [OF captured_mask])

text \<open>The exchange of the witnesses: a ping after a stray byte.\<close>

definition stray_ping :: "(u8 list \<times> incoming_packet) list" where
  "stray_ping = [([0xFF], \<lparr>in_cmd = CMD_PING, in_seq = 0, in_payload = [7]\<rparr>)]"

lemma stray_ping:
  "clean_packets stray_ping" "length (noisy_stream stray_ping) = 10" "length stray_ping = 1"
  "frame CMD_PONG 0 [7] =
     reply_frames (replies_spec (es2_crc (ss_blob session_new)) (ss_tx_seq session_new) (map snd stray_ping))"
  "length (frame CMD_PONG 0 [7]) = 9"
  by (simp_all add: stray_ping_def clean_packets_def const_defs noisy_stream_def packet_frame_def reply_spec_def
      cmd_defs session_new_def session_with_blob_def reply_seq_def)



subsection \<open>EPP data cycles\<close>

text \<open>
  The firmware asks for a byte or offers one; each time it queues the command word, and the host makes a
  write or a read cycle of the same kind, with its byte on the lines for a write.
\<close>

datatype epp_op = EppTake u8 | EppGive u8

primrec epp_issue :: "epp_op \<Rightarrow> pio_epp \<Rightarrow> pio_epp" where
  "epp_issue (EppTake b) ep = send_forward_cmd ep"
| "epp_issue (EppGive b) ep = send_reverse_byte b ep"

primrec epp_host_holds :: "epp_op \<Rightarrow> pio_input \<Rightarrow> bool" where
  "epp_host_holds (EppTake b) i \<longleftrightarrow> fst i AND mask 8 = ucast b"
| "epp_host_holds (EppGive b) i \<longleftrightarrow> True"

primrec epp_word :: "epp_op \<Rightarrow> u32 \<times> u8" where
  "epp_word (EppTake b) = (encode_forward_cmd, b)"
| "epp_word (EppGive b) = (encode_reverse_cmd b, 0)"

lemma epp_issue_words:
  "tx_words (ep_tx (fold epp_issue ops ep)) = tx_words (ep_tx ep) @ map (fst \<circ> epp_word) ops"
proof (induction ops arbitrary: ep)
  case (Cons c ops)
  then show ?case by (cases c) (simp_all add: send_forward_cmd_def send_reverse_byte_def dma_push_def)
qed simp

lemma epp_cmd_bits:
  "\<not> bit encode_forward_cmd 0" "bit (encode_reverse_cmd b) 0" "drop_bit 24 (encode_reverse_cmd b) AND mask 8 = ucast b"
proof -
  show "drop_bit 24 (encode_reverse_cmd b) AND mask 8 = ucast b"
    by (rule bit_word_eqI)
      (unfold encode_reverse_cmd_def bit_and_iff bit_mask_iff bit_drop_bit_eq comp_def bit_or_iff bit_push_bit_iff
        bit_ucast_iff bit_1_iff, auto dest: bit_imp_le_length)
qed (simp_all add: encode_forward_cmd_def encode_reverse_cmd_def bit_simps)

lemma ucast_low_byte: "(ucast ((w :: u32) AND 0xFF) :: u8) = ucast w"
  using ucast_masked [of w] by (simp add: mask_eq_exp_minus_1)

lemma epp_run:
  assumes "host_cycles gpio20_line epp_host_holds 11 2 ops is" "tx_words (ep_tx ep) = []"
  shows "\<exists>z ws tr. port_run epp_config is ((sm_start 0 0 True)\<lparr>sm_tx := tx_words (ep_tx (fold epp_issue ops ep))\<rparr>) = (z, ws, tr) \<and>
    map (\<lambda>w. ucast (w AND 0xFF)) ws = [b. EppTake b \<leftarrow> ops] \<and>
    list_all2 (\<lambda>c p. \<forall>b. c = EppGive b \<longrightarrow> p = (ucast b, 5)) ops (host_latch tr)"
proof -
  have "epp_holds (epp_word c) i" if "epp_host_holds c i" for c i
    using that by (cases c) (simp_all add: epp_holds_def epp_cmd_bits)
  then have "host_cycles gpio20_line epp_holds 11 2 (map epp_word ops) is"
    by (intro host_cycles_all2 [OF assms(1)]) (simp add: list_all2_conv_all_nth del: split_paired_All)
  then obtain z tr where r: "port_run epp_config is ((sm_start 0 0 True)\<lparr>sm_tx := map (fst \<circ> epp_word) ops\<rparr>) =
      (z, concat (map epp_sampled (map epp_word ops)), tr)" "list_all2 epp_pulse (map epp_word ops) (host_latch tr)"
    using epp.run [OF _ ready_start, of "map epp_word ops" "is" "map (fst \<circ> epp_word) ops"]
    by (auto simp: comp_def)
  have "map (\<lambda>w. ucast (w AND 0xFF)) (concat (map epp_sampled (map epp_word ops))) = [b. EppTake b \<leftarrow> ops]"
  proof (induction ops)
    case (Cons c ops)
    then show ?case
      by (cases c) (simp_all add: epp_sampled_def epp_cmd_bits ucast_low_byte ucast_u32_u8)
  qed simp
  moreover have "list_all2 (\<lambda>c p. \<forall>b. c = EppGive b \<longrightarrow> p = (ucast b, 5)) ops (host_latch tr)"
    using r(2) unfolding list_all2_map1
    by (rule list_all2_mono) (auto simp: epp_pulse_def epp_cmd_bits)
  ultimately show ?thesis using r(1) assms(2) by (simp add: epp_issue_words)
qed



end
