(* ===== verification/DmaRegs.thy ===== *)
theory DmaRegs
  imports RingDma "HOL-Library.Monad_Syntax"
begin

text \<open>
  How the rings are armed: the register writes of \<^verbatim>\<open>arm\<close> and \<^verbatim>\<open>disarm\<close> in
  \<^verbatim>\<open>firmware/src/lpt/ring_dma.rs\<close> and of \<^verbatim>\<open>arm_kbd\<close>, \<^verbatim>\<open>arm_aux\<close> and \<^verbatim>\<open>arm\<close> in
  \<^verbatim>\<open>firmware/src/ps2/ring_dma.rs\<close>, and the DMA block they program.  The block's behaviour is the
  documented one: an enabled channel whose request line is up moves one word and steps its addresses,
  the low bits of the ringed one wrapping.  Which FIFO a request line belongs to and where the FIFOs
  lie are parameters.  The lemmas show that the three programmed channels are the three rings of
  \<open>RingDma\<close>, whatever the interleaving.
\<close>

record dma_channel =
  dc_read_addr :: u32
  dc_write_addr :: u32
  dc_endless :: bool
  dc_count :: nat
  dc_treq_sel :: nat
  dc_data_size :: nat
  dc_incr_read :: bool
  dc_incr_write :: bool
  dc_ring_size :: nat
  dc_ring_sel :: bool
  dc_chain_to :: nat
  dc_bswap :: bool
  dc_en :: bool

record dma_world =
  dw_channels :: "nat \<Rightarrow> dma_channel"
  dw_memory :: "u32 \<Rightarrow> u32"
  dw_fifo :: "u32 \<Rightarrow> u32 list"
  dw_stale :: u32

record ring_handle =
  rh_base_addr :: u32
  rh_last_tail :: nat
  rh_ch_num :: nat

definition DMA_CH_KBD :: nat where [const_defs]: "DMA_CH_KBD = 1"
definition DMA_CH_AUX :: nat where [const_defs]: "DMA_CH_AUX = 2"
definition DMA_CH_LPT_IN :: nat where [const_defs]: "DMA_CH_LPT_IN = 3"
definition PIO0_SM0_RX_DREQ :: nat where [const_defs]: "PIO0_SM0_RX_DREQ = 4"
definition PIO1_SM0_RX_DREQ :: nat where [const_defs]: "PIO1_SM0_RX_DREQ = 12"
definition PIO1_SM2_RX_DREQ :: nat where [const_defs]: "PIO1_SM2_RX_DREQ = 14"
definition LPT_RING_SIZE_LOG2 :: nat where [const_defs]: "LPT_RING_SIZE_LOG2 = 10"
definition PS2_RING_SIZE_LOG2 :: nat where [const_defs]: "PS2_RING_SIZE_LOG2 = 12"

text \<open>
  The four register writes.  The last one starts the channel; it is a \<^verbatim>\<open>write\<close>, so every field the code
  does not set gets its reset value.
\<close>

definition ring_channel :: "nat \<Rightarrow> nat \<Rightarrow> nat \<Rightarrow> u32 \<Rightarrow> u32 \<Rightarrow> dma_channel" where
  "ring_channel ch dreq log2 read_addr write_addr =
     \<lparr>dc_read_addr = read_addr, dc_write_addr = write_addr, dc_endless = True, dc_count = 0,
      dc_treq_sel = dreq, dc_data_size = 4, dc_incr_read = False, dc_incr_write = True,
      dc_ring_size = log2, dc_ring_sel = True, dc_chain_to = ch, dc_bswap = False, dc_en = True\<rparr>"

definition write_ring_channel :: "nat \<Rightarrow> nat \<Rightarrow> nat \<Rightarrow> u32 \<Rightarrow> u32 \<Rightarrow> dma_world \<Rightarrow> dma_world" where
  "write_ring_channel ch dreq log2 read_addr write_addr w =
     w\<lparr>dw_channels := (dw_channels w)(ch := ring_channel ch dreq log2 read_addr write_addr)\<rparr>"

definition lpt_arm :: "(nat \<Rightarrow> nat \<Rightarrow> u32) \<Rightarrow> u32 \<Rightarrow> dma_world \<Rightarrow> (ring_handle \<times> dma_world) option" where
  "lpt_arm rxf storage w =
     (let read_addr = rxf 0 0; write_addr = storage
      in if write_addr AND (of_nat (LPT_RING_WORDS * 4) - 1) \<noteq> 0 then None
         else Some (\<lparr>rh_base_addr = write_addr, rh_last_tail = 0, rh_ch_num = DMA_CH_LPT_IN\<rparr>,
                    write_ring_channel DMA_CH_LPT_IN PIO0_SM0_RX_DREQ LPT_RING_SIZE_LOG2 read_addr write_addr w))"

definition lpt_disarm :: "dma_world \<Rightarrow> dma_world" where
  "lpt_disarm w =
     w\<lparr>dw_channels := (dw_channels w)(DMA_CH_LPT_IN := (dw_channels w DMA_CH_LPT_IN)\<lparr>dc_en := False\<rparr>)\<rparr>"

definition ps2_arm ::
  "(nat \<Rightarrow> nat \<Rightarrow> u32) \<Rightarrow> nat \<Rightarrow> nat \<Rightarrow> u32 \<Rightarrow> dma_world \<Rightarrow> (ring_handle \<times> dma_world) option" where
  "ps2_arm rxf ch_num dreq storage w =
     do { read_addr \<leftarrow>
            (if dreq = PIO1_SM0_RX_DREQ then Some (rxf 1 0)
             else if dreq = PIO1_SM2_RX_DREQ then Some (rxf 1 2)
             else None);
          let write_addr = storage;
          (if write_addr AND (of_nat (PS2_RING_WORDS * 4) - 1) \<noteq> 0 then None
           else Some (\<lparr>rh_base_addr = write_addr, rh_last_tail = 0, rh_ch_num = ch_num\<rparr>,
                      write_ring_channel ch_num dreq PS2_RING_SIZE_LOG2 read_addr write_addr w)) }"

definition arm_kbd :: "(nat \<Rightarrow> nat \<Rightarrow> u32) \<Rightarrow> u32 \<Rightarrow> dma_world \<Rightarrow> (ring_handle \<times> dma_world) option" where
  "arm_kbd rxf ring_kbd = ps2_arm rxf DMA_CH_KBD PIO1_SM0_RX_DREQ ring_kbd"

definition arm_aux :: "(nat \<Rightarrow> nat \<Rightarrow> u32) \<Rightarrow> u32 \<Rightarrow> dma_world \<Rightarrow> (ring_handle \<times> dma_world) option" where
  "arm_aux rxf ring_aux = ps2_arm rxf DMA_CH_AUX PIO1_SM2_RX_DREQ ring_aux"

text \<open>The head as the code computes it, from the channel's write address.\<close>

definition handle_head :: "nat \<Rightarrow> dma_world \<Rightarrow> ring_handle \<Rightarrow> nat" where
  "handle_head n w h =
     (let waddr = dc_write_addr (dw_channels w (rh_ch_num h))
      in (unat (waddr - rh_base_addr h) div 4) mod n)"

subsection \<open>The DMA block\<close>

text \<open>
  The address after a transfer: with a ring the low \<open>dc_ring_size\<close> bits step and the others stay.
\<close>

definition ring_step :: "nat \<Rightarrow> u32 \<Rightarrow> u32 \<Rightarrow> u32" where
  "ring_step k step a = (a AND NOT (mask k)) OR ((a + step) AND mask k)"

definition next_addr :: "bool \<Rightarrow> bool \<Rightarrow> dma_channel \<Rightarrow> u32 \<Rightarrow> u32" where
  "next_addr incr ringed c a =
     (if \<not> incr then a
      else if ringed \<and> dc_ring_size c \<noteq> 0 then ring_step (dc_ring_size c) (of_nat (dc_data_size c)) a
      else a + of_nat (dc_data_size c))"

text \<open>
  One transfer of a channel, if it is enabled, has transfers left and its request line \<open>dreq\<close> is up,
  that is, the FIFO behind the line is not empty.  Reading a FIFO takes its oldest word; an empty one
  yields the stale value.
\<close>

definition dma_beat :: "(nat \<Rightarrow> u32) \<Rightarrow> nat \<Rightarrow> dma_world \<Rightarrow> dma_world" where
  "dma_beat dreq ch w =
     (let c = dw_channels w ch
      in if dc_en c \<and> (dc_endless c \<or> 0 < dc_count c) \<and> dw_fifo w (dreq (dc_treq_sel c)) \<noteq> []
         then
           let words = dw_fifo w (dc_read_addr c);
               x = (case words of [] \<Rightarrow> dw_stale w | x # _ \<Rightarrow> x);
               c' = c\<lparr>dc_read_addr := next_addr (dc_incr_read c) (\<not> dc_ring_sel c) c (dc_read_addr c),
                      dc_write_addr := next_addr (dc_incr_write c) (dc_ring_sel c) c (dc_write_addr c),
                      dc_count := (if dc_endless c then dc_count c else dc_count c - 1)\<rparr>
           in w\<lparr>dw_channels := (dw_channels w)(ch := c'),
                dw_memory := (dw_memory w)(dc_write_addr c := x),
                dw_fifo := (dw_fifo w)(dc_read_addr c := tl words)\<rparr>
         else w)"

datatype dma_action = FifoPush u32 u32 | Beat nat

fun dma_event :: "(nat \<Rightarrow> u32) \<Rightarrow> dma_action \<Rightarrow> dma_world \<Rightarrow> dma_world" where
  "dma_event dreq (FifoPush a x) w = w\<lparr>dw_fifo := (dw_fifo w)(a := dw_fifo w a @ [x])\<rparr>"
| "dma_event dreq (Beat ch) w = dma_beat dreq ch w"

definition pushed :: "u32 \<Rightarrow> dma_action list \<Rightarrow> u32 list" where
  "pushed a es = [x. FifoPush b x \<leftarrow> es, b = a]"

subsection \<open>A ring's address wrap\<close>

lemma ring_step_wrap:
  assumes "base AND mask k = 0" "off < 2 ^ k" "k \<le> 30"
  shows "ring_step k 4 (base + of_nat off) = base + of_nat ((off + 4) mod 2 ^ k)"
proof -
  have masked: "of_nat j AND mask k = (of_nat j :: u32)" if "j < 2 ^ k" for j
    using that assms(3) by (simp add: take_bit_of_nat take_bit_nat_eq_self flip: take_bit_eq_mask)
  have b: "n < k \<Longrightarrow> n < 32 \<Longrightarrow> \<not> bit base n" for n
  proof -
    assume "n < k" "n < 32"
    moreover have "\<not> bit (base AND mask k) n" using assms(1) by simp
    ultimately show ?thesis unfolding bit_and_iff bit_mask_iff by auto
  qed
  have disj: "base AND y = 0" if "y AND mask k = y" for y
  proof (rule bit_word_eqI)
    fix n assume n: "n < LENGTH(32)"
    have "bit y n \<Longrightarrow> n < k" using that by (metis bit_and_iff bit_mask_iff)
    then show "bit (base AND y) n = bit 0 n" using b n by (auto simp: bit_and_iff)
  qed
  have add: "base + of_nat j = base OR of_nat j" if "j < 2 ^ k" for j
    using disj [OF masked [OF that]] by (rule disjunctive_add_eq_or)
  have high: "(base + of_nat off) AND NOT (mask k) = base"
  proof (rule bit_word_eqI)
    fix n assume n: "n < LENGTH(32)"
    have "bit (of_nat off :: u32) n \<Longrightarrow> n < k" using masked [OF assms(2)] by (metis bit_and_iff bit_mask_iff)
    then show "bit ((base + of_nat off) AND NOT (mask k)) n = bit base n"
      using b n unfolding add [OF assms(2)] by (auto simp: bit_and_iff bit_or_iff bit_not_iff bit_mask_iff)
  qed
  have dvd: "(2 :: nat) ^ k dvd 2 ^ 32" using assms(3) by (intro le_imp_power_dvd) simp
  have "unat (base AND mask k) = 0" using assms(1) by simp
  then have z: "unat base mod 2 ^ k = 0"
    by (simp add: unsigned_take_bit_eq take_bit_nat_def flip: take_bit_eq_mask)
  have "unat ((base + of_nat off + 4) AND mask k) = unat (base + of_nat (off + 4)) mod 2 ^ k"
    by (simp add: unsigned_take_bit_eq take_bit_nat_def add.assoc flip: take_bit_eq_mask)
  also have "\<dots> = ((unat base + unat (of_nat (off + 4) :: u32)) mod 2 ^ 32) mod 2 ^ k"
    by (simp add: unat_word_ariths(1) del: of_nat_add)
  also have "\<dots> = (unat base + unat (of_nat (off + 4) :: u32)) mod 2 ^ k"
    using dvd by (rule mod_mod_cancel)
  also have "\<dots> = unat (of_nat (off + 4) :: u32) mod 2 ^ k"
    using z by (metis add_0 mod_add_left_eq)
  also have "\<dots> = (off + 4) mod 2 ^ k"
    using dvd by (simp add: unsigned_of_nat take_bit_nat_def mod_mod_cancel del: of_nat_add)
  finally have "unat ((base + of_nat off + 4) AND mask k) = (off + 4) mod 2 ^ k" .
  from arg_cong [OF this, of "of_nat :: nat \<Rightarrow> u32"]
  have low: "(base + of_nat off + 4) AND mask k = of_nat ((off + 4) mod 2 ^ k)"
    by (simp only: of_nat_unat ucast_id)
  have "(off + 4) mod 2 ^ k < 2 ^ k" by simp
  from add [OF this] show ?thesis
    unfolding ring_step_def high low by simp
qed

subsection \<open>The rings in memory\<close>

text \<open>Where a ring lives: its channel, the FIFO and request line that feed it, and its storage.\<close>

record ring_site =
  rs_ch :: nat
  rs_fifo :: u32
  rs_dreq :: nat
  rs_log2 :: nat
  rs_base :: u32

definition site_words :: "ring_site \<Rightarrow> nat" where
  "site_words s = 2 ^ (rs_log2 s - 2)"

definition site_cells :: "ring_site \<Rightarrow> u32 set" where
  "site_cells s = (\<lambda>i. rs_base s + of_nat (4 * i)) ` {..<site_words s}"

definition site_armed :: "(nat \<Rightarrow> u32) \<Rightarrow> dma_world \<Rightarrow> ring_site \<Rightarrow> bool" where
  "site_armed dreq w s \<longleftrightarrow> 2 \<le> rs_log2 s \<and> rs_log2 s \<le> 30 \<and> rs_base s AND mask (rs_log2 s) = 0 \<and>
     dreq (rs_dreq s) = rs_fifo s \<and>
     (\<exists>h < site_words s. dw_channels w (rs_ch s) =
        ring_channel (rs_ch s) (rs_dreq s) (rs_log2 s) (rs_fifo s) (rs_base s + of_nat (4 * h)))"

text \<open>The abstract ring at a site: the storage's words and the channel's write address.\<close>

definition site_ring :: "dma_world \<Rightarrow> ring_site \<Rightarrow> ring" where
  "site_ring w s =
     \<lparr>rg_words = map (\<lambda>i. dw_memory w (rs_base s + of_nat (4 * i))) [0..<site_words s],
      rg_base_addr = rs_base s, rg_write_addr = dc_write_addr (dw_channels w (rs_ch s)), rg_last_tail = 0\<rparr>"

definition sites_ok :: "(nat \<Rightarrow> u32) \<Rightarrow> ring_site list \<Rightarrow> dma_world \<Rightarrow> bool" where
  "sites_ok dreq S w \<longleftrightarrow> distinct (map rs_ch S) \<and> distinct (map rs_fifo S) \<and>
     (\<forall>s \<in> set S. \<forall>t \<in> set S. s \<noteq> t \<longrightarrow> site_cells s \<inter> site_cells t = {}) \<and>
     (\<forall>s \<in> set S. site_armed dreq w s) \<and> (\<forall>ch. ch \<notin> rs_ch ` set S \<longrightarrow> \<not> dc_en (dw_channels w ch))"

lemma site_size: "site_armed dreq w s \<Longrightarrow> 2 ^ rs_log2 s = 4 * site_words s"
  by (auto simp: site_armed_def site_words_def simp flip: power_Suc2 power_add dest!: le_Suc_ex)

lemma site_offset_less: 
  assumes "site_armed dreq w s" "i < site_words s"
  shows "4 * i < 2 ^ 32"
proof -
  have "4 * i < 4 * site_words s" using assms(2) by simp
  also have "\<dots> = 2 ^ rs_log2 s" using site_size [OF assms(1)] by simp
  also have "\<dots> \<le> (2 :: nat) ^ 32" using assms(1) by (intro power_increasing) (auto simp: site_armed_def)
  finally show ?thesis .
qed

lemma site_cell_inj:
  assumes "site_armed dreq w s" "i < site_words s" "j < site_words s"
    "rs_base s + of_nat (4 * i) = rs_base s + of_nat (4 * j)"
  shows "i = j"
proof -
  have "(of_nat (4 * i) :: u32) = of_nat (4 * j)" using assms(4) by (simp only: add_left_cancel)
  then have "unat (of_nat (4 * i) :: u32) = unat (of_nat (4 * j) :: u32)" by simp
  then show ?thesis
    using site_offset_less [OF assms(1)] assms(2,3) by (simp add: unat_of_nat del: of_nat_mult)
qed

text \<open>A transfer of a site's channel is one \<open>dma_store\<close> of its ring, and touches nothing else.\<close>

lemma beat_own:
  assumes "site_armed dreq w s" "dw_fifo w (rs_fifo s) = x # xs"
  defines "w' \<equiv> dma_beat dreq (rs_ch s) w"
  shows "site_armed dreq w' s" "site_ring w' s = dma_store (site_words s) x (site_ring w s)"
    "dw_fifo w' = (dw_fifo w)(rs_fifo s := xs)"
    "a \<notin> site_cells s \<Longrightarrow> dw_memory w' a = dw_memory w a"
    "ch \<noteq> rs_ch s \<Longrightarrow> dw_channels w' ch = dw_channels w ch"
proof -
  obtain h where h: "h < site_words s" "dw_channels w (rs_ch s) =
      ring_channel (rs_ch s) (rs_dreq s) (rs_log2 s) (rs_fifo s) (rs_base s + of_nat (4 * h))"
    and k: "2 \<le> rs_log2 s" "rs_log2 s \<le> 30" "rs_base s AND mask (rs_log2 s) = 0" "dreq (rs_dreq s) = rs_fifo s"
    using assms(1) by (auto simp: site_armed_def)
  let ?n = "site_words s"
  have size: "2 ^ rs_log2 s = 4 * ?n" by (rule site_size [OF assms(1)])
  have h4: "4 * h < 2 ^ rs_log2 s" using h(1) size by simp
  have wrap: "(4 * h + 4) mod (4 * ?n) = 4 * (Suc h mod ?n)"
    using mult_mod_right [of 4 "Suc h" ?n] by (simp add: add.commute)
  have nxt: "ring_step (rs_log2 s) 4 (rs_base s + of_nat (4 * h)) = rs_base s + of_nat (4 * (Suc h mod ?n))"
    using ring_step_wrap [OF k(3) h4 k(2)] unfolding size wrap .
  have w': "w' = w\<lparr>dw_channels := (dw_channels w)(rs_ch s :=
        ring_channel (rs_ch s) (rs_dreq s) (rs_log2 s) (rs_fifo s) (rs_base s + of_nat (4 * (Suc h mod ?n)))),
      dw_memory := (dw_memory w)(rs_base s + of_nat (4 * h) := x), dw_fifo := (dw_fifo w)(rs_fifo s := xs)\<rparr>"
    using assms(2) h(2) k(1) nxt
    by (simp add: w'_def dma_beat_def k(4) ring_channel_def next_addr_def Let_def del: of_nat_mult)
  show "site_armed dreq w' s"
    using k h(1) unfolding site_armed_def w' by (auto intro!: exI [of _ "Suc h mod ?n"])
  show "dw_fifo w' = (dw_fifo w)(rs_fifo s := xs)" by (simp add: w')
  show "a \<notin> site_cells s \<Longrightarrow> dw_memory w' a = dw_memory w a"
    using h(1) by (auto simp: w' site_cells_def)
  show "ch \<noteq> rs_ch s \<Longrightarrow> dw_channels w' ch = dw_channels w ch" by (simp add: w')
  have off: "unat (rs_base s + of_nat (4 * h) - rs_base s) = 4 * h"
    using site_offset_less [OF assms(1) h(1)] by (simp add: unat_of_nat del: of_nat_mult)
  have "map (\<lambda>i. dw_memory w' (rs_base s + of_nat (4 * i))) [0..<?n] =
      (map (\<lambda>i. dw_memory w (rs_base s + of_nat (4 * i))) [0..<?n])[h := x]"
    using site_cell_inj [OF assms(1)] h(1)
    by (intro nth_equalityI) (auto simp: w' nth_list_update simp del: of_nat_mult)
  then show "site_ring w' s = dma_store ?n x (site_ring w s)"
    using off h(2) wrap by (simp add: site_ring_def dma_store_def w' ring_channel_def Let_def del: of_nat_mult)
qed

subsection \<open>Any interleaving\<close>

text \<open>What an event may do to a ring: some words pass from its FIFO into it, in order.\<close>

definition site_passes :: "dma_world \<Rightarrow> u32 list \<Rightarrow> dma_world \<Rightarrow> ring_site \<Rightarrow> bool" where
  "site_passes w new w' s \<longleftrightarrow> (\<exists>taken. dw_fifo w (rs_fifo s) @ new = taken @ dw_fifo w' (rs_fifo s) \<and>
     site_ring w' s = fold (dma_store (site_words s)) taken (site_ring w s))"

lemma site_passes_trans:
  "site_passes w new w1 s \<Longrightarrow> site_passes w1 new' w2 s \<Longrightarrow> site_passes w (new @ new') w2 s"
  unfolding site_passes_def by (metis append_assoc fold_append o_apply)

lemma beat_idle: "\<not> dc_en (dw_channels w ch) \<Longrightarrow> dma_beat dreq ch w = w"
  by (simp add: dma_beat_def)

lemma beat_starved:
  assumes "site_armed dreq w s" "dw_fifo w (rs_fifo s) = []"
  shows "dma_beat dreq (rs_ch s) w = w"
  using assms by (auto simp: site_armed_def dma_beat_def ring_channel_def)

lemma sites_beat:
  assumes ok: "sites_ok dreq S w"
  shows "sites_ok dreq S (dma_beat dreq ch w) \<and> (\<forall>s \<in> set S. site_passes w [] (dma_beat dreq ch w) s)"
proof -
  consider s x xs where "s \<in> set S" "ch = rs_ch s" "dw_fifo w (rs_fifo s) = x # xs" | "dma_beat dreq ch w = w"
    using ok beat_starved beat_idle [of w ch dreq] unfolding sites_ok_def by (metis imageE list.exhaust)
  then show ?thesis
  proof cases
    case 1
    let ?w = "dma_beat dreq ch w"
    have a: "site_armed dreq w s" using ok 1(1) by (simp add: sites_ok_def)
    note b = beat_own [OF a 1(3), folded 1(2)]
    have own: "site_passes w [] ?w s"
      unfolding site_passes_def using 1(3) b(2,3) by (intro exI [of _ "[x]"]) simp
    have other: "site_armed dreq ?w t \<and> site_passes w [] ?w t" if t: "t \<in> set S" "t \<noteq> s" for t
    proof -
      have d: "rs_ch t \<noteq> ch" "rs_fifo t \<noteq> rs_fifo s" "site_cells t \<inter> site_cells s = {}"
        using ok t 1(1,2) by (auto simp: sites_ok_def distinct_map dest: inj_onD)
      have c: "dw_channels ?w (rs_ch t) = dw_channels w (rs_ch t)" using b(5) [of "rs_ch t"] d(1) by simp
      have "dw_memory ?w (rs_base t + of_nat (4 * i)) = dw_memory w (rs_base t + of_nat (4 * i))"
        if "i < site_words t" for i
        using that d(3) by (intro b(4)) (auto simp: site_cells_def simp del: of_nat_mult)
      then have "site_ring ?w t = site_ring w t" by (simp add: site_ring_def c del: of_nat_mult)
      moreover have "site_armed dreq ?w t" using ok t(1) c by (simp add: sites_ok_def site_armed_def)
      ultimately show ?thesis using d(2) b(3) by (simp add: site_passes_def)
    qed
    have "\<not> dc_en (dw_channels ?w c)" if "c \<notin> rs_ch ` set S" for c
    proof -
      have "c \<noteq> rs_ch s" using that 1(1) by auto
      then show ?thesis using that b(5) [of c] ok 1(2) by (simp add: sites_ok_def)
    qed
    with own other b(1) ok show ?thesis by (metis sites_ok_def)
  next
    case 2
    then show ?thesis using ok by (simp add: site_passes_def)
  qed
qed

lemma sites_event:
  assumes ok: "sites_ok dreq S w"
  shows "sites_ok dreq S (dma_event dreq e w) \<and>
    (\<forall>s \<in> set S. site_passes w (pushed (rs_fifo s) [e]) (dma_event dreq e w) s)"
proof (cases e)
  case (FifoPush a x)
  have "sites_ok dreq S (dma_event dreq e w)"
    using ok by (simp add: FifoPush sites_ok_def site_armed_def)
  moreover have "site_passes w (pushed (rs_fifo s) [e]) (dma_event dreq e w) s" for s
    unfolding site_passes_def by (intro exI [of _ "[]"]) (simp add: FifoPush pushed_def site_ring_def)
  ultimately show ?thesis by blast
next
  case (Beat ch)
  then show ?thesis using sites_beat [OF ok] by (simp add: pushed_def)
qed

lemma sites_events:
  "sites_ok dreq S w \<Longrightarrow> sites_ok dreq S (fold (dma_event dreq) es w) \<and>
     (\<forall>s \<in> set S. site_passes w (pushed (rs_fifo s) es) (fold (dma_event dreq) es w) s)"
proof (induction es arbitrary: w)
  case Nil
  then show ?case by (simp add: site_passes_def pushed_def)
next
  case (Cons e es)
  have p: "pushed a (e # es) = pushed a [e] @ pushed a es" for a by (simp add: pushed_def)
  note 1 = sites_event [OF Cons.prems, of e]
  with Cons.IH show ?case unfolding p by (auto intro: site_passes_trans)
qed

subsection \<open>The three rings of the firmware\<close>

definition lpt_site :: "(nat \<Rightarrow> nat \<Rightarrow> u32) \<Rightarrow> u32 \<Rightarrow> ring_site" where
  "lpt_site rxf b = \<lparr>rs_ch = DMA_CH_LPT_IN, rs_fifo = rxf 0 0, rs_dreq = PIO0_SM0_RX_DREQ,
     rs_log2 = LPT_RING_SIZE_LOG2, rs_base = b\<rparr>"

definition kbd_site :: "(nat \<Rightarrow> nat \<Rightarrow> u32) \<Rightarrow> u32 \<Rightarrow> ring_site" where
  "kbd_site rxf b = \<lparr>rs_ch = DMA_CH_KBD, rs_fifo = rxf 1 0, rs_dreq = PIO1_SM0_RX_DREQ,
     rs_log2 = PS2_RING_SIZE_LOG2, rs_base = b\<rparr>"

definition aux_site :: "(nat \<Rightarrow> nat \<Rightarrow> u32) \<Rightarrow> u32 \<Rightarrow> ring_site" where
  "aux_site rxf b = \<lparr>rs_ch = DMA_CH_AUX, rs_fifo = rxf 1 2, rs_dreq = PIO1_SM2_RX_DREQ,
     rs_log2 = PS2_RING_SIZE_LOG2, rs_base = b\<rparr>"

lemmas site_defs = lpt_site_def kbd_site_def aux_site_def

definition arm_all :: "(nat \<Rightarrow> nat \<Rightarrow> u32) \<Rightarrow> u32 \<Rightarrow> u32 \<Rightarrow> u32 \<Rightarrow> dma_world \<Rightarrow>
    (ring_handle \<times> ring_handle \<times> ring_handle \<times> dma_world) option" where
  "arm_all rxf lpt kbd aux w =
     do { (hl, w) \<leftarrow> lpt_arm rxf lpt w;
          (hk, w) \<leftarrow> arm_kbd rxf kbd w;
          (ha, w) \<leftarrow> arm_aux rxf aux w;
          Some (hl, hk, ha, w) }"

text \<open>The documented wiring of the request lines, the FIFOs' addresses, and where the linker puts the rings.\<close>

definition dma_wired :: "(nat \<Rightarrow> u32) \<Rightarrow> (nat \<Rightarrow> nat \<Rightarrow> u32) \<Rightarrow> bool" where
  "dma_wired dreq rxf \<longleftrightarrow> (\<forall>p < 2. \<forall>sm < 4. dreq (8 * p + sm + 4) = rxf p sm) \<and>
     distinct [rxf 0 0, rxf 1 0, rxf 1 2]"

definition rings_placed :: "u32 \<Rightarrow> u32 \<Rightarrow> u32 \<Rightarrow> bool" where
  "rings_placed lpt kbd aux \<longleftrightarrow> lpt AND mask 10 = 0 \<and> kbd AND mask 12 = 0 \<and> aux AND mask 12 = 0 \<and>
     (\<forall>i < 256. \<forall>j < 1024. lpt + of_nat (4 * i) \<noteq> kbd + of_nat (4 * j) \<and> lpt + of_nat (4 * i) \<noteq> aux + of_nat (4 * j)) \<and>
     (\<forall>i < 1024. \<forall>j < 1024. kbd + of_nat (4 * i) \<noteq> aux + of_nat (4 * j))"

lemma arm_all_sites:
  assumes "dma_wired dreq rxf" "rings_placed lpt kbd aux" "\<forall>ch. \<not> dc_en (dw_channels w ch)"
  shows "\<exists>w'. arm_all rxf lpt kbd aux w = Some
      (\<lparr>rh_base_addr = lpt, rh_last_tail = 0, rh_ch_num = 3\<rparr>, \<lparr>rh_base_addr = kbd, rh_last_tail = 0, rh_ch_num = 1\<rparr>,
       \<lparr>rh_base_addr = aux, rh_last_tail = 0, rh_ch_num = 2\<rparr>, w') \<and>
    sites_ok dreq [lpt_site rxf lpt, kbd_site rxf kbd, aux_site rxf aux] w' \<and>
    dw_fifo w' = dw_fifo w \<and> dw_memory w' = dw_memory w \<and> dc_write_addr (dw_channels w' 3) = lpt \<and>
    dc_write_addr (dw_channels w' 1) = kbd \<and> dc_write_addr (dw_channels w' 2) = aux"
proof -
  have m: "(mask 10 :: u32) = 1023" "(mask 12 :: u32) = 4095" by (simp_all add: mask_eq_exp_minus_1)
  have a: "lpt AND 1023 = 0" "kbd AND 4095 = 0" "aux AND 4095 = 0"
    using assms(2) by (simp_all add: rings_placed_def flip: m)
  define w' where "w' = w\<lparr>dw_channels := (dw_channels w)
      (3 := ring_channel 3 4 10 (rxf 0 0) lpt, 1 := ring_channel 1 12 12 (rxf 1 0) kbd, 2 := ring_channel 2 14 12 (rxf 1 2) aux)\<rparr>"
  have "arm_all rxf lpt kbd aux w = Some
      (\<lparr>rh_base_addr = lpt, rh_last_tail = 0, rh_ch_num = 3\<rparr>, \<lparr>rh_base_addr = kbd, rh_last_tail = 0, rh_ch_num = 1\<rparr>,
       \<lparr>rh_base_addr = aux, rh_last_tail = 0, rh_ch_num = 2\<rparr>, w')"
    using a by (simp add: arm_all_def lpt_arm_def arm_kbd_def arm_aux_def ps2_arm_def write_ring_channel_def
        const_defs w'_def)
  moreover have "sites_ok dreq [lpt_site rxf lpt, kbd_site rxf kbd, aux_site rxf aux] w'"
  proof -
    let ?S = "[lpt_site rxf lpt, kbd_site rxf kbd, aux_site rxf aux]"
    have d: "dreq 4 = rxf 0 0" "dreq 12 = rxf 1 0" "dreq 14 = rxf 1 2"
      using assms(1) unfolding dma_wired_def
      by (fastforce dest: spec [of _ 0] spec [of _ 1] spec [of _ 2])+
    have armed: "\<forall>s \<in> set ?S. site_armed dreq w' s"
      using d assms(2)
      by (auto simp: site_armed_def site_defs const_defs w'_def site_words_def rings_placed_def intro!: exI [of _ 0])
    have sizes: "site_words (lpt_site rxf lpt) = 256" "site_words (kbd_site rxf kbd) = 1024"
      "site_words (aux_site rxf aux) = 1024"
      by (simp_all add: site_words_def site_defs const_defs)
    have "site_cells (lpt_site rxf lpt) \<inter> site_cells (kbd_site rxf kbd) = {}"
      "site_cells (lpt_site rxf lpt) \<inter> site_cells (aux_site rxf aux) = {}"
      "site_cells (kbd_site rxf kbd) \<inter> site_cells (aux_site rxf aux) = {}"
      using assms(2) unfolding site_cells_def sizes rings_placed_def
      by (auto simp: site_defs simp del: of_nat_mult)
    then have "\<forall>s \<in> set ?S. \<forall>t \<in> set ?S. s \<noteq> t \<longrightarrow> site_cells s \<inter> site_cells t = {}" by auto
    with armed assms(1,3) show ?thesis
      by (simp add: sites_ok_def site_defs const_defs dma_wired_def w'_def)
  qed
  ultimately show ?thesis by (simp add: w'_def ring_channel_def)
qed

text \<open>The unread part of a ring's life: what its FIFO was given, what the DMA has moved, what the reader sees.\<close>

definition storage :: "nat \<Rightarrow> dma_world \<Rightarrow> ring_handle \<Rightarrow> u32 list" where
  "storage n w h = map (\<lambda>i. dw_memory w (rh_base_addr h + of_nat (4 * i))) [0..<n]"

definition ring_carries :: "nat \<Rightarrow> u32 \<Rightarrow> dma_action list \<Rightarrow> dma_world \<Rightarrow> ring_handle \<Rightarrow> dma_world \<Rightarrow> bool" where
  "ring_carries n a es w h v \<longleftrightarrow>
     (\<exists>taken r. pushed a es = taken @ dw_fifo v a \<and>
        map_option (fold (dma_store n) taken) (ring_arm n (storage n w h) (rh_base_addr h)) = Some r \<and>
        storage n v h = rg_words r \<and> handle_head n v h = ring_head n r)"

lemma site_carries:
  assumes "sites_ok dreq S w" "s \<in> set S" "dw_fifo w (rs_fifo s) = []" "dc_write_addr (dw_channels w (rs_ch s)) = rs_base s"
    "rh_base_addr h = rs_base s" "rh_ch_num h = rs_ch s" "rs_base s AND (of_nat (site_words s * 4) - 1) = 0"
    "dw_memory w0 = dw_memory w"
  shows "ring_carries (site_words s) (rs_fifo s) es w0 h (fold (dma_event dreq) es w)"
proof -
  let ?n = "site_words s" and ?v = "fold (dma_event dreq) es w"
  obtain taken where t: "pushed (rs_fifo s) es = taken @ dw_fifo ?v (rs_fifo s)"
    "site_ring ?v s = fold (dma_store ?n) taken (site_ring w s)"
    using sites_events [OF assms(1), of es] assms(2,3) by (auto simp: site_passes_def)
  have arm: "ring_arm ?n (storage ?n w0 h) (rh_base_addr h) = Some (site_ring w s)"
    using assms(4-8) by (simp add: ring_arm_def storage_def site_ring_def del: of_nat_mult)
  show ?thesis unfolding ring_carries_def
  proof (intro exI conjI)
    show "map_option (fold (dma_store ?n) taken) (ring_arm ?n (storage ?n w0 h) (rh_base_addr h)) = Some (site_ring ?v s)"
      by (simp add: arm t(2))
    show "storage ?n ?v h = rg_words (site_ring ?v s)" by (simp add: storage_def site_ring_def assms(5))
    show "handle_head ?n ?v h = ring_head ?n (site_ring ?v s)"
      by (simp add: handle_head_def ring_head_def site_ring_def assms(5,6) Let_def)
  qed (rule t(1))
qed

lemma disarmed_sites:
  assumes "sites_ok dreq (lpt_site rxf lpt # S) w"
  shows "sites_ok dreq S (lpt_disarm w)"
proof -
  have "rs_ch s \<noteq> DMA_CH_LPT_IN" if "s \<in> set S" for s
  proof -
    have "DMA_CH_LPT_IN \<notin> rs_ch ` set S" using assms by (simp add: sites_ok_def lpt_site_def)
    then show ?thesis using that by (metis image_eqI)
  qed
  then have "site_armed dreq (lpt_disarm w) s = site_armed dreq w s" if "s \<in> set S" for s
    using that by (simp add: site_armed_def lpt_disarm_def)
  with assms show ?thesis by (auto simp: sites_ok_def lpt_site_def lpt_disarm_def)
qed

text \<open>What no site owns, no event changes; a FIFO without a site only fills.\<close>

lemma sites_frame:
  assumes "sites_ok dreq S w" "\<forall>s \<in> set S. a \<notin> site_cells s" "\<forall>s \<in> set S. f \<noteq> rs_fifo s" "\<forall>s \<in> set S. ch \<noteq> rs_ch s"
  shows "dw_memory (fold (dma_event dreq) es w) a = dw_memory w a \<and>
    dw_fifo (fold (dma_event dreq) es w) f = dw_fifo w f @ pushed f es \<and>
    dw_channels (fold (dma_event dreq) es w) ch = dw_channels w ch"
  using assms(1)
proof (induction es arbitrary: w)
  case Nil
  then show ?case by (simp add: pushed_def)
next
  case (Cons e es)
  let ?w = "dma_event dreq e w"
  have "dw_memory ?w a = dw_memory w a \<and> dw_fifo ?w f = dw_fifo w f @ pushed f [e] \<and>
      dw_channels ?w ch = dw_channels w ch"
  proof (cases e)
    case (FifoPush b x)
    then show ?thesis by (simp add: pushed_def)
  next
    case (Beat c)
    consider s x xs where "s \<in> set S" "c = rs_ch s" "dw_fifo w (rs_fifo s) = x # xs" | "dma_beat dreq c w = w"
      using Cons.prems beat_starved beat_idle [of w c dreq] unfolding sites_ok_def by (metis imageE list.exhaust)
    then show ?thesis
    proof cases
      case 1
      have "site_armed dreq w s" using Cons.prems 1(1) by (simp add: sites_ok_def)
      note b = beat_own [OF this 1(3), folded 1(2)]
      show ?thesis using b(3) b(4) [of a] b(5) [of ch] assms(2-4) 1(1,2) by (simp add: Beat pushed_def)
    next
      case 2
      then show ?thesis by (simp add: Beat pushed_def)
    qed
  qed
  with Cons.IH [of ?w] sites_event [OF Cons.prems, of e] show ?case by (simp add: pushed_def)
qed

text \<open>
  C14. The rings are wired correctly.  With the documented request lines and storages that do not overlap,
  arming succeeds and afterwards, whatever the state machines push and however the transfers of the three
  channels interleave, each ring behaves as the ring of the model: what was pushed into its FIFO has gone
  into its storage in order or is still in the FIFO, the storage is what \<open>dma_store\<close> makes of it, wrapped
  at the ring's size, and the head the firmware computes from the write address is that ring's head.  After
  \<^verbatim>\<open>disarm\<close> nothing moves any more: the capture's words stay in the FIFO and its ring is left alone.
\<close>

theorem rings_carry_fifos:
  assumes "dma_wired dreq rxf" "rings_placed lpt kbd aux" "\<forall>ch. \<not> dc_en (dw_channels w ch)" "\<forall>a. dw_fifo w a = []"
  shows "\<exists>hl hk ha w'. arm_all rxf lpt kbd aux w = Some (hl, hk, ha, w') \<and>
    (\<forall>es. ring_carries LPT_RING_WORDS (rxf 0 0) es w hl (fold (dma_event dreq) es w') \<and>
      ring_carries PS2_RING_WORDS (rxf 1 0) es w hk (fold (dma_event dreq) es w') \<and>
      ring_carries PS2_RING_WORDS (rxf 1 2) es w ha (fold (dma_event dreq) es w') \<and>
      (\<forall>es'. let v = fold (dma_event dreq) es w'; u = fold (dma_event dreq) es' (lpt_disarm v) in
         dw_fifo u (rxf 0 0) = dw_fifo v (rxf 0 0) @ pushed (rxf 0 0) es' \<and>
         storage LPT_RING_WORDS u hl = storage LPT_RING_WORDS v hl \<and>
         handle_head LPT_RING_WORDS u hl = handle_head LPT_RING_WORDS v hl))"
proof -
  let ?S = "[lpt_site rxf lpt, kbd_site rxf kbd, aux_site rxf aux]"
  let ?hl = "\<lparr>rh_base_addr = lpt, rh_last_tail = 0, rh_ch_num = 3\<rparr>"
  let ?hk = "\<lparr>rh_base_addr = kbd, rh_last_tail = 0, rh_ch_num = 1\<rparr>"
  let ?ha = "\<lparr>rh_base_addr = aux, rh_last_tail = 0, rh_ch_num = 2\<rparr>"
  obtain w' where w': "arm_all rxf lpt kbd aux w = Some (?hl, ?hk, ?ha, w')" "sites_ok dreq ?S w'"
    "dw_fifo w' = dw_fifo w" "dw_memory w' = dw_memory w"
    "dc_write_addr (dw_channels w' 3) = lpt" "dc_write_addr (dw_channels w' 1) = kbd" "dc_write_addr (dw_channels w' 2) = aux"
    using arm_all_sites [OF assms(1-3)] by blast
  have carries: "ring_carries (site_words s) (rs_fifo s) es w h (fold (dma_event dreq) es w')"
    if s: "s \<in> set ?S" and h: "rh_base_addr h = rs_base s" "rh_ch_num h = rs_ch s" for s h es
  proof -
    have "dc_write_addr (dw_channels w' (rs_ch s)) = rs_base s"
      using s w'(5-7) by (auto simp: site_defs const_defs)
    moreover have "rs_base s AND (of_nat (site_words s * 4) - 1) = 0"
      using s assms(2) by (auto simp: site_defs const_defs site_words_def rings_placed_def mask_eq_exp_minus_1)
    ultimately show ?thesis
      using site_carries [OF w'(2) s, of h w es] h w'(3,4) assms(4) by simp
  qed
  have "ring_carries LPT_RING_WORDS (rxf 0 0) es w ?hl (fold (dma_event dreq) es w')"
    "ring_carries PS2_RING_WORDS (rxf 1 0) es w ?hk (fold (dma_event dreq) es w')"
    "ring_carries PS2_RING_WORDS (rxf 1 2) es w ?ha (fold (dma_event dreq) es w')" for es
    using carries [of "lpt_site rxf lpt" ?hl es] carries [of "kbd_site rxf kbd" ?hk es]
      carries [of "aux_site rxf aux" ?ha es]
    by (simp_all add: site_words_def site_defs const_defs)
  moreover have "let v = fold (dma_event dreq) es w'; u = fold (dma_event dreq) es' (lpt_disarm v) in
      dw_fifo u (rxf 0 0) = dw_fifo v (rxf 0 0) @ pushed (rxf 0 0) es' \<and>
      storage LPT_RING_WORDS u ?hl = storage LPT_RING_WORDS v ?hl \<and>
      handle_head LPT_RING_WORDS u ?hl = handle_head LPT_RING_WORDS v ?hl" for es es'
  proof -
    define v where "v = fold (dma_event dreq) es w'"
    define u where "u = fold (dma_event dreq) es' (lpt_disarm v)"
    have "sites_ok dreq ?S v" unfolding v_def using sites_events [OF w'(2)] by blast
    then have d: "sites_ok dreq [kbd_site rxf kbd, aux_site rxf aux] (lpt_disarm v)" by (rule disarmed_sites)
    have f: "\<forall>s \<in> set [kbd_site rxf kbd, aux_site rxf aux]. rxf 0 0 \<noteq> rs_fifo s"
      "\<forall>s \<in> set [kbd_site rxf kbd, aux_site rxf aux]. (3 :: nat) \<noteq> rs_ch s"
      using assms(1) by (auto simp: dma_wired_def site_defs const_defs)
    have c: "\<forall>s \<in> set [kbd_site rxf kbd, aux_site rxf aux]. lpt + of_nat (4 * i) \<notin> site_cells s" if "i < 256" for i
      using assms(2) that
      by (auto simp: rings_placed_def site_cells_def site_words_def site_defs const_defs simp del: of_nat_mult)
    note frame = sites_frame [OF d _ f, of _ es', folded u_def]
    have "dw_memory u (lpt + of_nat (4 * i)) = dw_memory v (lpt + of_nat (4 * i))" if "i < 256" for i
      using frame [OF c [OF that]] by (simp add: lpt_disarm_def)
    moreover have "dw_fifo u (rxf 0 0) = dw_fifo v (rxf 0 0) @ pushed (rxf 0 0) es'"
      "dc_write_addr (dw_channels u 3) = dc_write_addr (dw_channels v 3)"
      using frame [OF c [of 0]] by (simp_all add: lpt_disarm_def const_defs)
    ultimately show ?thesis
      unfolding Let_def v_def [symmetric] u_def [symmetric]
      by (simp add: storage_def handle_head_def const_defs del: of_nat_mult)
  qed
  ultimately show ?thesis using w'(1) by blast
qed

text \<open>The RP2350's map of the FIFOs, and three rings side by side.\<close>

definition rp2350_rxf :: "nat \<Rightarrow> nat \<Rightarrow> u32" where
  "rp2350_rxf p sm = 0x50200020 + of_nat (0x100000 * p + 4 * sm)"

definition rp2350_dreq :: "nat \<Rightarrow> u32" where
  "rp2350_dreq d = rp2350_rxf ((d - 4) div 8) ((d - 4) mod 8)"

lemma cells_apart:
  assumes "unat b + 4 * n \<le> unat b'" "unat b' + 4 * m \<le> 2 ^ 32" "i < n" "j < m"
  shows "b + of_nat (4 * i) \<noteq> (b' :: u32) + of_nat (4 * j)"
proof
  have u: "unat (c + of_nat (4 * k)) = unat c + 4 * k" if "unat c + 4 * k < 2 ^ 32" for c :: u32 and k
    using that by (simp add: unat_word_ariths(1) unat_of_nat del: of_nat_mult)
  assume "b + of_nat (4 * i) = b' + of_nat (4 * j)"
  then have "unat (b + of_nat (4 * i)) = unat (b' + of_nat (4 * j))" by (rule arg_cong)
  moreover have "unat b + 4 * i < unat b'" "unat b' + 4 * j < 2 ^ 32" using assms by linarith+
  ultimately show False using u [of b i] u [of b' j] by linarith
qed

lemma rp2350_wired: "dma_wired rp2350_dreq rp2350_rxf"
proof -
  have "rp2350_dreq (8 * p + sm + 4) = rp2350_rxf p sm" if "sm < 4" for p sm
    using that by (simp add: rp2350_dreq_def)
  then show ?thesis by (simp add: dma_wired_def) (simp add: rp2350_rxf_def)
qed

lemma rings_placed_example: "rings_placed 0x20000400 0x20001000 0x20002000"
  unfolding rings_placed_def
  by (intro conjI allI impI; (rule cells_apart [where n = 256 and m = 1024] cells_apart [where n = 1024 and m = 1024])?)
    (simp_all add: mask_eq_exp_minus_1)

definition dma_reset :: dma_world where
  "dma_reset = \<lparr>dw_channels = (\<lambda>ch. (ring_channel ch 0 0 0 0)\<lparr>dc_en := False\<rparr>), dw_memory = (\<lambda>_. 0),
     dw_fifo = (\<lambda>_. []), dw_stale = 0\<rparr>"

theorem rings_carry_fifos_witness:
  "\<exists>hl hk ha w'. arm_all rp2350_rxf 0x20000400 0x20001000 0x20002000 dma_reset = Some (hl, hk, ha, w') \<and>
     ring_carries PS2_RING_WORDS (rp2350_rxf 1 2) [FifoPush (rp2350_rxf 1 2) 9, Beat 3, Beat 2] dma_reset
       ha (fold (dma_event rp2350_dreq) [FifoPush (rp2350_rxf 1 2) 9, Beat 3, Beat 2] w')"
proof -
  have "\<forall>ch. \<not> dc_en (dw_channels dma_reset ch)" "\<forall>a. dw_fifo dma_reset a = []"
    by (simp_all add: dma_reset_def)
  from rings_carry_fifos [OF rp2350_wired rings_placed_example this] show ?thesis by blast
qed

end
