(* ===== verification/Wiring.thy ===== *)
theory Wiring
  imports Ps2Wire DmaRegs Phys
begin

text \<open>
  The wiring of the PS/2 side at boot: the constructors of the oversamplers and transmitters
  (\<^verbatim>\<open>firmware/src/ps2/oversampler.rs\<close>, \<^verbatim>\<open>aux_oversampler.rs\<close>, \<^verbatim>\<open>tx.rs\<close>) on the second PIO block, in the
  order and with the pins of \<^verbatim>\<open>firmware/src/main.rs\<close>, and the DMA channels they arm.  The lemmas show
  that the boot fits, that the lines idle released before they are driven, and that no pin has two
  drivers in any mode of the parallel port.
\<close>

subsection \<open>The block\<close>

record ps2_setup =
  ps_config :: sm_config
  ps_in :: "nat list"
  ps_set :: "nat list"
  ps_out :: "nat list"
  ps_clk_hz :: nat

text \<open>\<open>pb_glitch\<close> records a pin that became an output while its level was low: the wire would see a pulse.\<close>

record pio_block =
  pb_memory :: "pio_instr list list"
  pb_setup :: "nat \<Rightarrow> ps2_setup option"
  pb_out :: "nat \<Rightarrow> bool"
  pb_level :: "nat \<Rightarrow> bool"
  pb_glitch :: bool

definition pio_block_new :: pio_block where
  "pio_block_new =
     \<lparr>pb_memory = [], pb_setup = (\<lambda>_. None), pb_out = (\<lambda>_. False), pb_level = (\<lambda>_. False), pb_glitch = False\<rparr>"

definition pb_load_program :: "pio_instr list \<Rightarrow> pio_block \<Rightarrow> pio_block option" where
  "pb_load_program prg b =
     (if sum_list (map length (pb_memory b)) + length prg \<le> 32
      then Some (b\<lparr>pb_memory := prg # pb_memory b\<rparr>) else None)"

definition pb_set_pins :: "bool \<Rightarrow> nat list \<Rightarrow> pio_block \<Rightarrow> pio_block" where
  "pb_set_pins v gs b = b\<lparr>pb_level := (\<lambda>g. if g \<in> set gs then v else pb_level b g)\<rparr>"

definition pb_set_pin_dirs_out :: "nat list \<Rightarrow> pio_block \<Rightarrow> pio_block" where
  "pb_set_pin_dirs_out gs b =
     b\<lparr>pb_out := (\<lambda>g. g \<in> set gs \<or> pb_out b g),
       pb_glitch := pb_glitch b \<or> (\<exists>g \<in> set gs. \<not> pb_level b g)\<rparr>"

text \<open>The configuration's pin groups must be consecutive, or the library panics.\<close>

fun consecutive :: "nat list \<Rightarrow> bool" where
  "consecutive (g # h # gs) \<longleftrightarrow> h = Suc g \<and> consecutive (h # gs)"
| "consecutive _ \<longleftrightarrow> True"

definition pb_enable :: "nat \<Rightarrow> ps2_setup \<Rightarrow> pio_block \<Rightarrow> pio_block option" where
  "pb_enable sm su b =
     (if consecutive (ps_in su) \<and> consecutive (ps_set su) \<and> consecutive (ps_out su)
      then Some (b\<lparr>pb_setup := (pb_setup b)(sm := Some su)\<rparr>) else None)"

subsection \<open>The constructors\<close>

definition OVERSAMPLE_CLK_HZ :: nat where [const_defs]: "OVERSAMPLE_CLK_HZ = 1000000"
definition TX_CLK_HZ :: nat where [const_defs]: "TX_CLK_HZ = 100000"

definition kbd_oversampler_new ::
  "(nat \<Rightarrow> nat \<Rightarrow> u32) \<Rightarrow> u32 \<Rightarrow> nat \<Rightarrow> nat \<Rightarrow> nat \<Rightarrow> pio_block \<Rightarrow> dma_world \<Rightarrow> (ring_handle \<times> pio_block \<times> dma_world) option" where
  "kbd_oversampler_new rxf ring_kbd clk_in clk_pull data_in b w =
     do { b \<leftarrow> pb_load_program kbd_oversample_program b;
          b \<leftarrow> pb_enable 0 \<lparr>ps_config = kbd_oversample_config, ps_in = [clk_in, clk_pull, data_in], ps_set = [],
                            ps_out = [], ps_clk_hz = OVERSAMPLE_CLK_HZ\<rparr> b;
          (ring, w) \<leftarrow> arm_kbd rxf ring_kbd w;
          Some (ring, b, w) }"

definition aux_oversampler_new ::
  "(nat \<Rightarrow> nat \<Rightarrow> u32) \<Rightarrow> u32 \<Rightarrow> nat \<Rightarrow> nat \<Rightarrow> nat \<Rightarrow> nat \<Rightarrow> pio_block \<Rightarrow> dma_world \<Rightarrow> (ring_handle \<times> pio_block \<times> dma_world) option" where
  "aux_oversampler_new rxf ring_aux clk_in gap0 gap1 data_in b w =
     do { b \<leftarrow> pb_load_program aux_oversample_program b;
          b \<leftarrow> pb_enable 2 \<lparr>ps_config = aux_oversample_config, ps_in = [clk_in, gap0, gap1, data_in], ps_set = [],
                            ps_out = [], ps_clk_hz = OVERSAMPLE_CLK_HZ\<rparr> b;
          (ring, w) \<leftarrow> arm_aux rxf ring_aux w;
          Some (ring, b, w) }"

definition tx_new :: "nat \<Rightarrow> nat \<Rightarrow> nat \<Rightarrow> pio_block \<Rightarrow> pio_block option" where
  "tx_new sm clk_pull data_pull b =
     do { let b = pb_set_pins True [clk_pull, data_pull] b;
          let b = pb_set_pin_dirs_out [clk_pull, data_pull] b;
          b \<leftarrow> pb_load_program ps2_tx_program b;
          pb_enable sm \<lparr>ps_config = ps2_tx_config, ps_in = [], ps_set = [clk_pull], ps_out = [data_pull],
                        ps_clk_hz = TX_CLK_HZ\<rparr> b }"

text \<open>The PS/2 part of \<^verbatim>\<open>main\<close>: the handles to both rings, the block and the DMA channels.\<close>

definition boot_ps2 ::
  "(nat \<Rightarrow> nat \<Rightarrow> u32) \<Rightarrow> u32 \<Rightarrow> u32 \<Rightarrow> dma_world \<Rightarrow> (ring_handle \<times> ring_handle \<times> pio_block \<times> dma_world) option" where
  "boot_ps2 rxf ring_kbd ring_aux w =
     (let kbd_clk_in = 2; kbd_clk_pull = 3; kbd_data_in = 4; kbd_data_pull = 5;
          aux_clk_in = 6; aux_gap0 = 7; aux_gap1 = 8; aux_data_in = 9; aux_data_pull = 10; aux_clk_pull = 28
      in do { (kbd, b, w) \<leftarrow> kbd_oversampler_new rxf ring_kbd kbd_clk_in kbd_clk_pull kbd_data_in pio_block_new w;
              b \<leftarrow> tx_new 1 kbd_clk_pull kbd_data_pull b;
              (aux, b, w) \<leftarrow> aux_oversampler_new rxf ring_aux aux_clk_in aux_gap0 aux_gap1 aux_data_in b w;
              b \<leftarrow> tx_new 3 aux_clk_pull aux_data_pull b;
              Some (kbd, aux, b, w) })"

subsection \<open>The drivers of the pins\<close>

text \<open>The pins the parallel port's block may drive: the data lines, the status lines and the direction.\<close>

definition LPT_OUT_PINS :: "nat set" where
  "LPT_OUT_PINS = set GP_DATA \<union> set GP_STATUS \<union> {GP_DIR}"

definition lpt_drives_only :: "lpt_hardware \<Rightarrow> bool" where
  "lpt_drives_only hw \<longleftrightarrow> (\<forall>g. hw_pin_out hw g \<longrightarrow> g \<in> LPT_OUT_PINS)"

lemma builds_drive_only:
  "spp_build hw = Some (p, hw') \<Longrightarrow> lpt_drives_only hw \<Longrightarrow> lpt_drives_only hw'"
  "byte_build hw = Some (p, hw') \<Longrightarrow> lpt_drives_only hw \<Longrightarrow> lpt_drives_only hw'"
  "ecp_build hw = Some (e, hw') \<Longrightarrow> lpt_drives_only hw \<Longrightarrow> lpt_drives_only hw'"
  "epp_build hw = Some (y, hw') \<Longrightarrow> lpt_drives_only hw \<Longrightarrow> lpt_drives_only hw'"
  by (auto simp: lpt_drives_only_def LPT_OUT_PINS_def spp_build_def byte_build_def build_defs hw_step_defs
      const_defs Let_def split: Option.bind_splits if_splits)

lemma dismantles_drive_only:
  "phy_dismantle a hw = Some hw' \<Longrightarrow> lpt_drives_only hw \<Longrightarrow> lpt_drives_only hw'"
  by (cases a) (auto simp: lpt_drives_only_def phy_dismantle_def dismantle_defs hw_step_defs Let_def
      split: Option.bind_splits option.splits)

lemma switch_drives_only:
  assumes "switch_to m mx = Some (r, mx')" "lpt_drives_only (mx_hw mx)"
  shows "lpt_drives_only (mx_hw mx')"
proof -
  have t: "lpt_drives_only (set_transceiver_mode k hw) = lpt_drives_only hw" for k hw
    by (auto simp: set_transceiver_mode_def lpt_drives_only_def hw_step_defs Let_def split: lpt_mode.split)
  then have step: "phy_dismantle a hw = Some hw' \<Longrightarrow> lpt_drives_only hw \<Longrightarrow> lpt_drives_only (set_transceiver_mode k hw')"
    for a hw hw' k by (simp add: dismantles_drive_only)
  show ?thesis using assms
    by (cases m) (auto simp: switch_to_def Let_def split: Option.bind_splits intro: builds_drive_only [OF _ step])
qed

lemma switch_all_drives_only:
  "switch_all ms mx = Some (rs, mx') \<Longrightarrow> lpt_drives_only (mx_hw mx) \<Longrightarrow> lpt_drives_only (mx_hw mx')"
proof (induction ms arbitrary: mx rs)
  case (Cons m ms)
  then show ?case using switch_drives_only [of m mx] by (auto split: Option.bind_splits)
qed simp

lemma boot_drives_only:
  assumes "mux_new (hardware_new base bursts rx) = Some mx"
  shows "lpt_drives_only (mx_hw mx)"
proof -
  have "lpt_drives_only (hardware_new base bursts rx)"
    by (simp add: lpt_drives_only_def hardware_new_def hw_step_defs)
  then show ?thesis
    using assms builds_drive_only(1) by (auto simp: mux_new_def split: Option.bind_splits)
qed

text \<open>
  C33. The wiring of the PS/2 side.  Booted over rings that are aligned, the second PIO block takes its
  four programs; its outputs are the clock and data pull lines of the keyboard and the auxiliary wire and
  nothing else, each released before it became an output and released at the end; the keyboard's sampler
  sees the transmitter's clock pull as the middle one of its three pins, while the auxiliary one sees
  neither of its transmitter's lines; both rings stream on channels of their own and no other channel is
  touched.  And whatever modes the parallel port goes through, neither its block nor the CPU's pins nor
  the pixel's drives one of the same lines.
\<close>

theorem ps2_wiring:
  assumes "ring_kbd AND mask 12 = 0" "ring_aux AND mask 12 = 0"
  shows "\<exists>kbd aux b w'. boot_ps2 rxf ring_kbd ring_aux w = Some (kbd, aux, b, w') \<and>
    sum_list (map length (pb_memory b)) \<le> 32 \<and> \<not> pb_glitch b \<and>
    {g. pb_out b g} = {3, 5, 10, 28} \<and> (\<forall>g. pb_out b g \<longrightarrow> pb_level b g) \<and>
    (\<exists>s0 s1 s2 s3. pb_setup b = [0 \<mapsto> s0, 1 \<mapsto> s1, 2 \<mapsto> s2, 3 \<mapsto> s3] \<and>
       ps_in s0 ! 1 = hd (ps_set s1) \<and> length (ps_in s0) = 3 \<and> set (ps_in s2) \<inter> set (ps_set s3 @ ps_out s3) = {}) \<and>
    dw_channels w' = (dw_channels w)(1 := ring_channel 1 12 12 (rxf 1 0) ring_kbd, 2 := ring_channel 2 14 12 (rxf 1 2) ring_aux) \<and>
    (\<forall>base bursts rx mx0 ms rs mx g. mux_new (hardware_new base bursts rx) = Some mx0 \<and> switch_all ms mx0 = Some (rs, mx) \<and>
       pb_out b g \<longrightarrow> \<not> hw_pin_out (mx_hw mx) g \<and> g \<notin> {0, 21, 29})"
proof -
  define s0 where "s0 = \<lparr>ps_config = kbd_oversample_config, ps_in = [2, 3, 4], ps_set = [], ps_out = [], ps_clk_hz = OVERSAMPLE_CLK_HZ\<rparr>"
  define s1 where "s1 = \<lparr>ps_config = ps2_tx_config, ps_in = [], ps_set = [3], ps_out = [5], ps_clk_hz = TX_CLK_HZ\<rparr>"
  define s2 where "s2 = \<lparr>ps_config = aux_oversample_config, ps_in = [6, 7, 8, 9], ps_set = [], ps_out = [], ps_clk_hz = OVERSAMPLE_CLK_HZ\<rparr>"
  define s3 where "s3 = \<lparr>ps_config = ps2_tx_config, ps_in = [], ps_set = [28], ps_out = [10], ps_clk_hz = TX_CLK_HZ\<rparr>"
  define b where "b = \<lparr>pb_memory = [ps2_tx_program, aux_oversample_program, ps2_tx_program, kbd_oversample_program],
    pb_setup = [0 \<mapsto> s0, 1 \<mapsto> s1, 2 \<mapsto> s2, 3 \<mapsto> s3], pb_out = (\<lambda>g. g \<in> {3, 5, 10, 28}),
    pb_level = (\<lambda>g. g \<in> {3, 5, 10, 28}), pb_glitch = False\<rparr>"
  define w' where "w' = w\<lparr>dw_channels := (dw_channels w)
    (1 := ring_channel 1 12 12 (rxf 1 0) ring_kbd, 2 := ring_channel 2 14 12 (rxf 1 2) ring_aux)\<rparr>"
  have m: "(4095 :: u32) = mask 12" by (simp add: mask_eq_exp_minus_1)
  note defs = pb_load_program_def pb_enable_def pb_set_pins_def pb_set_pin_dirs_out_def arm_kbd_def arm_aux_def
    ps2_arm_def write_ring_channel_def
  have r: "boot_ps2 rxf ring_kbd ring_aux w = Some (\<lparr>rh_base_addr = ring_kbd, rh_last_tail = 0, rh_ch_num = 1\<rparr>,
      \<lparr>rh_base_addr = ring_aux, rh_last_tail = 0, rh_ch_num = 2\<rparr>, b, w')"
    using assms
    by (simp add: boot_ps2_def kbd_oversampler_new_def aux_oversampler_new_def tx_new_def defs pio_block_new_def
        b_def s0_def s1_def s2_def s3_def w'_def program_defs const_defs m fun_eq_iff Let_def) auto
  have drive: "\<not> hw_pin_out (mx_hw mx) g \<and> g \<notin> {0, 21, 29}"
    if "mux_new (hardware_new base bursts rx) = Some mx0" "switch_all ms mx0 = Some (rs, mx)" "pb_out b g"
    for base bursts rx mx0 ms rs mx g
    using switch_all_drives_only [OF that(2) boot_drives_only [OF that(1)]] that(3)
    by (auto simp: lpt_drives_only_def LPT_OUT_PINS_def b_def const_defs)
  have setups: "\<exists>s0 s1 s2 s3. pb_setup b = [0 \<mapsto> s0, 1 \<mapsto> s1, 2 \<mapsto> s2, 3 \<mapsto> s3] \<and>
      ps_in s0 ! 1 = hd (ps_set s1) \<and> length (ps_in s0) = 3 \<and> set (ps_in s2) \<inter> set (ps_set s3 @ ps_out s3) = {}"
    by (rule exI [of _ s0], rule exI [of _ s1], rule exI [of _ s2], rule exI [of _ s3])
      (simp add: b_def, simp add: s0_def s1_def s2_def s3_def)
  show ?thesis
  proof (rule exI, rule exI, rule exI, rule exI, intro conjI)
    show "boot_ps2 rxf ring_kbd ring_aux w = Some (\<lparr>rh_base_addr = ring_kbd, rh_last_tail = 0, rh_ch_num = 1\<rparr>,
      \<lparr>rh_base_addr = ring_aux, rh_last_tail = 0, rh_ch_num = 2\<rparr>, b, w')" by (rule r)
    show "\<forall>base bursts rx mx0 ms rs mx g. mux_new (hardware_new base bursts rx) = Some mx0 \<and>
        switch_all ms mx0 = Some (rs, mx) \<and> pb_out b g \<longrightarrow> \<not> hw_pin_out (mx_hw mx) g \<and> g \<notin> {0, 21, 29}"
      using drive by blast
    show "\<exists>s0 s1 s2 s3. pb_setup b = [0 \<mapsto> s0, 1 \<mapsto> s1, 2 \<mapsto> s2, 3 \<mapsto> s3] \<and>
      ps_in s0 ! 1 = hd (ps_set s1) \<and> length (ps_in s0) = 3 \<and> set (ps_in s2) \<inter> set (ps_set s3 @ ps_out s3) = {}"
      by (rule setups)
    show "dw_channels w' = (dw_channels w)
        (1 := ring_channel 1 12 12 (rxf 1 0) ring_kbd, 2 := ring_channel 2 14 12 (rxf 1 2) ring_aux)"
      by (simp add: w'_def)
  qed (auto simp: b_def program_defs)
qed

theorem ps2_wiring_witness:
  "\<exists>kbd aux b w'. boot_ps2 rp2350_rxf 0x20001000 0x20002000 dma_reset = Some (kbd, aux, b, w') \<and>
    {g. pb_out b g} = {3, 5, 10, 28} \<and>
    dw_channels w' = (dw_channels dma_reset)
      (1 := ring_channel 1 12 12 0x50300020 0x20001000, 2 := ring_channel 2 14 12 0x50300028 0x20002000)"
proof -
  have "(0x20001000 :: u32) AND mask 12 = 0" "(0x20002000 :: u32) AND mask 12 = 0"
    by (simp_all add: mask_eq_exp_minus_1)
  from ps2_wiring [OF this, of rp2350_rxf dma_reset] show ?thesis
    by (auto simp: rp2350_rxf_def)
qed

end
