(* ===== verification/ControlTypes.thy ===== *)
theory ControlTypes
  imports Control
begin

text \<open>
  The type invariant of the control interface: what may stand in its line buffer, in the three queues it
  fills and in the packets it writes, whatever bytes the host sends and however the consumers of the
  queues are scheduled.  Every handler keeps it; the last section states it over the runs of the task
  together with the tasks that empty its queues.
\<close>

definition line_typed :: "u8 list \<Rightarrow> bool" where
  "line_typed l \<longleftrightarrow> length (utf8 l) \<le> LINE_CAP \<and> 0x0D \<notin> set l \<and> 0x0A \<notin> set l"

definition inject_typed :: "u8 list list \<Rightarrow> bool" where
  "inject_typed q \<longleftrightarrow> length q \<le> INJECT_RAW_DEPTH \<and> (\<forall>bs \<in> set q. bs \<noteq> [] \<and> length bs \<le> INJECT_RAW_MAX)"

definition bulk_typed :: "u8 list list \<Rightarrow> bool" where
  "bulk_typed q \<longleftrightarrow> length q \<le> BULK_OUT_DEPTH \<and>
     (\<forall>f \<in> set q. length f \<le> BULK_FRAME_MAX \<and> (\<exists>n p. parse_frame f = Some (0xFF, n, p)))"

definition control_typed :: "control \<Rightarrow> bool" where
  "control_typed s \<longleftrightarrow> line_typed (ct_line s) \<and> inject_typed (ct_inject s) \<and>
     length (ct_mouse s) \<le> MOUSE_CMD_DEPTH \<and> bulk_typed (ct_bulk s) \<and>
     (\<forall>p \<in> set (ep_sent (ct_ep s)). length p \<le> 64)"

subsection \<open>Packets\<close>

definition packets_small :: "endpoint \<Rightarrow> bool" where
  "packets_small e \<longleftrightarrow> (\<forall>p \<in> set (ep_sent e). length p \<le> 64)"

lemma chunks_small: "p \<in> set (chunks 64 m) \<Longrightarrow> length p \<le> 64"
proof (induction "length m" arbitrary: m rule: less_induct)
  case less
  then have "m \<noteq> []" by (auto simp: chunks_step)
  then have "p = take 64 m \<or> p \<in> set (chunks 64 (drop 64 m))" "length (drop 64 m) < length m"
    using less.prems chunks_step [of m 64] by auto
  then show ?case using less.hyps [of "drop 64 m"] by auto
qed

lemma write_packet_small: "packets_small e \<Longrightarrow> length p \<le> 64 \<Longrightarrow> packets_small (snd (write_packet p e))"
  by (auto simp: packets_small_def write_packet_def split: list.splits)

lemma write_all_small:
  "packets_small e \<Longrightarrow> \<forall>p \<in> set ps. length p \<le> 64 \<Longrightarrow> packets_small (snd (write_all ps e))"
proof (induction ps arbitrary: e)
  case (Cons p ps)
  then show ?case using write_packet_small [of e p] by (simp add: case_prod_beta Let_def)
qed simp

lemma write_chunks_small: "packets_small e \<Longrightarrow> packets_small (snd (write_chunks m e))"
  using write_all_small [of e "chunks 64 m"] chunks_small
  by (auto simp: write_chunks_def case_prod_beta Let_def intro!: write_packet_small)

lemma control_typed_unfold:
  "control_typed s \<longleftrightarrow> line_typed (ct_line s) \<and> inject_typed (ct_inject s) \<and>
     length (ct_mouse s) \<le> MOUSE_CMD_DEPTH \<and> bulk_typed (ct_bulk s) \<and> packets_small (ct_ep s)"
  by (simp add: control_typed_def packets_small_def)

lemma send_line_typed [intro]: "control_typed s \<Longrightarrow> control_typed (send_line l s)"
  by (simp add: control_typed_unfold send_line_def send_bytes_def write_chunks_small)

lemma send_fmt_typed [intro]: "control_typed s \<Longrightarrow> control_typed (send_fmt cap ps s)"
  by (auto simp: send_fmt_def)

lemma send_stats_typed [intro]: "control_typed s \<Longrightarrow> control_typed (send_stats s)"
  by (simp add: control_typed_unfold send_stats_def send_bytes_def write_chunks_small)

subsection \<open>The handlers\<close>

lemma inject_bytes_bound:
  "inject_bytes toks bs = Inr r \<Longrightarrow> length bs \<le> INJECT_RAW_MAX \<Longrightarrow> length r \<le> INJECT_RAW_MAX"
  by (induction toks arbitrary: bs) (auto split: option.splits if_splits)

lemma handle_inject_typed: "control_typed s \<Longrightarrow> control_typed (handle_inject parts s)"
  using inject_bytes_bound [of parts "[]"]
  by (auto simp: handle_inject_def Let_def split: sum.splits intro!: send_line_typed send_fmt_typed)
    (auto simp: control_typed_unfold inject_typed_def)

lemma mouse_try_send_typed [intro]: "control_typed s \<Longrightarrow> control_typed (mouse_try_send cmd s)"
  by (auto simp: mouse_try_send_def intro!: send_line_typed) (simp add: control_typed_unfold)

lemma handle_mouse_typed:
  "control_typed s \<Longrightarrow> control_typed (handle_mouse_move parts s)"
  "control_typed s \<Longrightarrow> control_typed (handle_mouse_button parts s)"
  by (auto simp: handle_mouse_move_def handle_mouse_button_def Let_def split: option.split)

lemma bulk_frame_typed:
  assumes "bulk_build_frame BulkTest q p = Inr f"
  shows "length f \<le> BULK_FRAME_MAX \<and> parse_frame f = Some (0xFF, q, p)"
  using assms parse_built [of p BulkTest q]
  by (auto simp: bulk_build_frame_eq kind_code_def const_defs BULK_MAGIC_def split: if_splits)

lemma handle_bulk_test_typed:
  assumes "control_typed s"
  shows "control_typed (handle_bulk_test line s)"
proof -
  let ?r = "trim_start (case strip_prefix (ascii ''bulk_test'') line of Some r \<Rightarrow> r | None \<Rightarrow> [])"
  define p where "p = (if ?r = [] then ascii ''hello'' else utf8 ?r)"
  define u where "u = s\<lparr>ct_bulk_seq := ct_bulk_seq s + 1\<rparr>"
  have u: "control_typed u" using assms by (simp add: control_typed_unfold u_def)
  show ?thesis
  proof (cases "bulk_build_frame BulkTest (ct_bulk_seq s) p")
    case (Inl e)
    then have "handle_bulk_test line s = send_line (ascii ''err bulk_test payload too long'') u"
      unfolding handle_bulk_test_def Let_def next_seq_def split p_def u_def by simp
    then show ?thesis using u by (simp add: send_line_typed)
  next
    case (Inr f)
    then have h: "handle_bulk_test line s =
        (if length (ct_bulk s) < BULK_OUT_DEPTH
         then send_fmt 48 [ascii ''ok bulk queued '', fmt_dec (length f), ascii ''B''] (u\<lparr>ct_bulk := ct_bulk s @ [f]\<rparr>)
         else send_line (ascii ''err bulk queue full'') u)"
      unfolding handle_bulk_test_def Let_def next_seq_def split p_def u_def
      by (simp add: bulk_try_send_def)
    have "control_typed (u\<lparr>ct_bulk := ct_bulk s @ [f]\<rparr>)" if "length (ct_bulk s) < BULK_OUT_DEPTH"
      using u that bulk_frame_typed [OF Inr] by (auto simp: control_typed_unfold u_def bulk_typed_def)
    then show ?thesis using u by (auto simp: h)
  qed
qed

lemma dispatch_typed: "control_typed s \<Longrightarrow> control_typed (dispatch line s)"
  unfolding dispatch_def Let_def
  by (auto intro: handle_inject_typed handle_mouse_typed handle_bulk_test_typed split: if_splits)

lemma line_typed_simps: "line_typed []"
  "b \<noteq> 0x0D \<Longrightarrow> b \<noteq> 0x0A \<Longrightarrow> length (utf8 l) + length (utf8_char b) \<le> LINE_CAP \<Longrightarrow> line_typed l \<Longrightarrow> line_typed (l @ [b])"
  by (auto simp: line_typed_def utf8_def)

lemma clear_line_typed: "control_typed s \<Longrightarrow> control_typed (s\<lparr>ct_line := []\<rparr>)"
  by (simp add: control_typed_unfold line_typed_simps)

lemma control_byte_typed:
  assumes "control_typed s"
  shows "control_typed (control_byte b s)"
proof -
  have "control_typed ((dispatch (ct_line s) s)\<lparr>ct_line := []\<rparr>)"
    "control_typed ((send_line (ascii ''err line too long'') s)\<lparr>ct_line := []\<rparr>)"
    using assms by (auto intro!: clear_line_typed dispatch_typed)
  moreover have "control_typed (s\<lparr>ct_line := ct_line s @ [b]\<rparr>)"
    if "b \<noteq> 0x0D" "b \<noteq> 0x0A" "length (utf8 (ct_line s)) + length (utf8_char b) \<le> LINE_CAP"
    using assms that by (simp add: control_typed_unfold line_typed_simps)
  ultimately show ?thesis using assms by (auto simp: control_byte_def)
qed

lemma control_packet_typed: "control_typed s \<Longrightarrow> control_typed (control_packet bytes s)"
  by (induction bytes arbitrary: s) (simp_all add: control_packet_def control_byte_typed)

lemma control_connect_typed: "control_typed s \<Longrightarrow> control_typed (control_connect s)"
  unfolding control_connect_def by (rule send_line_typed) (simp add: control_typed_unfold line_typed_def utf8_def)

subsection \<open>The task among the others\<close>

text \<open>
  What can happen to the state between two of its turns: a packet or a connection of the host, a consumer
  taking the oldest entry of its queue, the counters and the time moving on, and the link failing or not.
\<close>

inductive control_step :: "control \<Rightarrow> control \<Rightarrow> bool" where
  packet: "control_step s (control_packet bytes s)"
| connect: "control_step s (control_connect s)"
| inject_taken: "ct_inject s = bs # q \<Longrightarrow> control_step s (s\<lparr>ct_inject := q\<rparr>)"
| mouse_taken: "ct_mouse s = cmd # q \<Longrightarrow> control_step s (s\<lparr>ct_mouse := q\<rparr>)"
| bulk_taken: "ct_bulk s = f # q \<Longrightarrow> control_step s (s\<lparr>ct_bulk := q\<rparr>)"
| counted: "control_step s (s\<lparr>ct_kbd := k, ct_self_tx := n, ct_aux := a, ct_event_drops := d, ct_uptime_ms := t\<rparr>)"
| link: "control_step s (s\<lparr>ct_ep := (ct_ep s)\<lparr>ep_faults := fs\<rparr>\<rparr>)"

definition control_fresh :: "control \<Rightarrow> bool" where
  "control_fresh s \<longleftrightarrow> ct_line s = [] \<and> ct_inject s = [] \<and> ct_mouse s = [] \<and> ct_bulk s = [] \<and> ep_sent (ct_ep s) = []"

lemma control_fresh_typed: "control_fresh s \<Longrightarrow> control_typed s"
  by (simp add: control_fresh_def control_typed_unfold line_typed_simps inject_typed_def bulk_typed_def packets_small_def)

lemma control_step_typed: "control_step s t \<Longrightarrow> control_typed s \<Longrightarrow> control_typed t"
  by (induction rule: control_step.induct)
    (auto simp: control_packet_typed control_connect_typed,
     auto simp: control_typed_unfold inject_typed_def bulk_typed_def packets_small_def)

text \<open>
  C15. The control interface is typed.  From a fresh start, whatever bytes the host sends in whatever
  packets, however often it connects, whenever the injectors and the bulk writer take from their queues
  and whichever writes fail: the line never outgrows its 128 bytes of UTF-8 and holds no line end; the
  injector's queue has at most four entries of one to 32 bytes, the mouse's at most eight commands, the
  bulk queue at most four frames, each of at most 512 bytes and one the host's parser accepts; and every
  packet written fits the endpoint.
\<close>

theorem control_state_typed:
  assumes "control_fresh s0" "control_step\<^sup>*\<^sup>* s0 s"
  shows "control_typed s"
  using assms(2) by (induction rule: rtranclp_induct) (auto intro: control_fresh_typed [OF assms(1)] control_step_typed)

definition control_boot :: control where
  "control_boot =
     \<lparr>ct_line = [], ct_ep = \<lparr>ep_sent = [], ep_faults = []\<rparr>, ct_inject = [], ct_mouse = [], ct_bulk = [],
      ct_bulk_seq = 0, ct_kbd = counters_new, ct_self_tx = 0, ct_aux = counters_new, ct_event_drops = 0,
      ct_uptime_ms = 0\<rparr>"

theorem control_state_typed_witness:
  "control_typed (control_packet (replicate 300 0x41) (control_connect control_boot))"
proof (rule control_state_typed)
  show "control_fresh control_boot" by (simp add: control_fresh_def control_boot_def)
  show "control_step\<^sup>*\<^sup>* control_boot (control_packet (replicate 300 0x41) (control_connect control_boot))"
    using control_step.connect control_step.packet
    by (rule rtranclp.rtrancl_into_rtrancl [OF r_into_rtranclp])
qed

end
