(* ===== verification/Operator.thy ===== *)
theory Operator
  imports Client ControlTypes
begin

text \<open>
  The operator's commands end to end: mouse and bulk commands typed as lines into the control interface,
  through the queues, to what the vintage host reads on its mouse port and the laptop on the bulk
  interface, with the consumers running whenever they like.
\<close>

subsection \<open>Lines of words\<close>

definition command_words :: "u8 list list \<Rightarrow> bool" where
  "command_words ws \<longleftrightarrow> ws \<noteq> [] \<and> (\<forall>w \<in> set ws. wordy w \<and> (\<forall>c \<in> set w. c < 0x80)) \<and> length (join ws) \<le> 128"

lemma command_line:
  assumes "command_words ws" "ct_line s = []"
  shows "control_packet (join ws @ [0x0D]) s = (dispatch (join ws) (s\<lparr>ct_line := join ws\<rparr>))\<lparr>ct_line := []\<rparr>"
    "split_ascii_whitespace (trim (join ws)) = ws"
proof -
  obtain w vs where ws: "ws = w # vs" using assms(1) by (cases ws) (auto simp: command_words_def)
  have j: "join ws = w @ concat (map ((#) 0x20) vs)" by (simp add: ws join_words)
  have t: "\<forall>x \<in> set (w # vs). wordy x" using assms(1) by (simp add: command_words_def ws)
  show "split_ascii_whitespace (trim (join ws)) = ws"
    unfolding j using trim_words [OF t] split_ascii_words [OF t] ws by simp
  have "set (join ws) \<subseteq> insert 0x20 (\<Union> (set ` set ws))" unfolding j by (auto simp: ws)
  then have "\<forall>c \<in> set (join ws). c \<noteq> 0x0D \<and> c \<noteq> 0x0A \<and> c < 0x80"
    using assms(1) by (fastforce simp: command_words_def wordy_def is_whitespace_def)
  moreover have "join ws \<noteq> []" using t by (auto simp: j wordy_def)
  ultimately show "control_packet (join ws @ [0x0D]) s = (dispatch (join ws) (s\<lparr>ct_line := join ws\<rparr>))\<lparr>ct_line := []\<rparr>"
    using assms by (intro control_line) (auto simp: command_words_def)
qed

subsection \<open>Mouse commands\<close>

definition fmt_i16 :: "u16 \<Rightarrow> u8 list" where
  "fmt_i16 d = (if sint d < 0 then 0x2D # fmt_dec (nat (- sint d)) else fmt_dec (nat (sint d)))"

lemma fmt_i16_facts:
  "wordy (fmt_i16 d)" "\<forall>c \<in> set (fmt_i16 d). c < 0x80" "length (fmt_i16 d) \<le> 6" "parse_i16 (fmt_i16 d) = Some d"
proof -
  have r: "- 32768 \<le> sint d" "sint d < 32768"
    using sint_greater_eq [of d] sint_less [of d] by simp_all
  have len: "length (fmt_dec n) \<le> 5" if "n \<le> 32768" for n
    using that by (intro length_fmt_dec) simp_all
  have "nat (- sint d) \<le> 32768" "nat (sint d) \<le> 32768" using r by linarith+
  then show "length (fmt_i16 d) \<le> 6"
    using len [of "nat (- sint d)"] len [of "nat (sint d)"] by (simp add: fmt_i16_def)
  show "wordy (fmt_i16 d)"
    using wordy_simps(2) by (auto simp: fmt_i16_def wordy_def is_whitespace_def)
  show "\<forall>c \<in> set (fmt_i16 d). c < 0x80"
  proof -
    have "\<forall>c \<in> set (fmt_dec n). c < 0x80" for n using fmt_dec_digits [of n] by auto
    then show ?thesis by (simp add: fmt_i16_def)
  qed
  have "hd (fmt_dec n) \<noteq> 0x2D" for n
  proof -
    have "hd (fmt_dec n) \<in> {0x30, 0x31, 0x32, 0x33, 0x34, 0x35, 0x36, 0x37, 0x38, 0x39}"
      using fmt_dec_first(1) [of n] fmt_dec_digits [of n] hd_in_set by blast
    then show ?thesis by auto
  qed
  moreover have "fmt_dec n \<noteq> [0x2B]" for n by (metis fmt_dec_first(2) list.sel(1))
  ultimately show "parse_i16 (fmt_i16 d) = Some d"
    using r fmt_dec_first(1,2) digits_fmt_dec
    by (auto simp: fmt_i16_def parse_i16_def parse_nat_def)
qed

definition btn_word :: "mouse_btn \<Rightarrow> u8 list" where
  "btn_word b = (case b of BtnLeft \<Rightarrow> ascii ''l'' | BtnRight \<Rightarrow> ascii ''r'' | BtnMiddle \<Rightarrow> ascii ''m'')"

primrec mouse_words :: "mouse_cmd \<Rightarrow> u8 list list" where
  "mouse_words (Move dx dy) = [ascii ''mouse_move'', fmt_i16 dx, fmt_i16 dy]"
| "mouse_words (Button b down) = [ascii ''mouse_button'', btn_word b, if down then ascii ''down'' else ascii ''up'']"

definition mouse_line :: "mouse_cmd \<Rightarrow> u8 list" where
  "mouse_line cmd = join (mouse_words cmd) @ [0x0D]"

lemma mouse_words_ok: "command_words (mouse_words cmd)"
proof (cases cmd)
  case (Move dx dy)
  then show ?thesis
    using fmt_i16_facts [of dx] fmt_i16_facts [of dy]
    by (auto simp: command_words_def wordy_def is_whitespace_def)
next
  case (Button b down)
  then show ?thesis
    by (cases b; cases down) (simp_all add: command_words_def wordy_def is_whitespace_def btn_word_def)
qed

lemma dispatch_mouse:
  assumes "split_ascii_whitespace (trim l) = mouse_words cmd"
  shows "dispatch l s = mouse_try_send cmd s"
proof (cases cmd)
  case (Move dx dy)
  have "dispatch l s = handle_mouse_move [fmt_i16 dx, fmt_i16 dy] s"
    unfolding dispatch_def Let_def assms Move mouse_words.simps list.case list.sel by simp
  then show ?thesis by (simp add: Move handle_mouse_move_def next_token_def fmt_i16_facts(4))
next
  case (Button b down)
  have "dispatch l s = handle_mouse_button [btn_word b, if down then ascii ''down'' else ascii ''up''] s"
    unfolding dispatch_def Let_def assms Button mouse_words.simps list.case list.sel by simp
  then show ?thesis
    by (cases b; cases down) (simp_all add: Button handle_mouse_button_def next_token_def parse_btn_def btn_word_def)
qed

text \<open>A command line is acknowledged and queued, or refused when eight commands wait; nothing else changes.\<close>

lemma mouse_line_queues:
  fixes s :: control and cmd :: mouse_cmd
  assumes "ct_line s = []" "ep_faults (ct_ep s) = []"
  defines "t \<equiv> control_packet (mouse_line cmd) s"
  shows "ct_line t = []" "ep_faults (ct_ep t) = []"
    "ct_mouse t = (if length (ct_mouse s) < 8 then ct_mouse s @ [cmd] else ct_mouse s)"
    "answers (if length (ct_mouse s) < 8 then ascii ''ok'' @ [0x0A] else ascii ''err mouse queue full'' @ [0x0A]) s t"
proof -
  let ?l = "join (mouse_words cmd)"
  note line = command_line [OF mouse_words_ok, of s cmd]
  have t: "t = (mouse_try_send cmd (s\<lparr>ct_line := ?l\<rparr>))\<lparr>ct_line := []\<rparr>"
    using line(1) [OF assms(1)] dispatch_mouse [OF line(2) [OF assms(1)]] by (simp add: t_def mouse_line_def)
  have m: "ct_mouse (send_line l u) = ct_mouse u" for l u by (simp add: send_line_def send_bytes_def)
  show "ct_line t = []" by (simp add: t)
  show "ct_mouse t = (if length (ct_mouse s) < 8 then ct_mouse s @ [cmd] else ct_mouse s)"
    by (simp add: t mouse_try_send_def m const_defs)
  show a: "answers (if length (ct_mouse s) < 8 then ascii ''ok'' @ [0x0A] else ascii ''err mouse queue full'' @ [0x0A]) s t"
    using send_line_answers [of "s\<lparr>ct_line := ?l, ct_mouse := ct_mouse s @ [cmd]\<rparr>" "ascii ''ok''"]
      send_line_answers [of "s\<lparr>ct_line := ?l\<rparr>" "ascii ''err mouse queue full''"] assms(2)
    by (simp add: t mouse_try_send_def answers_def const_defs del: ascii_simps)
  show "ep_faults (ct_ep t) = []" using a by (simp add: answers_def)
qed

subsection \<open>Commands and the mouse task\<close>

text \<open>The operator sends a line, or the mouse task takes a command and drives the wire.\<close>

datatype mouse_event = OperatorLine mouse_cmd | MouseTurn

definition mouse_turn :: "control \<times> u8 \<times> tx_op list \<Rightarrow> control \<times> u8 \<times> tx_op list" where
  "mouse_turn x =
     (case x of (s, buttons, ops) \<Rightarrow>
        (case ct_mouse s of
           [] \<Rightarrow> x
         | cmd # q \<Rightarrow> let (buttons, new) = mouse_step cmd buttons in (s\<lparr>ct_mouse := q\<rparr>, buttons, ops @ new)))"

primrec operator_event :: "mouse_event \<Rightarrow> control \<times> u8 \<times> tx_op list \<Rightarrow> control \<times> u8 \<times> tx_op list" where
  "operator_event (OperatorLine cmd) x = (case x of (s, r) \<Rightarrow> (control_packet (mouse_line cmd) s, r))"
| "operator_event MouseTurn x = mouse_turn x"

text \<open>The specification: with \<open>n\<close> commands waiting, which lines are accepted, and what they are answered.\<close>

fun operator_spec :: "mouse_event list \<Rightarrow> nat \<Rightarrow> mouse_cmd list \<times> u8 list" where
  "operator_spec [] n = ([], [])"
| "operator_spec (MouseTurn # es) n = operator_spec es (n - 1)"
| "operator_spec (OperatorLine cmd # es) n =
     (if n < 8 then (let (cs, rs) = operator_spec es (n + 1) in (cmd # cs, ascii ''ok'' @ [0x0A] @ rs))
      else (let (cs, rs) = operator_spec es n in (cs, ascii ''err mouse queue full'' @ [0x0A] @ rs)))"

lemma mouse_run_append:
  "mouse_run (xs @ ys) b = (fst (mouse_run ys (fst (mouse_run xs b))), snd (mouse_run xs b) @ snd (mouse_run ys (fst (mouse_run xs b))))"
  by (induction xs arbitrary: b) (simp_all add: case_prod_beta Let_def)

lemma operator_run:
  assumes "ct_line s = []" "ep_faults (ct_ep s) = []"
  shows "let (cs, rs) = operator_spec es (length (ct_mouse s)); (t, b, ops') = fold operator_event es (s, buttons, ops) in
    answers rs s t \<and> ops' @ snd (mouse_run (ct_mouse t) b) = ops @ snd (mouse_run (ct_mouse s @ cs) buttons)"
  using assms
proof (induction es arbitrary: s buttons ops)
  case Nil
  then show ?case by (simp add: answers_def)
next
  case (Cons e es)
  show ?case
  proof (cases e)
    case MouseTurn
    show ?thesis
    proof (cases "ct_mouse s")
      case Nil
      then show ?thesis using Cons.IH [OF Cons.prems] MouseTurn by (simp add: mouse_turn_def)
    next
      case (Cons cmd q)
      obtain b new where m: "mouse_step cmd buttons = (b, new)" by fastforce
      from Cons.IH [of "s\<lparr>ct_mouse := q\<rparr>" b "ops @ new"] Cons.prems Cons show ?thesis
        by (simp add: MouseTurn mouse_turn_def m case_prod_beta Let_def answers_def)
    qed
  next
    case (OperatorLine cmd)
    let ?t = "control_packet (mouse_line cmd) s"
    note q = mouse_line_queues [OF Cons.prems, of cmd]
    from Cons.IH [OF q(1,2), of buttons ops] q(3,4) show ?thesis
      by (auto simp: OperatorLine answers_def case_prod_beta Let_def split: if_splits)
  qed
qed

text \<open>
  C21. Mouse commands end to end.  The operator types any sequence of mouse commands as lines into the
  control interface while the mouse task takes from its queue whenever it likes.  Every line is answered
  \<^verbatim>\<open>ok\<close> if fewer than eight commands wait and is refused otherwise; and the host that reads the
  auxiliary channel three bytes at a time gets, once the queue is worked off, exactly the accepted
  commands, in order: the movements clamped to nine bits, each with the buttons held at that point.
\<close>

theorem operator_moves_mouse:
  assumes "ct_line s = []" "ep_faults (ct_ep s) = []" "ct_mouse s = []"
  shows "let (cs, rs) = operator_spec es 0; (t, b, ops) = fold operator_event es (s, buttons, []) in
    answers rs s t \<and>
    read_packets (sent_bytes (ops @ snd (mouse_run (ct_mouse t) b))) = map Some (intended cs (held_in buttons))"
  using operator_run [OF assms(1,2), of es buttons "[]"] mouse_reports_commands assms(3)
  by (simp add: case_prod_beta Let_def del: sent_bytes_simps(5))

theorem operator_moves_mouse_witness:
  "let (t, b, ops) = fold operator_event
       [OperatorLine (Button BtnLeft True), MouseTurn, OperatorLine (Move 5 (- 300))] (control_boot, 0, []) in
    answers (ascii ''ok'' @ [0x0A] @ ascii ''ok'' @ [0x0A]) control_boot t \<and>
    read_packets (sent_bytes (ops @ snd (mouse_run (ct_mouse t) b))) =
      [Some \<lparr>mr_dx = 0, mr_dy = 0, mr_held = {BtnLeft}\<rparr>, Some \<lparr>mr_dx = 5, mr_dy = - 256, mr_held = {BtnLeft}\<rparr>]"
  using operator_moves_mouse [of control_boot "[OperatorLine (Button BtnLeft True), MouseTurn, OperatorLine (Move 5 (- 300))]" 0]
  by (simp add: control_boot_def clamped_def held_in_def case_prod_beta Let_def del: fold_simps sent_bytes_simps(5))

subsection \<open>Bulk tests\<close>

text \<open>The text of a bulk test: printable from end to end, and short enough for the line; it may be missing.\<close>

definition bulk_text :: "u8 list \<Rightarrow> bool" where
  "bulk_text arg \<longleftrightarrow> length arg \<le> 118 \<and> (\<forall>c \<in> set arg. c \<noteq> 0x0D \<and> c \<noteq> 0x0A \<and> c < 0x80) \<and>
     (arg = [] \<or> \<not> is_whitespace (hd arg) \<and> \<not> is_whitespace (last arg))"

definition bulk_line :: "u8 list \<Rightarrow> u8 list" where
  "bulk_line arg = ascii ''bulk_test'' @ (if arg = [] then [] else 0x20 # arg)"

definition bulk_payload :: "u8 list \<Rightarrow> u8 list" where
  "bulk_payload arg = (if arg = [] then ascii ''hello'' else arg)"

lemma cut_at_first: "p d \<Longrightarrow> \<forall>c \<in> set w. \<not> p c \<Longrightarrow> cut_at p (w @ d # r) = w # cut_at p r"
  by (induction w) auto

lemma split_first_word:
  assumes "wordy w"
  shows "split_ascii_whitespace (w @ 0x20 # r) = w # split_ascii_whitespace r"
proof -
  have "cut_at is_ascii_whitespace (w @ 0x20 # r) = w # cut_at is_ascii_whitespace r"
    by (rule cut_at_first) (use assms in \<open>auto simp: wordy_def is_whitespace_def is_ascii_whitespace_def\<close>)
  then show ?thesis using assms by (simp add: split_ascii_whitespace_def wordy_def)
qed

lemma utf8_ascii: "\<forall>c \<in> set str. c < 0x80 \<Longrightarrow> utf8 str = str"
  by (induction str) (simp_all add: utf8_def utf8_char_def)

lemma dispatch_bulk:
  assumes "bulk_text arg"
  shows "dispatch (bulk_line arg) s = handle_bulk_test (bulk_line arg) s"
proof -
  have w: "wordy (ascii ''bulk_test'')" by (simp add: wordy_def is_whitespace_def)
  have "trim (bulk_line arg) = bulk_line arg"
    using assms by (intro trim_id) (auto simp: bulk_line_def bulk_text_def is_whitespace_def)
  moreover have "\<exists>ws. split_ascii_whitespace (bulk_line arg) = ascii ''bulk_test'' # ws"
    using split_first_word [OF w] split_ascii_words [of "ascii ''bulk_test''" "[]"] w
    by (cases "arg = []") (auto simp: bulk_line_def simp del: ascii_simps)
  ultimately obtain ws where ws: "trim (bulk_line arg) = bulk_line arg"
    "split_ascii_whitespace (bulk_line arg) = ascii ''bulk_test'' # ws" by blast
  show ?thesis unfolding dispatch_def Let_def ws list.case list.sel by simp
qed

lemma bulk_rest:
  assumes "bulk_text arg"
  shows "trim_start (case strip_prefix (ascii ''bulk_test'') (bulk_line arg) of Some r \<Rightarrow> r | None \<Rightarrow> []) = arg"
  using assms by (cases arg) (auto simp: bulk_line_def trim_start_def is_whitespace_def bulk_text_def)

lemma bulk_line_queues:
  fixes s :: control and arg :: "u8 list"
  assumes "bulk_text arg" "ct_line s = []" "ep_faults (ct_ep s) = []"
  defines "t \<equiv> control_packet (bulk_line arg @ [0x0D]) s"
  shows "ct_line t = []" "ep_faults (ct_ep t) = []" "ct_bulk_seq t = ct_bulk_seq s + 1"
    "if length (ct_bulk s) < 4
     then \<exists>f. ct_bulk t = ct_bulk s @ [f] \<and> parse_frame f = Some (0xFF, ct_bulk_seq s, bulk_payload arg) \<and>
       answers (ascii ''ok bulk queued '' @ fmt_dec (16 + length (bulk_payload arg)) @ ascii ''B'' @ [0x0A]) s t
     else ct_bulk t = ct_bulk s \<and> answers (ascii ''err bulk queue full'' @ [0x0A]) s t"
proof -
  let ?l = "bulk_line arg"
  define u where "u = s\<lparr>ct_line := ?l, ct_bulk_seq := ct_bulk_seq s + 1\<rparr>"
  have len: "length (bulk_payload arg) \<le> 118" using assms(1) by (simp add: bulk_payload_def bulk_text_def)
  define f where "f = BULK_MAGIC @ le16 (kind_code BulkTest) @ le32 (of_nat (length (bulk_payload arg))) @
    le16 (ct_bulk_seq s) @ replicate 4 0 @ bulk_payload arg"
  have f: "bulk_build_frame BulkTest (ct_bulk_seq s) (bulk_payload arg) = Inr f"
    "parse_frame f = Some (0xFF, ct_bulk_seq s, bulk_payload arg)"
    using len parse_built [of "bulk_payload arg" BulkTest "ct_bulk_seq s"]
    by (simp_all add: bulk_build_frame_eq f_def kind_code_def)
  have lf: "length f = 16 + length (bulk_payload arg)" by (simp add: f_def BULK_MAGIC_def)
  have "\<forall>c \<in> set ?l. c \<noteq> 0x0D \<and> c \<noteq> 0x0A \<and> c < 0x80" "?l \<noteq> []" "length ?l \<le> 128"
    using assms(1) by (auto simp: bulk_line_def bulk_text_def)
  then have t: "t = (handle_bulk_test ?l (s\<lparr>ct_line := ?l\<rparr>))\<lparr>ct_line := []\<rparr>"
    unfolding t_def using assms(2) by (simp add: control_line dispatch_bulk [OF assms(1)])
  have pay: "(if arg = [] then ascii ''hello'' else utf8 arg) = bulk_payload arg"
    using assms(1) by (simp add: bulk_payload_def bulk_text_def utf8_ascii del: ascii_simps)
  have h: "handle_bulk_test ?l (s\<lparr>ct_line := ?l\<rparr>) =
      (if length (ct_bulk s) < 4
       then send_line (ascii ''ok bulk queued '' @ fmt_dec (length f) @ ascii ''B'') (u\<lparr>ct_bulk := ct_bulk s @ [f]\<rparr>)
       else send_line (ascii ''err bulk queue full'') u)"
  proof -
    have "length (fmt_dec (length f)) \<le> 3" using len lf by (intro length_fmt_dec) simp_all
    then have "send_fmt 48 [ascii ''ok bulk queued '', fmt_dec (length f), ascii ''B''] v =
        send_line (ascii ''ok bulk queued '' @ fmt_dec (length f) @ ascii ''B'') v" for v
      by (simp add: send_fmt_def write_fmt_fits del: ascii_simps)
    then show ?thesis
      unfolding handle_bulk_test_def Let_def next_seq_def split bulk_rest [OF assms(1)] pay
      using f(1) by (simp add: bulk_try_send_def u_def const_defs del: ascii_simps)
  qed
  have keep: "ct_bulk (send_line l v) = ct_bulk v" "ct_bulk_seq (send_line l v) = ct_bulk_seq v" for l v
    by (simp_all add: send_line_def send_bytes_def)
  show "ct_line t = []" by (simp add: t)
  show "ct_bulk_seq t = ct_bulk_seq s + 1" by (simp add: t h keep u_def)
  have n: "length (fmt_dec (length f)) \<le> 3" using len lf by (intro length_fmt_dec) simp_all
  show q: "if length (ct_bulk s) < 4
     then \<exists>f. ct_bulk t = ct_bulk s @ [f] \<and> parse_frame f = Some (0xFF, ct_bulk_seq s, bulk_payload arg) \<and>
       answers (ascii ''ok bulk queued '' @ fmt_dec (16 + length (bulk_payload arg)) @ ascii ''B'' @ [0x0A]) s t
     else ct_bulk t = ct_bulk s \<and> answers (ascii ''err bulk queue full'' @ [0x0A]) s t"
    using f(2) n assms(3) lf
      send_line_answers [of "u\<lparr>ct_bulk := ct_bulk s @ [f]\<rparr>" "ascii ''ok bulk queued '' @ fmt_dec (length f) @ ascii ''B''"]
      send_line_answers [of u "ascii ''err bulk queue full''"]
    by (simp add: t h keep answers_def u_def del: ascii_simps)
  show "ep_faults (ct_ep t) = []" using q by (auto simp: answers_def split: if_splits)
qed

text \<open>The operator sends a test, or the bulk writer sends the oldest frame.\<close>

datatype bulk_action = BulkLine "u8 list" | BulkTurn

primrec bulk_event :: "bulk_action \<Rightarrow> control \<times> endpoint \<Rightarrow> control \<times> endpoint" where
  "bulk_event (BulkLine arg) x = (case x of (s, e) \<Rightarrow> (control_packet (bulk_line arg @ [0x0D]) s, e))"
| "bulk_event BulkTurn x = (case x of (s, e) \<Rightarrow> let (q, e) = bulk_turn (ct_bulk s, e) in (s\<lparr>ct_bulk := q\<rparr>, e))"

fun bulk_spec :: "bulk_action list \<Rightarrow> nat \<Rightarrow> u16 \<Rightarrow> (u16 \<times> u16 \<times> u8 list) list \<times> u8 list" where
  "bulk_spec [] n seq = ([], [])"
| "bulk_spec (BulkTurn # es) n seq = bulk_spec es (n - 1) seq"
| "bulk_spec (BulkLine arg # es) n seq =
     (if n < 4 then
        (let (fs, rs) = bulk_spec es (n + 1) (seq + 1) in
         ((0xFF, seq, bulk_payload arg) # fs,
          ascii ''ok bulk queued '' @ fmt_dec (16 + length (bulk_payload arg)) @ ascii ''B'' @ [0x0A] @ rs))
      else (let (fs, rs) = bulk_spec es n (seq + 1) in (fs, ascii ''err bulk queue full'' @ [0x0A] @ rs)))"

lemma bulk_run:
  assumes "ct_line s = []" "ep_faults (ct_ep s) = []" "ep_faults e = []" "\<forall>arg. BulkLine arg \<in> set es \<longrightarrow> bulk_text arg"
  shows "let (fs, rs) = bulk_spec es (length (ct_bulk s)) (ct_bulk_seq s); (t, e') = fold bulk_event es (s, e) in
    answers rs s t \<and> ep_faults e' = [] \<and> (\<exists>new. map parse_frame new = map Some fs \<and>
      fold stream_frame (ct_bulk t) e' = fold stream_frame (ct_bulk s @ new) e)"
  using assms
proof (induction es arbitrary: s e)
  case Nil
  then show ?case by (simp add: answers_def)
next
  case (Cons ev es)
  have rest: "\<forall>arg. BulkLine arg \<in> set es \<longrightarrow> bulk_text arg" using Cons.prems(4) by simp
  show ?case
  proof (cases ev)
    case BulkTurn
    show ?thesis
    proof (cases "ct_bulk s")
      case Nil
      then have same: "s\<lparr>ct_bulk := []\<rparr> = s" by (cases s) simp
      show ?thesis
        using Cons.IH [OF Cons.prems(1-3) rest] BulkTurn Nil by (simp add: bulk_turn_def same)
    next
      case (Cons f q)
      from Cons.IH [of "s\<lparr>ct_bulk := q\<rparr>" "stream_frame f e", OF _ _ _ rest] Cons.prems Cons show ?thesis
        by (simp add: BulkTurn bulk_turn_def case_prod_beta Let_def answers_def stream_frame_ok)
    qed
  next
    case (BulkLine arg)
    have ok: "bulk_text arg" using Cons.prems(4) BulkLine by simp
    let ?t = "control_packet (bulk_line arg @ [0x0D]) s"
    note q = bulk_line_queues [OF ok Cons.prems(1,2)]
    obtain fs rs t e' where r: "bulk_spec es (length (ct_bulk ?t)) (ct_bulk_seq ?t) = (fs, rs)"
      "fold bulk_event es (?t, e) = (t, e')" by fastforce
    obtain new where ih: "answers rs ?t t" "ep_faults e' = []" "map parse_frame new = map Some fs"
      "fold stream_frame (ct_bulk t) e' = fold stream_frame (ct_bulk ?t @ new) e"
      using Cons.IH [OF q(1,2) Cons.prems(3) rest] r by auto
    show ?thesis
    proof (cases "length (ct_bulk s) < 4")
      case True
      then obtain f where f: "ct_bulk ?t = ct_bulk s @ [f]" "parse_frame f = Some (0xFF, ct_bulk_seq s, bulk_payload arg)"
        "answers (ascii ''ok bulk queued '' @ fmt_dec (16 + length (bulk_payload arg)) @ ascii ''B'' @ [0x0A]) s ?t"
        using q(4) by auto
      have n: "length (ct_bulk ?t) = length (ct_bulk s) + 1" by (simp add: f(1))
      show ?thesis
        using ih f(2,3) r q(3) True unfolding n
        by (auto simp: BulkLine f(1) answers_def simp del: ascii_simps intro!: exI [of _ "f # new"])
    next
      case False
      then have f: "ct_bulk ?t = ct_bulk s" "answers (ascii ''err bulk queue full'' @ [0x0A]) s ?t"
        using q(4) by auto
      show ?thesis
        using ih f r q(3) False by (auto simp: BulkLine answers_def simp del: ascii_simps)
    qed
  qed
qed

text \<open>
  C24. Bulk tests end to end.  The operator types any sequence of \<^verbatim>\<open>bulk_test\<close> lines while the bulk writer
  takes frames whenever it likes.  A line is answered with the size of its frame if fewer than four frames
  wait and is refused otherwise, but takes a number in either case; and the laptop, ending transfers at
  short packets, gets exactly the accepted tests, in order, each parsed to its number and its text, with
  \<^verbatim>\<open>hello\<close> for a missing one.
\<close>

theorem operator_tests_bulk:
  assumes "ct_line s = []" "ep_faults (ct_ep s) = []" "ct_bulk s = []" "ep_faults e = []" "ep_sent e = []"
    and "\<forall>arg. BulkLine arg \<in> set es \<longrightarrow> bulk_text arg"
  shows "let (fs, rs) = bulk_spec es 0 (ct_bulk_seq s); (t, e') = fold bulk_event es (s, e) in
    answers rs s t \<and>
    (let (ts, rest) = transfers [] (ep_sent (fold stream_frame (ct_bulk t) e'))
     in map parse_frame ts = map Some fs \<and> rest = [])"
proof -
  obtain fs rs t e' where r: "bulk_spec es 0 (ct_bulk_seq s) = (fs, rs)" "fold bulk_event es (s, e) = (t, e')"
    by fastforce
  obtain new where n: "answers rs s t" "map parse_frame new = map Some fs"
    "fold stream_frame (ct_bulk t) e' = fold stream_frame new e"
    using bulk_run [OF assms(1,2,4,6)] r assms(3) by auto
  have "parse_frame [] = None" by (simp add: parse_frame_def)
  then have "[] \<notin> set new" using n(2) by (metis image_eqI imageE list.set_map option.distinct(1))
  then show ?thesis
    using r n assms(4,5) by (simp add: stream_frames_ok transfers_messages)
qed

theorem operator_tests_bulk_witness:
  "let (t, e') = fold bulk_event [BulkLine [], BulkTurn, BulkLine (ascii ''a b'')] (control_boot, \<lparr>ep_sent = [], ep_faults = []\<rparr>) in
    (let (ts, rest) = transfers [] (ep_sent (fold stream_frame (ct_bulk t) e'))
     in map parse_frame ts = [Some (0xFF, 0, ascii ''hello''), Some (0xFF, 1, ascii ''a b'')] \<and> rest = [])"
proof -
  have "\<forall>arg. BulkLine arg \<in> set [BulkLine [], BulkTurn, BulkLine (ascii ''a b'')] \<longrightarrow> bulk_text arg"
    by (simp add: bulk_text_def is_whitespace_def)
  from operator_tests_bulk [OF _ _ _ _ _ this, of control_boot "\<lparr>ep_sent = [], ep_faults = []\<rparr>"] show ?thesis
    by (simp add: control_boot_def bulk_payload_def case_prod_beta Let_def del: fold_simps ascii_simps)
      (simp add: ascii_def)?
qed

end
