(* ===== verification/UsbDevice.thy ===== *)
theory UsbDevice
  imports Client
begin

text \<open>
  The composite USB device (\<^verbatim>\<open>firmware/src/usb/mod.rs\<close>) as the firmware assembles it, and how the two
  tools find their ports on it.  The USB library, which numbers the interfaces, and the host's list of
  ports are parameters.
\<close>

subsection \<open>The device\<close>

definition VID :: u16 where [const_defs]: "VID = 0xC0DE"
definition PID :: u16 where [const_defs]: "PID = 0xCAFE"

record usb_config =
  uc_vendor_id :: u16
  uc_product_id :: u16
  uc_manufacturer :: "u8 list"
  uc_product :: "u8 list"
  uc_serial_number :: "u8 list"
  uc_max_power :: nat
  uc_max_packet_size_0 :: nat
  uc_composite_with_iads :: bool
  uc_device_class :: u8
  uc_device_sub_class :: u8
  uc_device_protocol :: u8

text \<open>The functions: a serial port of a packet size, or a vendor function with its bulk endpoints.\<close>

datatype usb_function =
    CdcAcm nat
  | VendorBulk u8 u8 u8 nat nat

text \<open>The device and the handles to its functions, as positions in the order of construction.\<close>

record usb_stack =
  us_config :: usb_config
  us_functions :: "usb_function list"
  us_events :: nat
  us_control :: nat
  us_console :: nat
  us_bulk :: nat

definition add_function :: "usb_function \<Rightarrow> usb_function list \<Rightarrow> nat \<times> usb_function list" where
  "add_function f fs = (length fs, fs @ [f])"

definition usb_build :: usb_stack where
  "usb_build =
     (let config = \<lparr>uc_vendor_id = VID, uc_product_id = PID, uc_manufacturer = ascii ''vintage-kvm'',
                    uc_product = ascii ''Pico1284'', uc_serial_number = ascii ''0000-0001'', uc_max_power = 100,
                    uc_max_packet_size_0 = 64, uc_composite_with_iads = True, uc_device_class = 0xEF,
                    uc_device_sub_class = 0x02, uc_device_protocol = 0x01\<rparr>;
          (events_class, builder) = add_function (CdcAcm 64) [];
          (control_class, builder) = add_function (CdcAcm 64) builder;
          (console_class, builder) = add_function (CdcAcm 64) builder;
          (bulk, builder) = add_function (VendorBulk 0xFF 0x00 0x00 64 64) builder
      in \<lparr>us_config = config, us_functions = builder, us_events = events_class, us_control = control_class,
          us_console = console_class, us_bulk = bulk\<rparr>)"

subsection \<open>The host\<close>

text \<open>
  The library numbers interfaces in the order in which they are made; a serial function has two, its
  communication and its data interface, and the first one names it.
\<close>

definition interface_count :: "usb_function \<Rightarrow> nat" where
  "interface_count f = (case f of CdcAcm _ \<Rightarrow> 2 | VendorBulk _ _ _ _ _ \<Rightarrow> 1)"

definition numbers_in_order :: "(usb_function list \<Rightarrow> nat \<Rightarrow> u8) \<Rightarrow> bool" where
  "numbers_in_order iface \<longleftrightarrow>
     (\<forall>fs i. i < length fs \<longrightarrow> iface fs i = of_nat (sum_list (map interface_count (take i fs))))"

text \<open>
  A host that has the device plugged in once lists its serial functions in some order, among the ports
  of other devices, each under a name of its own.
\<close>

definition our_port :: "(u8 list \<times> (u16 \<times> u16 \<times> u8 option) option) \<Rightarrow> bool" where
  "our_port p \<longleftrightarrow> (\<exists>i. snd p = Some (VID, PID, i))"

definition serial_functions :: "usb_stack \<Rightarrow> nat list" where
  "serial_functions st = filter (\<lambda>i. case us_functions st ! i of CdcAcm _ \<Rightarrow> True | _ \<Rightarrow> False) [0..<length (us_functions st)]"

definition lists_device ::
  "(usb_function list \<Rightarrow> nat \<Rightarrow> u8) \<Rightarrow> (nat \<Rightarrow> u8 list) \<Rightarrow> usb_stack \<Rightarrow> (u8 list \<times> (u16 \<times> u16 \<times> u8 option) option) list \<Rightarrow> bool" where
  "lists_device iface name st ports \<longleftrightarrow> mset (filter our_port ports) =
     mset (map (\<lambda>i. (name i, Some (uc_vendor_id (us_config st), uc_product_id (us_config st), Some (iface (us_functions st) i))))
       (serial_functions st))"

lemma usb_build_facts:
  "us_functions usb_build = [CdcAcm 64, CdcAcm 64, CdcAcm 64, VendorBulk 0xFF 0 0 64 64]"
  "us_events usb_build = 0" "us_control usb_build = 1" "us_console usb_build = 2" "us_bulk usb_build = 3"
  "uc_vendor_id (us_config usb_build) = VID" "uc_product_id (us_config usb_build) = PID"
  "serial_functions usb_build = [0, 1, 2]"
  by (simp_all add: usb_build_def add_function_def serial_functions_def upt_conv_Cons)

text \<open>The ports of other devices do not matter to either tool.\<close>

lemma control_candidates_ours: "control_candidates ports = control_candidates (filter our_port ports)"
  by (induction ports)
    (auto simp: control_candidates_def List.map_filter_simps our_port_def const_defs split: option.splits if_splits)

lemma control_candidates_mset: "mset xs = mset ys \<Longrightarrow> mset (control_candidates xs) = mset (control_candidates ys)"
  by (simp add: control_candidates_def List.map_filter_def)

lemma auto_detect_ours:
  fixes ports :: "(u8 list \<times> (u16 \<times> u16 \<times> u8 option) option) list"
  shows "filter (\<lambda>(_, usb). usb = Some (0xC0DE, 0xCAFE)) (map (\<lambda>(n, usb). (n, map_option (\<lambda>(v, p, _). (v, p)) usb)) ports) =
    map (\<lambda>(n, usb). (n, map_option (\<lambda>(v, p, _). (v, p)) usb)) (filter our_port ports)"
  by (induction ports) (auto simp: our_port_def const_defs)

text \<open>What the event consumer sees of the ports.\<close>

definition without_interface ::
  "(u8 list \<times> (u16 \<times> u16 \<times> u8 option) option) list \<Rightarrow> (u8 list \<times> (u16 \<times> u16) option) list" where
  "without_interface ports = map (\<lambda>(n, usb). (n, map_option (\<lambda>(v, p, _). (v, p)) usb)) ports"

lemma auto_detect_names:
  assumes "mset (map fst (filter our_port ports)) = mset [a, b, c]" "port_prio a = port_prio b" "port_prio b = port_prio c"
    and "a < b" "a < c"
  shows "auto_detect (without_interface ports) = Some a"
proof -
  let ?names = "map fst (filter our_port ports)"
  have f: "map fst (filter (\<lambda>(_, usb). usb = Some (0xC0DE, 0xCAFE)) (without_interface ports)) = ?names"
    unfolding without_interface_def auto_detect_ours by (simp add: comp_def case_prod_beta)
  define k where "k = (\<lambda>n. (port_prio n, n))"
  have s: "set ?names = {a, b, c}" using assms(1) by (metis list.set(1,2) set_mset_mset)
  have inj: "inj_on k (set ?names)" by (auto simp: k_def inj_on_def)
  have "sort_key k ?names \<noteq> []" using s by (auto simp flip: set_empty)
  then obtain n ns where n: "sort_key k ?names = n # ns" by (cases "sort_key k ?names") auto
  have "a \<in> set (n # ns)" "n \<in> {a, b, c}" using s n by (metis insertI1 set_sort, metis list.set_intros(1) set_sort)
  moreover have "sorted (map k (n # ns))" using n sorted_sort_key by metis
  ultimately have "k n \<le> k a" by auto
  then have "n = a" using \<open>n \<in> {a, b, c}\<close> assms(2-5) by (auto simp: k_def less_eq_prod_def)
  then show ?thesis using n by (simp add: auto_detect_def f Let_def k_def)
qed


text \<open>Where the names do not sort like the interfaces, as with the tenth serial port, it chooses another one.\<close>

lemma consumer_takes_control_port:
  "auto_detect [(ascii ''/dev/ttyACM9'', Some (0xC0DE, 0xCAFE)), (ascii ''/dev/ttyACM10'', Some (0xC0DE, 0xCAFE)),
     (ascii ''/dev/ttyACM11'', Some (0xC0DE, 0xCAFE))] = Some (ascii ''/dev/ttyACM10'')"
proof -
  have "port_prio (ascii ''/dev/ttyACM9'') = 1" "port_prio (ascii ''/dev/ttyACM10'') = 1" "port_prio (ascii ''/dev/ttyACM11'') = 1"
    by (simp_all add: port_prio_def contains_def upt_rec)
  then show ?thesis by (simp add: auto_detect_def less_eq_prod_def)
qed

definition acm_name :: "nat \<Rightarrow> u8 list" where
  "acm_name i = ascii ''/dev/ttyACM'' @ [0x30 + of_nat i]"


end
