(* ===== verification/Console.thy ===== *)
theory Console
  imports Control
begin

text \<open>
  The console interface (\<^verbatim>\<open>firmware/src/usb/console.rs\<close>) as a task: the banner of a connection, the
  loopback of \<^verbatim>\<open>Usb\<close>, the return to \<^verbatim>\<open>wait_connection\<close> when a read fails.  A terminal as an operator
  attaches it is defined, and the lemmas show what its screen holds.
\<close>

subsection \<open>The task\<close>

definition CONSOLE_BANNER :: "u8 list" where
  "CONSOLE_BANNER =
     ascii ''vintage-kvm console v1 (Phase 5a loopback)'' @ [0x0D, 0x0A] @
     [0xE2, 0x80, 0x94] @ ascii '' type to verify the wire. Phase 5b will swap this for'' @ [0x0D, 0x0A] @
     ascii ''text-VRAM diffs and PS/2 keystroke relay.'' @ [0x0D, 0x0A]"

definition console_connect :: "endpoint \<Rightarrow> endpoint" where
  "console_connect e = write_until_error (chunks 64 CONSOLE_BANNER) e"

text \<open>The task waits for a connection or for a packet; a read fails when the host is gone.\<close>

datatype console_input = Attached | Typed "u8 list" | ReadFailed

fun console_step :: "console_input \<Rightarrow> bool \<times> endpoint \<Rightarrow> bool \<times> endpoint" where
  "console_step Attached (False, e) = (True, console_connect e)"
| "console_step (Typed rx) (True, e) = (True, console_packet rx e)"
| "console_step ReadFailed (True, e) = (False, e)"
| "console_step _ s = s"

text \<open>A write that fails does not end the connection.\<close>

lemma failed_write_keeps_connection:
  "fst (console_step (Typed rx) (True, e))" by simp

subsection \<open>A terminal\<close>

text \<open>Carriage return goes to the first column, line feed to the next line, a character overwrites.\<close>

record terminal =
  tm_lines :: "u8 list list"
  tm_current :: "u8 list"
  tm_col :: nat

definition put_char :: "terminal \<Rightarrow> u8 \<Rightarrow> terminal" where
  "put_char t b =
     (if b = 0x0D then t\<lparr>tm_col := 0\<rparr>
      else if b = 0x0A then t\<lparr>tm_lines := tm_lines t @ [tm_current t], tm_current := replicate (tm_col t) 0x20\<rparr>
      else t\<lparr>tm_current := (if tm_col t < length (tm_current t) then (tm_current t)[tm_col t := b]
                              else tm_current t @ [b]),
              tm_col := tm_col t + 1\<rparr>)"

definition display :: "u8 list \<Rightarrow> terminal \<Rightarrow> terminal" where
  "display bs t = fold (\<lambda>b t. put_char t b) bs t"

definition blank :: terminal where
  "blank = \<lparr>tm_lines = [], tm_current = [], tm_col = 0\<rparr>"

definition on_screen :: "u8 list list \<Rightarrow> terminal" where
  "on_screen ls = blank\<lparr>tm_lines := ls\<rparr>"

definition plain :: "u8 list \<Rightarrow> bool" where
  "plain l \<longleftrightarrow> 0x0D \<notin> set l \<and> 0x0A \<notin> set l"

definition banner_lines :: "u8 list list" where
  "banner_lines =
     [ascii ''vintage-kvm console v1 (Phase 5a loopback)'',
      [0xE2, 0x80, 0x94] @ ascii '' type to verify the wire. Phase 5b will swap this for'',
      ascii ''text-VRAM diffs and PS/2 keystroke relay.'']"

text \<open>The host's view of a session: what was typed, ended by the return key.\<close>

definition keyed :: "u8 list list \<Rightarrow> u8 list" where
  "keyed ls = concat (map (\<lambda>l. l @ [0x0D]) ls)"

definition echoed :: "u8 list \<Rightarrow> u8 list" where
  "echoed bs = concat (map (\<lambda>b. if b = 0x0D then [0x0D, 0x0A] else [b]) bs)"

subsection \<open>Lines on the screen\<close>

lemma display_append [simp]: "display (xs @ ys) t = display ys (display xs t)"
  by (simp add: display_def)

lemma display_plain:
  "plain l \<Longrightarrow> tm_col t = length (tm_current t) \<Longrightarrow>
   display l t = t\<lparr>tm_current := tm_current t @ l, tm_col := length (tm_current t @ l)\<rparr>"
  by (induction l arbitrary: t) (auto simp: plain_def display_def put_char_def)

lemma display_line:
  "plain l \<Longrightarrow> display (l @ [0x0D, 0x0A]) (on_screen ls) = on_screen (ls @ [l])"
  by (simp add: display_plain on_screen_def blank_def) (simp add: display_def put_char_def)

lemma echoed_append [simp]: "echoed (xs @ ys) = echoed xs @ echoed ys"
  by (simp add: echoed_def)

lemma echoed_plain: "plain l \<Longrightarrow> echoed l = l"
  by (induction l) (auto simp: echoed_def plain_def)

lemma display_lines:
  "\<forall>l \<in> set ks. plain l \<Longrightarrow>
   display (concat (map (\<lambda>l. l @ [0x0D, 0x0A]) ks)) (on_screen ls) = on_screen (ls @ ks)"
proof (induction ks arbitrary: ls)
  case (Cons l ks)
  have "display (concat (map (\<lambda>l. l @ [0x0D, 0x0A]) (l # ks))) (on_screen ls) =
      display (concat (map (\<lambda>l. l @ [0x0D, 0x0A]) ks)) (display (l @ [0x0D, 0x0A]) (on_screen ls))"
    using display_append [of "l @ [0x0D, 0x0A]" "concat (map (\<lambda>l. l @ [0x0D, 0x0A]) ks)" "on_screen ls"]
    by (simp only: list.map concat.simps)
  also have "\<dots> = on_screen (ls @ l # ks)"
    using Cons.IH [of "ls @ [l]"] Cons.prems display_line [of l ls] by simp
  finally show ?case .
qed (simp add: display_def)

lemma echoed_keyed:
  "\<forall>l \<in> set ks. plain l \<Longrightarrow> echoed (keyed ks) = concat (map (\<lambda>l. l @ [0x0D, 0x0A]) ks)"
proof (induction ks)
  case (Cons l ks)
  have "echoed (0x0D # bs) = 0x0D # 0x0A # echoed bs" for bs by (simp add: echoed_def)
  with Cons show ?case by (simp add: keyed_def echoed_plain)
qed (simp add: keyed_def echoed_def)

lemma display_keyed:
  "\<forall>l \<in> set ks. plain l \<Longrightarrow> display (echoed (keyed ks)) (on_screen ls) = on_screen (ls @ ks)"
  by (simp add: echoed_keyed display_lines)

lemma display_banner: "display CONSOLE_BANNER (on_screen ls) = on_screen (ls @ banner_lines)"
proof -
  have p: "\<forall>l \<in> set banner_lines. plain l"
    by (auto simp: banner_lines_def plain_def ascii_def)
  have b: "CONSOLE_BANNER = concat (map (\<lambda>l. l @ [0x0D, 0x0A]) banner_lines)"
    by (simp add: CONSOLE_BANNER_def banner_lines_def)
  show ?thesis by (subst b) (rule display_lines [OF p])
qed

subsection \<open>Sessions\<close>

text \<open>A session: the host attaches, its packets of at most 64 bytes are read, it goes away.\<close>

definition session_inputs :: "u8 list list \<Rightarrow> console_input list" where
  "session_inputs ps = Attached # map Typed ps @ [ReadFailed]"

lemma packets_echoed:
  "\<forall>p \<in> set ps. length p \<le> 64 \<Longrightarrow> ep_faults e = [] \<Longrightarrow>
   \<exists>e'. fold console_step (map Typed ps) (True, e) = (True, e') \<and> ep_faults e' = [] \<and>
     concat (ep_sent e') = concat (ep_sent e) @ echoed (concat ps)"
proof (induction ps arbitrary: e)
  case (Cons p ps)
  let ?e = "console_packet p e"
  have "ep_faults ?e = []" "concat (ep_sent ?e) = concat (ep_sent e) @ echoed p"
    using Cons.prems console_echoes [of p e] echo_bytes [of "[]" p e]
    by (simp_all add: concat_chunks echoed_def) (simp add: console_packet_def write_until_error_ok)
  with Cons.IH [of ?e] Cons.prems(1) show ?case by auto
qed (simp add: echoed_def)

lemma session_shown:
  assumes "\<forall>p \<in> set ps. length p \<le> 64" "concat ps = keyed ks" "\<forall>l \<in> set ks. plain l"
    and "ep_faults e = []" "display (concat (ep_sent e)) blank = on_screen ls"
  shows "\<exists>e'. fold console_step (session_inputs ps) (False, e) = (False, e') \<and> ep_faults e' = [] \<and>
    display (concat (ep_sent e')) blank = on_screen (ls @ banner_lines @ ks)"
proof -
  let ?e = "console_connect e"
  have e: "ep_faults ?e = []" "concat (ep_sent ?e) = concat (ep_sent e) @ CONSOLE_BANNER"
    using assms(4) by (simp_all add: console_connect_def write_until_error_ok concat_chunks)
  from packets_echoed [OF assms(1) e(1)] obtain e' where
    "fold console_step (map Typed ps) (True, ?e) = (True, e')" "ep_faults e' = []"
    "concat (ep_sent e') = concat (ep_sent ?e) @ echoed (concat ps)" by blast
  then show ?thesis
    using assms(2,3,5) e(2) by (simp add: session_inputs_def display_banner display_keyed)
qed

lemma sessions_shown:
  assumes "\<forall>(ps, ks) \<in> set xs. (\<forall>p \<in> set ps. length p \<le> 64) \<and> concat ps = keyed ks \<and> (\<forall>l \<in> set ks. plain l)"
    and "ep_faults e = []" "display (concat (ep_sent e)) blank = on_screen ls"
  shows "\<exists>e'. fold console_step (concat (map (session_inputs \<circ> fst) xs)) (False, e) = (False, e') \<and>
    ep_faults e' = [] \<and>
    display (concat (ep_sent e')) blank = on_screen (ls @ concat (map (\<lambda>(ps, ks). banner_lines @ ks) xs))"
  using assms
proof (induction xs arbitrary: e ls)
  case (Cons x xs)
  obtain ps ks where x: "x = (ps, ks)" by force
  from session_shown [of ps ks e ls] Cons.prems x obtain e1 where
    "fold console_step (session_inputs ps) (False, e) = (False, e1)" "ep_faults e1 = []"
    "display (concat (ep_sent e1)) blank = on_screen (ls @ banner_lines @ ks)" by auto
  with Cons.IH [of e1 "ls @ banner_lines @ ks"] Cons.prems(1) x show ?case by auto
qed simp

text \<open>
  C35. The operator's screen.  However the typed lines arrive in packets and however often the operator's
  terminal detaches and attaches again, the screen holds for every session the three lines of the banner
  and then the lines as they were typed, each on a line of its own, and the cursor is at the start of the
  next one.
\<close>

theorem console_shows_typing:
  assumes "\<forall>(ps, ks) \<in> set xs. (\<forall>p \<in> set ps. length p \<le> 64) \<and> concat ps = keyed ks \<and> (\<forall>l \<in> set ks. plain l)"
  shows "\<exists>e. fold console_step (concat (map (session_inputs \<circ> fst) xs)) (False, \<lparr>ep_sent = [], ep_faults = []\<rparr>) =
      (False, e) \<and>
    display (concat (ep_sent e)) blank =
      \<lparr>tm_lines = concat (map (\<lambda>(ps, ks). banner_lines @ ks) xs), tm_current = [], tm_col = 0\<rparr>"
proof -
  have "display (concat (ep_sent \<lparr>ep_sent = [], ep_faults = []\<rparr>)) blank = on_screen []"
    by (simp add: display_def on_screen_def blank_def)
  from sessions_shown [OF assms _ this] show ?thesis by (simp add: on_screen_def blank_def) blast
qed

theorem console_shows_typing_witness:
  "\<exists>e. fold console_step [Attached, Typed [0x64], Typed [0x69, 0x72, 0x0D], ReadFailed, Attached, ReadFailed]
       (False, \<lparr>ep_sent = [], ep_faults = []\<rparr>) = (False, e) \<and>
     tm_lines (display (concat (ep_sent e)) blank) = banner_lines @ [ascii ''dir''] @ banner_lines"
  using console_shows_typing [of "[([[0x64], [0x69, 0x72, 0x0D]], [ascii ''dir'']), ([], [])]"]
  by (auto simp: session_inputs_def keyed_def plain_def ascii_def)

end
