(* ===== verification/Firmware.thy ===== *)
theory Firmware
  imports Startup Injection Operator Console
begin

text \<open>
  The firmware as a whole: all tasks that \<^verbatim>\<open>main\<close> of \<^verbatim>\<open>firmware/src/main.rs\<close> spawns, over the state
  they share (the rings, \<^verbatim>\<open>KBD_FRAMES\<close>, \<^verbatim>\<open>AUX_ACTIVITY\<close>, \<^verbatim>\<open>INJECT_TRIGGER\<close>, \<^verbatim>\<open>INJECT_RAW\<close>, \<^verbatim>\<open>MOUSE_CMD\<close>,
  \<^verbatim>\<open>BULK_OUT\<close>, the event inbox, the counters and the lifecycle cell), in any order in which the executor
  may run their turns and the wires may move.  The lemmas show that the components keep their contracts
  inside the whole, what of the keyboard wire can ever reach the injector, and that the serve loop is
  not disturbed.
\<close>

subsection \<open>The state\<close>

text \<open>
  The queue \<^verbatim>\<open>INJECT_RAW\<close> is \<open>sy_raw\<close> of the PS/2 part; the control task's copies of what it shares
  with other tasks are brought up to date when it runs.  The tasks that only read (the pixel) and the
  reader that discards (\<^verbatim>\<open>bulk::run_reader\<close>) leave no trace and are not steps.
\<close>

record system =
  sys_kbd_sm :: sm_state
  sys_kbd_ring :: ring
  sys_kbd :: kbd_task
  sys_aux_sm :: sm_state
  sys_aux_ring :: ring
  sys_aux :: aux_task
  sys_ps2 :: ps2_system
  sys_control :: control
  sys_buttons :: u8
  sys_mouse_sent :: "tx_op list"
  sys_bulk_ep :: endpoint
  sys_events_ep :: endpoint
  sys_console :: "bool \<times> endpoint"
  sys_telemetry :: "(log_level \<times> event) list \<times> usb_inbox"
  sys_session :: session_state
  sys_reassembler :: "u8 list"
  sys_port :: lpt_mux

text \<open>The endpoints may fail as they like; the rings are zeroed statics.\<close>

record usb_link =
  ln_control :: endpoint
  ln_bulk :: endpoint
  ln_events :: endpoint
  ln_console :: endpoint

definition ring_static :: "u32 \<Rightarrow> ring" where
  "ring_static base =
     \<lparr>rg_words = replicate PS2_RING_WORDS 0, rg_base_addr = base, rg_write_addr = base, rg_last_tail = 0\<rparr>"

definition system_start ::
  "((log_level \<times> event) list \<times> usb_inbox) firmware \<Rightarrow> u32 \<Rightarrow> u32 \<Rightarrow> usb_link \<Rightarrow> system" where
  "system_start fw ring_kbd ring_aux ln =
     \<lparr>sys_kbd_sm = sm_start 0 0 False, sys_kbd_ring = ring_static ring_kbd, sys_kbd = kbd_task_new,
      sys_aux_sm = sm_start 0 0 False, sys_aux_ring = ring_static ring_aux, sys_aux = aux_task_new,
      sys_ps2 = ps2_init (fw_lifecycle fw), sys_control = control_boot\<lparr>ct_ep := ln_control ln\<rparr>,
      sys_buttons = 0, sys_mouse_sent = [], sys_bulk_ep = ln_bulk ln, sys_events_ep = ln_events ln,
      sys_console = (False, ln_console ln), sys_telemetry = fw_telemetry fw, sys_session = fw_session fw,
      sys_reassembler = fw_reassembler fw, sys_port = fw_port fw\<rparr>"

subsection \<open>The steps\<close>

text \<open>What the executor or a wire does next: \<open>KbdWire\<close> and \<open>AuxWire\<close> carry the pins of the coming cycles.\<close>

datatype turn =
    KbdWire "pio_input list"
  | AuxWire "pio_input list"
  | KbdTurn
  | AuxTurn
  | SupervisorTurn
  | InjectorWake
  | InjectorFinish
  | ControlConnect
  | ControlByte nat u8
  | MouseInjector
  | BulkWriter
  | EventsWriter
  | ConsoleInput console_input
  | ServeRound

text \<open>The control task's view of the state at a time, and what it leaves.\<close>

definition control_view :: "nat \<Rightarrow> system \<Rightarrow> control" where
  "control_view uptime s =
     (sys_control s)\<lparr>ct_inject := sy_raw (sys_ps2 s), ct_kbd := kt_counters (sys_kbd s),
                     ct_self_tx := kt_self_tx_frames (sys_kbd s), ct_aux := at_counters (sys_aux s),
                     ct_event_drops := usb_event_drops (snd (sys_telemetry s)), ct_uptime_ms := uptime\<rparr>"

definition control_leaves :: "control \<Rightarrow> system \<Rightarrow> system" where
  "control_leaves c s = s\<lparr>sys_control := c, sys_ps2 := (sys_ps2 s)\<lparr>sy_raw := ct_inject c\<rparr>\<rparr>"

text \<open>The supervisor waits for a frame or for activity, and takes a frame first.\<close>

definition supervisor_turn :: "system \<Rightarrow> system option" where
  "supervisor_turn s =
     (let see = (\<lambda>i p. p\<lparr>sy_sv := supervisor_step (sy_sv p) i\<rparr>) in
      case kt_frames (sys_kbd s) of
        f # fs \<Rightarrow> Some (s\<lparr>sys_kbd := (sys_kbd s)\<lparr>kt_frames := fs\<rparr>, sys_ps2 := see (KbdFrame f) (sys_ps2 s)\<rparr>)
      | [] \<Rightarrow>
          if at_activity (sys_aux s)
          then Some (s\<lparr>sys_aux := (sys_aux s)\<lparr>at_activity := False\<rparr>, sys_ps2 := see AuxActivity (sys_ps2 s)\<rparr>)
          else None)"

text \<open>\<open>None\<close>: the task is not ready.  The Stage 0 images and the event serializer are parameters.\<close>

fun system_turn :: "u8 list \<Rightarrow> u8 list \<Rightarrow> (event \<Rightarrow> u8 list option) \<Rightarrow> turn \<Rightarrow> system \<Rightarrow> system option" where
  "system_turn at_bin xt_bin enc (KbdWire xs) s =
     (let (sm, ws) = dma_run kbd_oversample_config xs (sys_kbd_sm s)
      in Some (s\<lparr>sys_kbd_sm := sm, sys_kbd_ring := fold (dma_store PS2_RING_WORDS) ws (sys_kbd_ring s)\<rparr>))"
| "system_turn at_bin xt_bin enc (AuxWire xs) s =
     (let (sm, ws) = dma_run aux_oversample_config xs (sys_aux_sm s)
      in Some (s\<lparr>sys_aux_sm := sm, sys_aux_ring := fold (dma_store PS2_RING_WORDS) ws (sys_aux_ring s)\<rparr>))"
| "system_turn at_bin xt_bin enc KbdTurn s =
     (let (r, k) = kbd_turn (sys_kbd_ring s, sys_kbd s) in Some (s\<lparr>sys_kbd_ring := r, sys_kbd := k\<rparr>))"
| "system_turn at_bin xt_bin enc AuxTurn s =
     (let (r, a) = aux_turn (sys_aux_ring s, sys_aux s) in Some (s\<lparr>sys_aux_ring := r, sys_aux := a\<rparr>))"
| "system_turn at_bin xt_bin enc SupervisorTurn s = supervisor_turn s"
| "system_turn at_bin xt_bin enc InjectorWake s =
     (if sy_typing (sys_ps2 s) \<noteq> None then None
      else map_option (\<lambda>p. s\<lparr>sys_ps2 := p\<rparr>) (injector_wake (sys_ps2 s)))"
| "system_turn at_bin xt_bin enc InjectorFinish s =
     (case sy_typing (sys_ps2 s) of
        None \<Rightarrow> None
      | Some cls \<Rightarrow> map_option (\<lambda>p. s\<lparr>sys_ps2 := p\<rparr>) (injector_finish at_bin xt_bin cls (sys_ps2 s)))"
| "system_turn at_bin xt_bin enc ControlConnect s =
     Some (control_leaves (control_connect (control_view 0 s)) s)"
| "system_turn at_bin xt_bin enc (ControlByte uptime b) s =
     Some (control_leaves (control_byte b (control_view uptime s)) s)"
| "system_turn at_bin xt_bin enc MouseInjector s =
     (let (c, buttons, sent) = mouse_turn (sys_control s, sys_buttons s, sys_mouse_sent s)
      in Some (s\<lparr>sys_control := c, sys_buttons := buttons, sys_mouse_sent := sent\<rparr>))"
| "system_turn at_bin xt_bin enc BulkWriter s =
     (let (q, e) = bulk_turn (ct_bulk (sys_control s), sys_bulk_ep s)
      in Some (s\<lparr>sys_control := (sys_control s)\<lparr>ct_bulk := q\<rparr>, sys_bulk_ep := e\<rparr>))"
| "system_turn at_bin xt_bin enc EventsWriter s =
     (let (u, e) = events_turn enc (snd (sys_telemetry s), sys_events_ep s)
      in Some (s\<lparr>sys_telemetry := (fst (sys_telemetry s), u), sys_events_ep := e\<rparr>))"
| "system_turn at_bin xt_bin enc (ConsoleInput i) s = Some (s\<lparr>sys_console := console_step i (sys_console s)\<rparr>)"
| "system_turn at_bin xt_bin enc ServeRound s =
     (case serve_once mux_recv mux_send_bytes dual_emit
             (sys_session s, sys_reassembler s, sys_port s, sys_telemetry s) of
        Served (session, buf, mx, t) \<Rightarrow>
          Some (s\<lparr>sys_session := session, sys_reassembler := buf, sys_port := mx, sys_telemetry := t\<rparr>)
      | _ \<Rightarrow> None)"

text \<open>A schedule runs if every one of its turns finds its task ready.\<close>

fun system_run ::
  "u8 list \<Rightarrow> u8 list \<Rightarrow> (event \<Rightarrow> u8 list option) \<Rightarrow> turn list \<Rightarrow> system \<Rightarrow> system option" where
  "system_run at_bin xt_bin enc [] s = Some s"
| "system_run at_bin xt_bin enc (l # ls) s =
     Option.bind (system_turn at_bin xt_bin enc l s) (system_run at_bin xt_bin enc ls)"


lemma system_run_append:
  "system_run at_bin xt_bin enc (ls @ ls') s =
     Option.bind (system_run at_bin xt_bin enc ls s) (system_run at_bin xt_bin enc ls')"
  by (induction ls arbitrary: s) (auto split: Option.bind_split)

text \<open>Induction over a schedule, from its end.\<close>

lemma system_run_induct [consumes 1, case_names start turn]:
  assumes "system_run at_bin xt_bin enc ls s0 = Some s"
    and "P [] s0"
    and "\<And>ls l s t. system_run at_bin xt_bin enc ls s0 = Some s \<Longrightarrow> P ls s \<Longrightarrow>
      system_turn at_bin xt_bin enc l s = Some t \<Longrightarrow> P (ls @ [l]) t"
  shows "P ls s"
  using assms(1)
proof (induction ls arbitrary: s rule: rev_induct)
  case Nil
  then show ?case using assms(2) by simp
next
  case (snoc l ls)
  then obtain u where "system_run at_bin xt_bin enc ls s0 = Some u" "system_turn at_bin xt_bin enc l u = Some s"
    by (auto simp: system_run_append split: Option.bind_splits)
  then show ?case using snoc.IH assms(3) by blast
qed

subsection \<open>What the control task adds to the queue of raw requests\<close>

lemma replies_add_nothing [simp]:
  "ct_inject (send_bytes bs c) = ct_inject c" "ct_inject (send_line l c) = ct_inject c"
  "ct_inject (send_fmt cap ps c) = ct_inject c" "ct_inject (send_stats c) = ct_inject c"
  by (simp_all add: send_bytes_def send_line_def send_fmt_def send_stats_def)

lemma handlers_add_nothing:
  "ct_inject (handle_mouse_move parts c) = ct_inject c" "ct_inject (handle_mouse_button parts c) = ct_inject c"
  "ct_inject (handle_bulk_test line c) = ct_inject c"
  by (simp_all add: handle_mouse_move_def handle_mouse_button_def handle_bulk_test_def mouse_try_send_def Let_def
      next_seq_def case_prod_beta split: option.split sum.split)

lemma dispatch_adds: "\<exists>added. ct_inject (dispatch line c) = ct_inject c @ added"
proof -
  have "\<exists>added. ct_inject (handle_inject parts c) = ct_inject c @ added" for parts
    by (auto simp: handle_inject_def split: sum.split)
  then show ?thesis
    unfolding dispatch_def Let_def by (simp add: handlers_add_nothing)
qed

lemma control_byte_adds: "\<exists>added. ct_inject (control_byte b c) = ct_inject c @ added"
  using dispatch_adds by (auto simp: control_byte_def)


subsection \<open>The components keep their contracts\<close>

text \<open>Every turn is a run of steps of the PS/2 part; most are no step of it.\<close>

lemma run_requests:
  assumes "ps2_run at_bin xt_bin cell ls p" "\<forall>b \<in> set added. length b \<le> INJECT_RAW_MAX"
    and "length (sy_raw p @ added) \<le> INJECT_RAW_DEPTH"
  shows "ps2_run at_bin xt_bin cell (ls @ map Requested added) (p\<lparr>sy_raw := sy_raw p @ added\<rparr>)"
  using assms(2,3)
proof (induction added rule: rev_induct)
  case Nil
  then show ?case using assms(1) by simp
next
  case (snoc b bs)
  then have 1: "ps2_run at_bin xt_bin cell (ls @ map Requested bs) (p\<lparr>sy_raw := sy_raw p @ bs\<rparr>)" by simp
  have "ps2_step at_bin xt_bin (p\<lparr>sy_raw := sy_raw p @ bs\<rparr>) (Requested b)
      (p\<lparr>sy_raw := sy_raw p @ bs, sy_raw := (sy_raw p @ bs) @ [b]\<rparr>)"
    using ps2_step.request [of b "p\<lparr>sy_raw := sy_raw p @ bs\<rparr>" at_bin xt_bin] snoc.prems by simp
  from ps2_run.step [OF 1 this] show ?case by simp
qed

definition parts_typed :: "system \<Rightarrow> bool" where
  "parts_typed s \<longleftrightarrow> control_typed (control_view 0 s) \<and> length (usb_event_chan (snd (sys_telemetry s))) \<le> 32"

lemma control_view_simps [simp]:
  "ct_inject (control_view up s) = sy_raw (sys_ps2 s)" "ct_line (control_view up s) = ct_line (sys_control s)"
  "ct_ep (control_view up s) = ct_ep (sys_control s)" "ct_mouse (control_view up s) = ct_mouse (sys_control s)"
  "ct_bulk (control_view up s) = ct_bulk (sys_control s)"
  by (simp_all add: control_view_def)

lemma parts_typed_unfold:
  "parts_typed s \<longleftrightarrow> line_typed (ct_line (sys_control s)) \<and> inject_typed (sy_raw (sys_ps2 s)) \<and>
     length (ct_mouse (sys_control s)) \<le> MOUSE_CMD_DEPTH \<and> bulk_typed (ct_bulk (sys_control s)) \<and>
     packets_small (ct_ep (sys_control s)) \<and> length (usb_event_chan (snd (sys_telemetry s))) \<le> 32"
  by (simp add: parts_typed_def control_typed_unfold)

lemma control_view_typed: "parts_typed s \<Longrightarrow> control_typed (control_view up s)"
  by (simp add: parts_typed_unfold control_typed_unfold)

lemma control_leaves_typed:
  assumes "control_typed c" "parts_typed s"
  shows "parts_typed (control_leaves c s)"
  using assms by (simp add: parts_typed_unfold control_leaves_def control_typed_unfold)

lemma control_leaves_run:
  assumes "ps2_run at_bin xt_bin cell ls (sys_ps2 s)" "control_typed c"
    and "ct_inject c = sy_raw (sys_ps2 s) @ added"
  shows "ps2_run at_bin xt_bin cell (ls @ map Requested added) (sys_ps2 (control_leaves c s))"
proof -
  have "\<forall>b \<in> set added. length b \<le> INJECT_RAW_MAX" "length (sy_raw (sys_ps2 s) @ added) \<le> INJECT_RAW_DEPTH"
    using assms(2,3) by (auto simp: control_typed_unfold inject_typed_def)
  from run_requests [OF assms(1) this] assms(3) show ?thesis by (simp add: control_leaves_def)
qed


text \<open>What the steps of a turn are called in the PS/2 part, and the requests it accepts.\<close>

definition turn_accepts :: "turn \<Rightarrow> system \<Rightarrow> system \<Rightarrow> u8 list list" where
  "turn_accepts l s t =
     (case l of
        ControlByte up b \<Rightarrow> drop (length (sy_raw (sys_ps2 s))) (sy_raw (sys_ps2 t))
      | _ \<Rightarrow> [])"

definition turn_labels :: "turn \<Rightarrow> system \<Rightarrow> system \<Rightarrow> ps2_label list" where
  "turn_labels l s t =
     (case l of
        SupervisorTurn \<Rightarrow>
          [Observed (case kt_frames (sys_kbd s) of f # _ \<Rightarrow> KbdFrame f | [] \<Rightarrow> AuxActivity)]
      | InjectorWake \<Rightarrow> [Woke]
      | InjectorFinish \<Rightarrow> [Finished]
      | _ \<Rightarrow> map Requested (turn_accepts l s t))"

lemma control_byte_accepts:
  assumes "t = control_leaves (control_byte b (control_view up s)) s"
  shows "ct_inject (control_byte b (control_view up s)) = sy_raw (sys_ps2 s) @ turn_accepts (ControlByte up b) s t"
  using control_byte_adds [of b "control_view up s"] assms
  by (auto simp: turn_accepts_def control_leaves_def)

lemma turn_runs:
  assumes "system_turn at_bin xt_bin enc l s = Some t" "parts_typed s"
    and "ps2_run at_bin xt_bin cell ls (sys_ps2 s)"
  shows "ps2_run at_bin xt_bin cell (ls @ turn_labels l s t) (sys_ps2 t)"
proof (cases l)
  case SupervisorTurn
  then show ?thesis using assms(1,3)
    by (auto simp: supervisor_turn_def turn_labels_def Let_def split: list.splits if_splits intro: run_observe)
next
  case InjectorWake
  then show ?thesis using assms(1,3)
    by (auto simp: turn_labels_def split: if_splits intro!: ps2_run.step [OF assms(3)] ps2_step.wake)
next
  case InjectorFinish
  then show ?thesis using assms(1,3)
    by (auto simp: turn_labels_def split: option.splits intro!: ps2_run.step [OF assms(3)] ps2_step.finish)
next
  case (ControlByte up b)
  then have t: "t = control_leaves (control_byte b (control_view up s)) s" using assms(1) by simp
  show ?thesis
    using control_leaves_run [OF assms(3) control_byte_typed [OF control_view_typed [OF assms(2)]]
        control_byte_accepts [OF t]] t
    by (simp add: turn_labels_def ControlByte)
qed (use assms in \<open>auto simp: turn_labels_def turn_accepts_def control_leaves_def control_connect_def case_prod_beta Let_def
    split: serve_result.splits prod.splits\<close>)


lemma bulk_turn_typed: "bulk_typed q \<Longrightarrow> bulk_typed (fst (bulk_turn (q, e)))"
  by (auto simp: bulk_turn_def bulk_typed_def split: list.split)

lemma emit_bounded: "length (usb_event_chan u) \<le> 32 \<Longrightarrow> length (usb_event_chan (usb_emit ev u)) \<le> 32"
  using usb_fold [of u "[ev]"] by simp


text \<open>Whatever every emitted event keeps of the sink, a round of the serve loop keeps.\<close>

definition keeps :: "('t \<Rightarrow> bool) \<Rightarrow> (event \<Rightarrow> 't \<Rightarrow> 't) \<Rightarrow> bool" where
  "keeps Q emit \<longleftrightarrow> (\<forall>ev t. Q t \<longrightarrow> Q (emit ev t))"

lemma next_packet_keeps:
  assumes "next_packet recv emit buf p t = Some r"
  shows "keeps Q emit \<Longrightarrow> Q t \<Longrightarrow> Q (snd (snd (snd r)))"
proof -
  have "keeps Q emit \<longrightarrow> Q t \<longrightarrow> Q (snd (snd (snd r)))"
  proof (rule next_packet.raw_induct [OF _ assms, where P = "\<lambda>recv emit buf p t r. keeps Q emit \<longrightarrow> Q t \<longrightarrow> Q (snd (snd (snd r)))"],
      intro impI)
    fix f :: "('a \<Rightarrow> ((lpt_error + u8) \<times> 'a) option) \<Rightarrow> (event \<Rightarrow> 'b \<Rightarrow> 'b) \<Rightarrow> u8 list \<Rightarrow> 'a \<Rightarrow> 'b \<Rightarrow>
      (incoming_packet \<times> u8 list \<times> 'a \<times> 'b) option"
    fix recv emit buf p t y
    assume ih: "\<And>recv emit buf p t y. f recv emit buf p t = Some y \<Longrightarrow> keeps Q emit \<longrightarrow> Q t \<longrightarrow> Q (snd (snd (snd y)))"
      and k: "keeps Q emit" "Q t"
      and b: "(case recv p of
        None \<Rightarrow> None
      | Some (r, p) \<Rightarrow>
          if unwrap_or 0 r \<noteq> SOH then f recv emit buf p (emit (PacketStreamResync PreSohByte) t)
          else
            (case fill recv 1 (HEADER_LEN - 1) (buf[0 := SOH]) p of
               None \<Rightarrow> None
             | Some (buf, p) \<Rightarrow>
                 (let payload_len = unat (from_be16 (buf ! 3) (buf ! 4)); total = HEADER_LEN + payload_len + 3
                  in if total > MAX_PACKET then f recv emit buf p (emit (PacketStreamResync PayloadTooLong) t)
                     else
                       (case fill recv HEADER_LEN (total - HEADER_LEN) buf p of
                          None \<Rightarrow> None
                        | Some (buf, p) \<Rightarrow>
                            (case decode (take total buf) of
                               Inl e \<Rightarrow> f recv emit buf p (emit (PacketStreamResync (resync_of e)) t)
                             | Inr q \<Rightarrow> Some (q, buf, p, t)))))) = Some y"
    have "Q (emit ev t)" for ev using k by (simp add: keeps_def)
    then have "f recv emit buf p (emit ev t) = Some y \<Longrightarrow> Q (snd (snd (snd y)))" for buf p ev
      using ih k(1) by blast
    then show "Q (snd (snd (snd y)))"
      using b k(2) by (auto simp: Let_def split: option.splits prod.splits if_splits sum.splits)
  qed
  then show "keeps Q emit \<Longrightarrow> Q t \<Longrightarrow> Q (snd (snd (snd r)))" by blast
qed

lemma handle_packet_keeps:
  "handle_packet emit q s t = Some (r, s', t') \<Longrightarrow> keeps Q emit \<Longrightarrow> Q t \<Longrightarrow> Q t'"
  unfolding keeps_def handle_packet_def handle_block_ack_def with_sink_def Let_def
  by (auto split: if_splits option.splits)

lemma send_packet_keeps:
  "send_packet send emit q p t = Some (r, p', t') \<Longrightarrow> keeps Q emit \<Longrightarrow> Q t \<Longrightarrow> Q t'"
  by (auto simp: send_packet_def keeps_def split: option.splits sum.splits prod.splits)

lemma serve_once_keeps:
  assumes "serve_once recv send emit (s, buf, p, t) = Served (s', buf', p', t')" "keeps Q emit" "Q t"
  shows "Q t'"
proof -
  obtain q buf1 p1 t1 where n: "next_packet recv emit buf p t = Some (q, buf1, p1, t1)"
    using assms(1) by (auto simp: serve_once_def recv_packet_def split: option.splits)
  have 1: "Q t1" using next_packet_keeps [OF n assms(2,3)] by simp
  obtain r s2 t2 where h: "handle_packet emit q s t1 = Some (r, s2, t2)"
    using assms(1) n by (auto simp: serve_once_def recv_packet_def split: option.splits)
  have 2: "Q t2" by (rule handle_packet_keeps [OF h assms(2) 1])
  show ?thesis
  proof (cases r)
    case (Reply out)
    then obtain x where "send_packet send emit out p1 t2 = Some (x, p', t')"
      using assms(1) n h by (auto simp: serve_once_def recv_packet_def split: option.splits)
    from send_packet_keeps [OF this assms(2), OF 2] show ?thesis .
  qed (use assms(1) n h 2 in \<open>auto simp: serve_once_def recv_packet_def\<close>)
qed

lemma dual_emit_bounded: "keeps (\<lambda>t. length (usb_event_chan (snd t)) \<le> 32) dual_emit"
  by (auto simp: keeps_def dual_emit_def multi_emit_def emit_bounded case_prod_beta)

lemma supervisor_turn_leaves:
  "supervisor_turn s = Some t \<Longrightarrow> sys_control t = sys_control s \<and> sys_telemetry t = sys_telemetry s \<and>
     sy_raw (sys_ps2 t) = sy_raw (sys_ps2 s)"
  by (auto simp: supervisor_turn_def Let_def split: list.splits if_splits)

lemma injector_leaves:
  "injector_wake p = Some q \<Longrightarrow> sy_raw q = sy_raw p \<or> sy_raw q = tl (sy_raw p)"
  "injector_finish at_bin xt_bin cls p = Some q \<Longrightarrow> sy_raw q = sy_raw p"
  by (auto simp: injector_wake_def injector_finish_def split: option.splits list.splits)

lemma inject_typed_tl: "inject_typed q \<Longrightarrow> inject_typed (tl q)"
  by (cases q) (auto simp: inject_typed_def)

lemma turn_keeps_types:
  assumes "system_turn at_bin xt_bin enc l s = Some t" "parts_typed s"
  shows "parts_typed t"
proof (cases l)
  case SupervisorTurn
  then have "supervisor_turn s = Some t" using assms(1) by simp
  from supervisor_turn_leaves [OF this] assms(2) show ?thesis by (simp add: parts_typed_unfold)
next
  case InjectorWake
  then obtain p where "injector_wake (sys_ps2 s) = Some p" "t = s\<lparr>sys_ps2 := p\<rparr>"
    using assms(1) by (auto split: if_splits)
  with injector_leaves(1) [of "sys_ps2 s" p] assms(2) inject_typed_tl show ?thesis by (auto simp: parts_typed_unfold)
next
  case InjectorFinish
  then obtain cls p where "injector_finish at_bin xt_bin cls (sys_ps2 s) = Some p" "t = s\<lparr>sys_ps2 := p\<rparr>"
    using assms(1) by (auto split: option.splits)
  with injector_leaves(2) [of at_bin xt_bin cls "sys_ps2 s" p] assms(2) show ?thesis by (simp add: parts_typed_unfold)
next
  case (ControlByte up b)
  then show ?thesis using assms control_leaves_typed [OF control_byte_typed [OF control_view_typed]] by auto
next
  case ControlConnect
  then show ?thesis using assms control_leaves_typed [OF control_connect_typed [OF control_view_typed]] by auto
next
  case MouseInjector
  then show ?thesis using assms
    by (auto simp: parts_typed_unfold mouse_turn_def Let_def case_prod_beta split: list.splits)
next
  case BulkWriter
  then show ?thesis using assms bulk_turn_typed [of "ct_bulk (sys_control s)" "sys_bulk_ep s"]
    by (auto simp: parts_typed_unfold case_prod_beta)
next
  case EventsWriter
  then show ?thesis using assms
    by (auto simp: parts_typed_unfold events_turn_def case_prod_beta split: list.splits)
next
  case ServeRound
  have "length (usb_event_chan (snd t')) \<le> 32"
    if "serve_once mux_recv mux_send_bytes dual_emit (sys_session s, sys_reassembler s, sys_port s, sys_telemetry s) =
      Served (s', buf', p', t')" for s' buf' p' t'
    using serve_once_keeps [OF that dual_emit_bounded] assms(2) by (simp add: parts_typed_unfold)
  then show ?thesis using assms ServeRound
    by (auto simp: parts_typed_unfold split: serve_result.splits)
qed (use assms in \<open>auto simp: parts_typed_unfold case_prod_beta Let_def\<close>)


text \<open>The raw requests a schedule accepts.\<close>

fun accepted ::
  "u8 list \<Rightarrow> u8 list \<Rightarrow> (event \<Rightarrow> u8 list option) \<Rightarrow> turn list \<Rightarrow> system \<Rightarrow> u8 list list" where
  "accepted at_bin xt_bin enc [] s = []"
| "accepted at_bin xt_bin enc (l # ls) s =
     (case system_turn at_bin xt_bin enc l s of
        None \<Rightarrow> []
      | Some t \<Rightarrow> turn_accepts l s t @ accepted at_bin xt_bin enc ls t)"

lemma accepted_snoc:
  assumes "system_run at_bin xt_bin enc ls s0 = Some s" "system_turn at_bin xt_bin enc l s = Some t"
  shows "accepted at_bin xt_bin enc (ls @ [l]) s0 = accepted at_bin xt_bin enc ls s0 @ turn_accepts l s t"
  using assms by (induction ls arbitrary: s0) (auto split: Option.bind_splits)

lemma labels_requests: "requests (turn_labels l s t) = turn_accepts l s t"
proof -
  have "requests (map Requested bs) = bs" for bs
    by (induction bs rule: rev_induct) simp_all
  then show ?thesis
    by (cases l) (simp_all add: turn_labels_def turn_accepts_def requests_def)
qed

lemma requests_append: "requests (ls @ ls') = requests ls @ requests ls'"
  by (simp add: requests_def)

lemma system_contracts:
  assumes "system_run at_bin xt_bin enc ls s0 = Some s" "parts_typed s0"
    and "sys_ps2 s0 = ps2_init cell"
  shows "parts_typed s \<and> (\<exists>pls. ps2_run at_bin xt_bin cell pls (sys_ps2 s) \<and>
    requests pls = accepted at_bin xt_bin enc ls s0)"
  using assms(1)
proof (induction rule: system_run_induct)
  case start
  then show ?case using assms(2,3) ps2_run.boot [of at_bin xt_bin cell] by (auto intro!: exI [of _ "[]"])
next
  case (turn ls l s t)
  then obtain pls where pls: "ps2_run at_bin xt_bin cell pls (sys_ps2 s)"
    "requests pls = accepted at_bin xt_bin enc ls s0" and p: "parts_typed s" by blast
  have "ps2_run at_bin xt_bin cell (pls @ turn_labels l s t) (sys_ps2 t)"
    by (rule turn_runs [OF turn(2) p pls(1)])
  moreover have "requests (pls @ turn_labels l s t) = accepted at_bin xt_bin enc (ls @ [l]) s0"
    using pls(2) accepted_snoc [OF turn(1,2)] by (simp add: requests_append labels_requests)
  ultimately show ?case using turn_keeps_types [OF turn(2) p] by blast
qed

lemma start_typed:
  assumes "length (usb_event_chan (snd (fw_telemetry fw))) \<le> 32" "ep_sent (ln_control ln) = []"
  shows "parts_typed (system_start fw ring_kbd ring_aux ln)"
  using assms by (simp add: parts_typed_unfold system_start_def control_boot_def ps2_init_def line_typed_simps
      inject_typed_def bulk_typed_def packets_small_def)

text \<open>
  C10. The parts keep their contracts inside the whole.  However the turns of all the tasks and the
  movements of the wires are scheduled from boot: what the supervisor, the injector and their queue went
  through is a run of the PS/2 system on its own, whose requests are exactly those the control task
  accepted; what the control task finds when it gets its turn at any time satisfies the interface's type
  invariant; and the event inbox never holds more than its 32 places.
\<close>

theorem system_keeps_contracts:
  assumes "system_run at_bin xt_bin enc ls (system_start fw ring_kbd ring_aux ln) = Some s"
    and "length (usb_event_chan (snd (fw_telemetry fw))) \<le> 32" "ep_sent (ln_control ln) = []"
  shows "(\<exists>pls. ps2_run at_bin xt_bin (fw_lifecycle fw) pls (sys_ps2 s) \<and>
      requests pls = accepted at_bin xt_bin enc ls (system_start fw ring_kbd ring_aux ln)) \<and>
    control_typed (control_view uptime s) \<and> length (usb_event_chan (snd (sys_telemetry s))) \<le> 32"
proof -
  have "sys_ps2 (system_start fw ring_kbd ring_aux ln) = ps2_init (fw_lifecycle fw)"
    by (simp add: system_start_def)
  from system_contracts [OF assms(1) start_typed [OF assms(2,3)] this] show ?thesis
    using control_view_typed [of s uptime] by (auto simp: parts_typed_unfold)
qed

subsection \<open>What can reach the injector\<close>

text \<open>A word without its second bit, wherever the ring's reader looks for it, and a task that has heard nothing.\<close>

definition deaf_ring :: "ring \<Rightarrow> bool" where
  "deaf_ring r \<longleftrightarrow> (\<forall>w \<in> set (rg_words r). \<not> bit w 1) \<and> length (rg_words r) = PS2_RING_WORDS \<and>
     rg_last_tail r < PS2_RING_WORDS"

lemma deaf_store:
  "deaf_ring r \<Longrightarrow> \<forall>w \<in> set ws. \<not> bit w 1 \<Longrightarrow> deaf_ring (fold (dma_store PS2_RING_WORDS) ws r)"
proof (induction ws arbitrary: r)
  case (Cons w ws)
  have "deaf_ring (dma_store PS2_RING_WORDS w r)"
    using Cons.prems set_update_subset_insert [of "rg_words r" "unat (rg_write_addr r - rg_base_addr r) div 4" w]
    by (auto simp: deaf_ring_def dma_store_def Let_def)
  then show ?case using Cons by simp
qed simp

lemma deaf_drain:
  "deaf_ring r \<Longrightarrow> drain_words PS2_RING_WORDS k r = (ws, r') \<Longrightarrow> deaf_ring r' \<and> (\<forall>w \<in> set ws. \<not> bit w 1)"
proof (induction k arbitrary: r ws)
  case (Suc k)
  let ?r = "r\<lparr>rg_last_tail := (rg_last_tail r + 1) mod PS2_RING_WORDS\<rparr>"
  obtain vs where 1: "drain_words PS2_RING_WORDS k ?r = (vs, r')" "ws = rg_words r ! rg_last_tail r # vs"
    using Suc.prems(2) by (auto simp: Let_def split: prod.splits)
  have "deaf_ring ?r" using Suc.prems(1) by (simp add: deaf_ring_def const_defs)
  from Suc.IH [OF this 1(1)] have "deaf_ring r' \<and> (\<forall>w \<in> set vs. \<not> bit w 1)" .
  moreover have "\<not> bit (rg_words r ! rg_last_tail r) 1"
    using Suc.prems(1) nth_mem [of "rg_last_tail r" "rg_words r"] by (auto simp: deaf_ring_def)
  ultimately show ?case using 1(2) by simp
qed auto

lemma deaf_words: "\<forall>w \<in> set ws. \<not> bit w 1 \<Longrightarrow> kt_frames (fold kbd_word ws k) = kt_frames k"
  by (induction ws arbitrary: k) (simp_all add: kbd_word_deaf)

lemma deaf_turn:
  assumes "deaf_ring r" "kbd_turn (r, k) = (r', k')"
  shows "deaf_ring r' \<and> kt_frames k' = kt_frames k"
proof -
  define r1 where "r1 = (if ps2_pending r \<ge> PS2_RING_WORDS - 1 then ps2_resync r else r)"
  define k1 where "k1 = (if ps2_pending r \<ge> PS2_RING_WORDS - 1
    then k\<lparr>kt_counters := count_overrun (kt_counters k)\<rparr> else k)"
  obtain ws r2 where d: "ps2_drain (PS2_RING_WORDS - 1) r1 = (ws, r2)" by fastforce
  have "r' = r2" "k' = fold kbd_word ws k1"
    using assms(2) d by (auto simp: kbd_turn_def r1_def k1_def Let_def split: if_splits)
  moreover have "deaf_ring r1"
    using assms(1) by (simp add: r1_def deaf_ring_def ps2_resync_def ring_resync_def const_defs)
  then have "deaf_ring r2 \<and> (\<forall>w \<in> set ws. \<not> bit w 1)"
    using deaf_drain d by (auto simp: ps2_drain_def ring_drain_def)
  moreover have "kt_frames k1 = kt_frames k" by (simp add: k1_def)
  ultimately show ?thesis using deaf_words by simp
qed


lemma sampled_words_deaf:
  assumes "sm = fst (dma_run kbd_oversample_config ys (sm_start 0 0 False))" "dma_run kbd_oversample_config xs sm = (sm', ws)"
  shows "sm' = fst (dma_run kbd_oversample_config (ys @ xs) (sm_start 0 0 False)) \<and> (\<forall>w \<in> set ws. \<not> bit w 1)"
proof -
  have ready: "sampling_ready (sm_start 0 0 False)" by (simp add: sampling_ready_def sm_start_def)
  have r: "dma_run kbd_oversample_config (ys @ xs) (sm_start 0 0 False) =
      (sm', snd (dma_run kbd_oversample_config ys (sm_start 0 0 False)) @ ws)"
    using assms by (simp add: dma_run_append case_prod_beta Let_def)
  then have "set ws \<subseteq> set (words_of 3 10 (ys @ xs))"
    using oversample_run [OF oversamplers(1) ready, of "ys @ xs"] by (metis set_append snd_conv sup_ge2)
  then show ?thesis using r words_of_low_bits by auto
qed

text \<open>The state of the PS/2 part while nothing is heard on the keyboard wire.\<close>

definition only_requests :: "u8 \<Rightarrow> u8 list list \<Rightarrow> ps2_system \<Rightarrow> bool" where
  "only_requests cell acc p \<longleftrightarrow>
     sy_sv p = supervisor_init cell \<and> sy_typing p = None \<and>
     (\<exists>served. sy_sent p = concat (map raw_ops served) \<and> served @ sy_raw p = acc)"

definition deaf :: "u8 \<Rightarrow> u8 list list \<Rightarrow> system \<Rightarrow> bool" where
  "deaf cell acc s \<longleftrightarrow>
     (\<exists>xs. sys_kbd_sm s = fst (dma_run kbd_oversample_config xs (sm_start 0 0 False))) \<and>
     deaf_ring (sys_kbd_ring s) \<and> kt_frames (sys_kbd s) = [] \<and> only_requests cell acc (sys_ps2 s)"

lemma activity_ignored: "supervisor_step (supervisor_init cell) AuxActivity = supervisor_init cell"
  by (simp add: supervisor_step_def supervisor_init_def ingest_aux_activity_def classifier_new_def)

lemma wake_serves:
  assumes "only_requests cell acc p" "injector_wake p = Some q"
  shows "only_requests cell acc q"
proof -
  obtain served where 1: "sy_sent p = concat (map raw_ops served)" "served @ sy_raw p = acc"
    using assms(1) by (auto simp: only_requests_def)
  have "sv_inject_trigger (sy_sv p) = None" using assms(1) by (simp add: only_requests_def supervisor_init_def)
  then obtain b bs where 2: "sy_raw p = b # bs" "q = p\<lparr>sy_raw := bs, sy_sent := sy_sent p @ raw_ops b\<rparr>"
    using assms(2) by (auto simp: injector_wake_def split: list.splits)
  then have "sy_sent q = concat (map raw_ops (served @ [b])) \<and> (served @ [b]) @ sy_raw q = acc"
    using 1 by simp
  then show ?thesis using assms(1) 2(2) unfolding only_requests_def by auto
qed

lemma deaf_turns:
  assumes "system_turn at_bin xt_bin enc l s = Some t" "deaf cell acc s"
  shows "deaf cell (acc @ turn_accepts l s t) t"
proof (cases l)
  case (KbdWire xs)
  obtain sm ws where d: "dma_run kbd_oversample_config xs (sys_kbd_sm s) = (sm, ws)" by fastforce
  obtain ys where ys: "sys_kbd_sm s = fst (dma_run kbd_oversample_config ys (sm_start 0 0 False))"
    using assms(2) by (auto simp: deaf_def)
  from sampled_words_deaf [OF ys d] have "sm = fst (dma_run kbd_oversample_config (ys @ xs) (sm_start 0 0 False))"
    "\<forall>w \<in> set ws. \<not> bit w 1" by simp_all
  then show ?thesis
    using assms KbdWire d deaf_store [of "sys_kbd_ring s" ws] by (auto simp: deaf_def turn_accepts_def)
next
  case KbdTurn
  then show ?thesis
    using assms deaf_turn [of "sys_kbd_ring s" "sys_kbd s"] by (auto simp: deaf_def turn_accepts_def split: prod.splits)
next
  case SupervisorTurn
  then show ?thesis
    using assms activity_ignored [of cell]
    by (auto simp: supervisor_turn_def deaf_def only_requests_def turn_accepts_def Let_def split: if_splits)
next
  case InjectorWake
  then show ?thesis
    using assms wake_serves [of cell acc "sys_ps2 s"] by (auto simp: deaf_def turn_accepts_def split: if_splits)
next
  case InjectorFinish
  then show ?thesis using assms by (auto simp: deaf_def only_requests_def)
next
  case (ControlByte up b)
  then have t: "t = control_leaves (control_byte b (control_view up s)) s" using assms(1) by simp
  have "sys_ps2 t = (sys_ps2 s)\<lparr>sy_raw := sy_raw (sys_ps2 s) @ turn_accepts l s t\<rparr>"
    using control_byte_accepts [OF t] t by (simp add: control_leaves_def ControlByte)
  moreover have "sys_kbd_sm t = sys_kbd_sm s" "sys_kbd_ring t = sys_kbd_ring s" "sys_kbd t = sys_kbd s"
    by (simp_all add: t control_leaves_def)
  ultimately show ?thesis using assms(2) by (auto simp: deaf_def only_requests_def)
next
  case ControlConnect
  then have "t = control_leaves (control_connect (control_view 0 s)) s" using assms(1) by simp
  then show ?thesis
    using assms(2) by (auto simp: deaf_def only_requests_def control_leaves_def control_connect_def ControlConnect turn_accepts_def)
qed (use assms in \<open>auto simp: deaf_def turn_accepts_def case_prod_beta Let_def split: serve_result.splits prod.splits\<close>)

lemma deaf_run:
  assumes "system_run at_bin xt_bin enc ls s0 = Some s" "deaf cell [] s0"
  shows "deaf cell (accepted at_bin xt_bin enc ls s0) s"
  using assms(1)
proof (induction rule: system_run_induct)
  case start
  then show ?case using assms(2) by simp
next
  case (turn ls l s t)
  with deaf_turns [OF turn(2)] show ?case by (simp add: accepted_snoc [OF turn(1,2)])
qed

lemma start_deaf: "deaf (fw_lifecycle fw) [] (system_start fw ring_kbd ring_aux ln)"
proof -
  have "\<exists>xs. sm_start 0 0 False = fst (dma_run kbd_oversample_config xs (sm_start 0 0 False))"
    by (rule exI [of _ "[]"]) simp
  then show ?thesis
    by (simp add: deaf_def deaf_ring_def ring_static_def only_requests_def system_start_def ps2_init_def
        kbd_task_new_def const_defs)
qed

text \<open>The injector, given its turns, empties the queue.\<close>

lemma injector_catches_up:
  assumes "only_requests cell acc (sys_ps2 s)"
  shows "\<exists>t. system_run at_bin xt_bin enc (replicate (length (sy_raw (sys_ps2 s))) InjectorWake) s = Some t \<and>
    sy_sent (sys_ps2 t) = concat (map raw_ops acc) \<and> sy_raw (sys_ps2 t) = []"
  using assms
proof (induction "sy_raw (sys_ps2 s)" arbitrary: s)
  case Nil
  then show ?case by (auto simp: only_requests_def)
next
  case (Cons b bs)
  define p where "p = (sys_ps2 s)\<lparr>sy_raw := bs, sy_sent := sy_sent (sys_ps2 s) @ raw_ops b\<rparr>"
  have "sy_typing (sys_ps2 s) = None" "sv_inject_trigger (sy_sv (sys_ps2 s)) = None"
    using Cons.prems by (simp_all add: only_requests_def supervisor_init_def)
  then have w: "injector_wake (sys_ps2 s) = Some p" "sy_typing (sys_ps2 s) = None"
    by (simp_all add: injector_wake_def p_def flip: Cons.hyps(2))
  with Cons.hyps(1) [of "s\<lparr>sys_ps2 := p\<rparr>"] wake_serves [OF Cons.prems w(1)] Cons.hyps(2) [symmetric]
  show ?case by (simp add: p_def)
qed

text \<open>
  C5. Nothing but the operator reaches the keyboard transmitter.  From boot, whatever happens on the two
  PS/2 wires, for however long, and however the tasks are scheduled: no frame is ever handed to the
  supervisor, the host is never classified, the injector never types a script and the lifecycle stays
  where the boot left it.  What the transmitter sends is exactly the bytes of the operator's accepted
  injection requests, in order; the few that wait are sent as soon as the injector gets its turns.
\<close>

theorem only_operator_types:
  assumes "system_run at_bin xt_bin enc ls (system_start fw ring_kbd ring_aux ln) = Some s"
  shows "kt_frames (sys_kbd s) = [] \<and> sv_classifier (sy_sv (sys_ps2 s)) = Unknown \<and>
    sv_inject_trigger (sy_sv (sys_ps2 s)) = None \<and> sy_typing (sys_ps2 s) = None \<and>
    sv_lifecycle (sy_sv (sys_ps2 s)) = fw_lifecycle fw \<and>
    (\<exists>served. sy_sent (sys_ps2 s) = concat (map raw_ops served) \<and>
       served @ sy_raw (sys_ps2 s) = accepted at_bin xt_bin enc ls (system_start fw ring_kbd ring_aux ln)) \<and>
    (\<exists>t. system_run at_bin xt_bin enc (replicate (length (sy_raw (sys_ps2 s))) InjectorWake) s = Some t \<and>
       sy_sent (sys_ps2 t) =
         concat (map raw_ops (accepted at_bin xt_bin enc ls (system_start fw ring_kbd ring_aux ln))) \<and>
       sy_raw (sys_ps2 t) = [])"
proof -
  have d: "deaf (fw_lifecycle fw) (accepted at_bin xt_bin enc ls (system_start fw ring_kbd ring_aux ln)) s"
    by (rule deaf_run [OF assms start_deaf])
  then have o: "only_requests (fw_lifecycle fw) (accepted at_bin xt_bin enc ls (system_start fw ring_kbd ring_aux ln))
      (sys_ps2 s)" "kt_frames (sys_kbd s) = []" by (simp_all add: deaf_def)
  from injector_catches_up [OF o(1), of at_bin xt_bin enc] o show ?thesis
    unfolding only_requests_def by (simp add: supervisor_init_def classifier_new_def)
qed


subsection \<open>The serve loop among the other tasks\<close>

definition rounds :: "turn list \<Rightarrow> nat" where
  "rounds ls = length (filter (\<lambda>l. l = ServeRound) ls)"

lemma rounds_simps [simp]: "rounds [] = 0" "rounds (ls @ [l]) = rounds ls + (if l = ServeRound then 1 else 0)"
  by (simp_all add: rounds_def)

text \<open>The serve loop's part of the state after so many rounds over a stream of requests.\<close>

definition tx_at :: "u32 \<Rightarrow> u8 \<Rightarrow> incoming_packet list \<Rightarrow> u8" where
  "tx_at crc seq qs = foldl (\<lambda>k q. tx_after crc q k) seq qs"

lemma replies_spec_snoc:
  "replies_spec crc k (qs @ [q]) = replies_spec crc k qs @ replies_spec crc (tx_at crc k qs) [q]"
  by (induction qs arbitrary: k) (simp_all add: tx_at_def)

definition served_to :: "u32 \<Rightarrow> u8 \<Rightarrow> (u8 list \<times> incoming_packet) list \<Rightarrow> nat \<Rightarrow> system \<Rightarrow> bool" where
  "served_to crc seq xs n s \<longleftrightarrow>
     n \<le> length xs \<and> spp_live (sys_port s) \<and> length (sys_reassembler s) = 256 \<and>
     es2_crc (ss_blob (sys_session s)) = crc \<and> ss_tx_seq (sys_session s) = tx_at crc seq (map snd (take n xs)) \<and>
     mux_incoming (sys_port s) = noisy_stream (drop n xs) \<and>
     mux_outgoing (sys_port s) = reply_frames (replies_spec crc seq (map snd (take n xs)))"

lemma other_turns_leave:
  assumes "system_turn at_bin xt_bin enc l s = Some t" "l \<noteq> ServeRound"
  shows "sys_port t = sys_port s \<and> sys_session t = sys_session s \<and> sys_reassembler t = sys_reassembler s"
  using assms
  by (cases l) (auto simp: supervisor_turn_def control_leaves_def case_prod_beta Let_def split: list.splits if_splits option.splits)

lemma round_serves:
  assumes "served_to crc seq xs n s" "n < length xs" "clean_packets xs"
  shows "\<exists>t. system_turn at_bin xt_bin enc ServeRound s = Some t \<and> served_to crc seq xs (Suc n) t"
proof -
  obtain noise q where x: "xs ! n = (noise, q)" by force
  have d: "drop n xs = (noise, q) # drop (Suc n) xs" using assms(2) x by (metis Cons_nth_drop_Suc)
  have u: "map snd (take (Suc n) xs) = map snd (take n xs) @ [q]" using assms(2) x by (simp add: take_Suc_conv_app_nth)
  have c: "SOH \<notin> set noise" "length (in_payload q) \<le> 248"
    using assms(2,3) x nth_mem [of n xs] by (auto simp: clean_packets_def)
  have st: "spp_live (sys_port s)" "length (sys_reassembler s) = 256" "es2_crc (ss_blob (sys_session s)) = crc"
    "ss_tx_seq (sys_session s) = tx_at crc seq (map snd (take n xs))"
    "mux_incoming (sys_port s) = noise @ packet_frame q @ noisy_stream (drop (Suc n) xs)"
    "mux_outgoing (sys_port s) = reply_frames (replies_spec crc seq (map snd (take n xs)))"
    using assms(1) d by (auto simp: served_to_def noisy_stream_def)
  from spp.serve_once_frame [OF st(1,2) c st(5), of dual_emit "sys_session s" "sys_telemetry s"]
  obtain s' buf' mx t where 1: "serve_once mux_recv mux_send_bytes dual_emit
      (sys_session s, sys_reassembler s, sys_port s, sys_telemetry s) = Served (s', buf', mx, t)"
    "spp_live mx" "length buf' = 256" "mux_incoming mx = noisy_stream (drop (Suc n) xs)" "ss_blob s' = ss_blob (sys_session s)"
    "ss_tx_seq s' = tx_after crc q (ss_tx_seq (sys_session s))"
    "mux_outgoing mx = mux_outgoing (sys_port s) @ reply_frames (replies_spec crc (ss_tx_seq (sys_session s)) [q])"
    unfolding st(3) by blast
  have "ss_tx_seq s' = tx_at crc seq (map snd (take (Suc n) xs))"
    unfolding u using 1(6) st(4) by (simp add: tx_at_def)
  moreover have "mux_outgoing mx = reply_frames (replies_spec crc seq (map snd (take (Suc n) xs)))"
    unfolding u replies_spec_snoc 1(7) st(4,6) by (simp add: reply_frames_def)
  ultimately show ?thesis using 1(1-5) st(3) assms(2) by (simp add: served_to_def)
qed

lemma no_round_on_silence:
  assumes "served_to crc seq xs n s" "system_turn at_bin xt_bin enc ServeRound s = Some t"
  shows "n < length xs"
proof (rule ccontr)
  assume "\<not> n < length xs"
  then have "mux_incoming (sys_port s) = []" using assms(1) by (simp add: served_to_def noisy_stream_def)
  then have "next_packet mux_recv dual_emit (sys_reassembler s) (sys_port s) (sys_telemetry s) = None"
    using spp.next_packet_scan [of "sys_port s" "sys_reassembler s" dual_emit "sys_telemetry s"] assms(1)
    by (simp add: served_to_def scan.simps)
  then show False using assms(2) by (simp add: serve_once_def recv_packet_def)
qed

lemma served_run:
  assumes "system_run at_bin xt_bin enc ls s0 = Some s" "served_to crc seq xs 0 s0" "clean_packets xs"
  shows "served_to crc seq xs (rounds ls) s"
  using assms(1)
proof (induction rule: system_run_induct)
  case start
  then show ?case using assms(2) by simp
next
  case (turn ls l s t)
  show ?case
  proof (cases "l = ServeRound")
    case True
    have "rounds ls < length xs" using no_round_on_silence turn(2,3) True by blast
    with round_serves [OF turn(3) this assms(3), of at_bin xt_bin enc] turn(2) True show ?thesis by auto
  next
    case False
    with other_turns_leave [OF turn(2)] turn(3) show ?thesis by (simp add: served_to_def)
  qed
qed

lemma start_served:
  assumes "documented_unit unit" "base AND 1023 = 0" "bursts_fit 0 bursts"
    and "strobes (noisy_stream xs) is" "concat bursts = snd (dma_run compat_in_config is (sm_start 0 0 False))"
    and "boot unit h v dual_emit (hardware_new base bursts rx) cell t = Some fw"
  shows "served_to (crc32_compute STAGE2_PLACEHOLDER) 0 xs 0 (system_start fw ring_kbd ring_aux ln)"
proof -
  have crc: "es2_crc (ss_blob session_new) = crc32_compute STAGE2_PLACEHOLDER" "ss_tx_seq session_new = 0"
    by (simp_all add: session_new_def session_with_blob_def stage2_new_def stage2_crc32_def)
  have "fw_session fw = session_new" "fw_reassembler fw = reassembler_new" "spp_live (fw_port fw)"
    "mux_incoming (fw_port fw) = noisy_stream xs" "mux_outgoing (fw_port fw) = []"
    using boots [OF assms(1-3), of h v dual_emit rx cell t] captured_requests [OF assms(4,5)] assms(6) by auto
  then show ?thesis
    by (simp add: served_to_def system_start_def crc tx_at_def reply_frames_def reassembler_new_def const_defs)
qed


subsection \<open>Examples\<close>

definition example_firmware :: "((log_level \<times> event) list \<times> usb_inbox) firmware" where
  "example_firmware =
     \<lparr>fw_telemetry = ([], \<lparr>usb_event_chan = [], usb_event_drops = 0\<rparr>), fw_session = session_new,
      fw_reassembler = reassembler_new, fw_port = \<lparr>mx_hw = hardware_new 0x20000400 [] [], mx_active = None\<rparr>,
      fw_lifecycle = lifecycle_set ServeCapHandshake 0\<rparr>"

definition example_link :: usb_link where
  "example_link =
     \<lparr>ln_control = \<lparr>ep_sent = [], ep_faults = [False, True]\<rparr>, ln_bulk = \<lparr>ep_sent = [], ep_faults = []\<rparr>,
      ln_events = \<lparr>ep_sent = [], ep_faults = []\<rparr>, ln_console = \<lparr>ep_sent = [], ep_faults = []\<rparr>\<rparr>"

theorem system_keeps_contracts_witness:
  "\<exists>s pls. system_run [0x90] [] (\<lambda>_. None) [KbdTurn, ControlConnect, ControlByte 5 0x70, EventsWriter, BulkWriter]
      (system_start example_firmware 0x20001000 0x20002000 example_link) = Some s \<and>
    ps2_run [0x90] [] (lifecycle_set ServeCapHandshake 0) pls (sys_ps2 s) \<and> control_typed (control_view 7 s)"
proof -
  obtain s where s: "system_run [0x90] [] (\<lambda>_. None) [KbdTurn, ControlConnect, ControlByte 5 0x70, EventsWriter, BulkWriter]
      (system_start example_firmware 0x20001000 0x20002000 example_link) = Some s"
    by (simp add: case_prod_beta Let_def)
  from system_keeps_contracts [OF s, of 7] show ?thesis
    using s by (auto simp: example_firmware_def example_link_def)
qed

theorem only_operator_types_witness:
  "\<exists>s. system_run [0x90] [] (\<lambda>_. None) [KbdWire (replicate 300 (5, \<lambda>_. True)), KbdTurn, AuxTurn, ControlByte 5 0x0D]
      (system_start example_firmware 0x20001000 0x20002000 example_link) = Some s \<and>
    sv_classifier (sy_sv (sys_ps2 s)) = Unknown \<and>
    (\<exists>served. sy_sent (sys_ps2 s) = concat (map raw_ops served))"
proof -
  obtain s where s: "system_run [0x90] [] (\<lambda>_. None)
      [KbdWire (replicate 300 (5, \<lambda>_. True)), KbdTurn, AuxTurn, ControlByte 5 0x0D]
      (system_start example_firmware 0x20001000 0x20002000 example_link) = Some s"
    by (simp add: case_prod_beta Let_def)
  from only_operator_types [OF s] s show ?thesis by blast
qed


end
