(* ===== verification/Isolation.thy ===== *)
theory Isolation
  imports Firmware "HOL-Library.Sublist"
begin

text \<open>
  What the tasks of the firmware cannot do to each other.  The data plane (session, reassembler, port)
  goes through its rounds as if it were alone, on any input, well formed or not; and no event is lost
  on its way from the data plane to the host without being counted.
\<close>

subsection \<open>The serve loop does not look at its sink\<close>

lemma next_packet_any_sink:
  assumes "next_packet recv emit buf p t = Some r"
  shows "\<exists>u'. next_packet recv emit' buf p u = Some (fst r, fst (snd r), fst (snd (snd r)), u')"
proof -
  have "\<forall>u. \<exists>u'. next_packet recv emit' buf p u = Some (fst r, fst (snd r), fst (snd (snd r)), u')"
  proof (rule next_packet.raw_induct [OF _ assms, where P = "\<lambda>recv emit buf p t r.
      \<forall>u. \<exists>u'. next_packet recv emit' buf p u = Some (fst r, fst (snd r), fst (snd (snd r)), u')"], intro allI)
    fix f :: "('a \<Rightarrow> ((lpt_error + u8) \<times> 'a) option) \<Rightarrow> (event \<Rightarrow> 'b \<Rightarrow> 'b) \<Rightarrow> u8 list \<Rightarrow> 'a \<Rightarrow> 'b \<Rightarrow>
      (incoming_packet \<times> u8 list \<times> 'a \<times> 'b) option"
    fix recv emit buf p t y u
    assume ih: "\<And>recv emit buf p t y. f recv emit buf p t = Some y \<Longrightarrow>
        \<forall>u. \<exists>u'. next_packet recv emit' buf p u = Some (fst y, fst (snd y), fst (snd (snd y)), u')"
      and b: "(case recv p of
        None \<Rightarrow> None
      | Some (r, p) \<Rightarrow>
          if unwrap_or 0 r \<noteq> SOH then f recv emit buf p (emit (PacketStreamResync PreSohByte) t)
          else
            (case fill recv 1 (HEADER_LEN - 1) (buf[0 := SOH]) p of
               None \<Rightarrow> None
             | Some (buf, p) \<Rightarrow>
                 (let payload_len = unat (from_be16 (buf ! 3) (buf ! 4)); total = HEADER_LEN + payload_len + 3
                  in if total > MAX_PACKET then f recv emit buf p (emit (PacketStreamResync PayloadTooLong) t)
                     else
                       (case fill recv HEADER_LEN (total - HEADER_LEN) buf p of
                          None \<Rightarrow> None
                        | Some (buf, p) \<Rightarrow>
                            (case decode (take total buf) of
                               Inl e \<Rightarrow> f recv emit buf p (emit (PacketStreamResync (resync_of e)) t)
                             | Inr q \<Rightarrow> Some (q, buf, p, t)))))) = Some y"
    define R where "R buf p u \<longleftrightarrow> (\<exists>u'. next_packet recv emit' buf p u = Some (fst y, fst (snd y), fst (snd (snd y)), u'))"
      for buf p u
    have r: "R buf p u" if "f recv emit buf p t' = Some y" for buf p t' u
      using ih [OF that] by (simp add: R_def)
    obtain x p1 where x: "recv p = Some (x, p1)" using b by (auto split: option.splits)
    have "R buf p u"
    proof (cases "unwrap_or 0 x = SOH")
      case False
      then have "R buf p1 (emit' (PacketStreamResync PreSohByte) u)" using b x r by simp
      then show ?thesis using False x by (simp add: R_def [of buf p] next_packet.simps [of recv emit' buf p]) (simp add: R_def)
    next
      case True
      then obtain hdr p2 where h: "fill recv 1 (HEADER_LEN - 1) (buf[0 := SOH]) p1 = Some (hdr, p2)"
        using b x by (auto split: option.splits)
      define total where "total = HEADER_LEN + unat (from_be16 (hdr ! 3) (hdr ! 4)) + 3"
      show ?thesis
      proof (cases "total > MAX_PACKET")
        case big: True
        then have "R hdr p2 (emit' (PacketStreamResync PayloadTooLong) u)"
          using b x True h r by (simp add: Let_def total_def)
        then show ?thesis using True x h big
          by (simp add: R_def [of buf p] next_packet.simps [of recv emit' buf p] Let_def total_def) (simp add: R_def)
      next
        case False
        then obtain full p3 where g: "fill recv HEADER_LEN (total - HEADER_LEN) hdr p2 = Some (full, p3)"
          using b x True h by (auto simp: Let_def total_def split: option.splits)
        show ?thesis
        proof (cases "decode (take total full)")
          case (Inl e)
          then have "R full p3 (emit' (PacketStreamResync (resync_of e)) u)"
            using b x True h False g r by (simp add: Let_def total_def)
          then show ?thesis using True x h False g Inl
            by (simp add: R_def [of buf p] next_packet.simps [of recv emit' buf p] Let_def total_def) (simp add: R_def)
        next
          case (Inr q)
          then have "y = (q, full, p3, t)" using b x True h False g by (simp add: Let_def total_def)
          then show ?thesis using True x h False g Inr
            by (simp add: R_def next_packet.simps [of recv emit' buf p] Let_def total_def)
        qed
      qed
    qed
    then show "\<exists>u'. next_packet recv emit' buf p u = Some (fst y, fst (snd y), fst (snd (snd y)), u')"
      by (simp add: R_def)
  qed
  then show ?thesis by blast
qed

text \<open>A result without what the sink has become.\<close>

definition sinkless :: "('a \<times> 'b \<times> 't) option \<Rightarrow> ('a \<times> 'b) option" where
  "sinkless r = map_option (\<lambda>(a, b, _). (a, b)) r"

lemma sinkless_simps [simp]:
  "sinkless (with_sink t x) = x" "sinkless (Some (a, b, t)) = Some (a, b)" "sinkless None = None"
  by (cases x) (auto simp: sinkless_def with_sink_def)

lemma sinkless_SomeD: "r = Some (a, b, t) \<Longrightarrow> sinkless r = sinkless r' \<Longrightarrow> \<exists>t'. r' = Some (a, b, t')"
  by (cases r') (auto simp: sinkless_def)

lemma handle_packet_any_sink:
  "sinkless (handle_packet emit q s t) = sinkless (handle_packet emit' q s u)"
  by (simp add: handle_packet_def handle_block_ack_def Let_def if_distrib [of sinkless] cong: if_cong)

lemma send_packet_any_sink:
  "sinkless (send_packet send emit q p t) = sinkless (send_packet send emit' q p u)"
  by (simp add: send_packet_def case_prod_beta split: option.split sum.split)

lemma serve_once_any_sink:
  assumes "serve_once recv send emit (s, buf, p, t) = Served (s', buf', p', t')"
  shows "\<exists>u'. serve_once recv send emit' (s, buf, p, u) = Served (s', buf', p', u')"
proof -
  obtain q buf1 p1 t1 where n: "next_packet recv emit buf p t = Some (q, buf1, p1, t1)"
    using assms by (auto simp: serve_once_def recv_packet_def split: option.splits)
  obtain u1 where n': "next_packet recv emit' buf p u = Some (q, buf1, p1, u1)"
    using next_packet_any_sink [OF n, of emit' u] by auto
  obtain r s2 t2 where h: "handle_packet emit q s t1 = Some (r, s2, t2)"
    using assms n by (auto simp: serve_once_def recv_packet_def split: option.splits)
  obtain u2 where h': "handle_packet emit' q s u1 = Some (r, s2, u2)"
    using sinkless_SomeD [OF h handle_packet_any_sink [of emit q s t1 emit' u1]] by blast
  show ?thesis
  proof (cases r)
    case (Reply out)
    then obtain x where x: "send_packet send emit out p1 t2 = Some (x, p', t')" "s' = s2" "buf' = buf1"
      using assms n h by (auto simp: serve_once_def recv_packet_def split: option.splits)
    obtain u' where "send_packet send emit' out p1 u2 = Some (x, p', u')"
      using sinkless_SomeD [OF x(1) send_packet_any_sink [of send emit out p1 t2 emit' u2]] by blast
    then show ?thesis using n' h' Reply x by (simp add: serve_once_def recv_packet_def)
  qed (use assms n h n' h' in \<open>auto simp: serve_once_def recv_packet_def\<close>)
qed

subsection \<open>The data plane on its own\<close>

lemma serve_rounds_snoc:
  "serve_rounds recv send emit n st = Served st1 \<Longrightarrow>
   serve_rounds recv send emit (Suc n) st = serve_once recv send emit st1"
proof (induction n arbitrary: st)
  case (Suc n)
  then obtain st2 where "serve_once recv send emit st = Served st2" "serve_rounds recv send emit n st2 = Served st1"
    by (auto split: serve_result.splits)
  with Suc.IH [of st2] show ?case by simp
qed (simp split: serve_result.split)

definition alone :: "nat \<Rightarrow> system \<Rightarrow> (session_state \<times> u8 list \<times> lpt_mux \<times> unit) serve_result" where
  "alone n s =
     serve_rounds mux_recv mux_send_bytes noop_emit n (sys_session s, sys_reassembler s, sys_port s, ())"

lemma round_alone:
  "(\<exists>t. system_turn at_bin xt_bin enc ServeRound s = Some t \<and> sys_session t = x \<and> sys_reassembler t = y \<and> sys_port t = z) \<longleftrightarrow>
   serve_once mux_recv mux_send_bytes noop_emit (sys_session s, sys_reassembler s, sys_port s, ()) = Served (x, y, z, ())"
  (is "?L \<longleftrightarrow> ?R")
proof
  assume ?L
  then obtain t where "serve_once mux_recv mux_send_bytes dual_emit
      (sys_session s, sys_reassembler s, sys_port s, sys_telemetry s) = Served (x, y, z, t)"
    by (auto split: serve_result.splits prod.splits)
  from serve_once_any_sink [OF this, of noop_emit "()"] show ?R by simp
next
  assume ?R
  from serve_once_any_sink [OF this, of dual_emit "sys_telemetry s"] show ?L by auto
qed

lemma rounds_alone:
  assumes "system_run at_bin xt_bin enc ls s0 = Some s"
  shows "alone (rounds ls) s0 = Served (sys_session s, sys_reassembler s, sys_port s, ())"
  using assms
proof (induction rule: system_run_induct)
  case start
  then show ?case by (simp add: alone_def)
next
  case (turn ls l s t)
  show ?case
  proof (cases "l = ServeRound")
    case True
    have "serve_once mux_recv mux_send_bytes noop_emit (sys_session s, sys_reassembler s, sys_port s, ()) =
        Served (sys_session t, sys_reassembler t, sys_port t, ())"
      using round_alone turn(2) True by blast
    moreover have "serve_rounds mux_recv mux_send_bytes noop_emit (rounds ls)
        (sys_session s0, sys_reassembler s0, sys_port s0, ()) = Served (sys_session s, sys_reassembler s, sys_port s, ())"
      using turn(3) by (simp add: alone_def)
    ultimately show ?thesis using serve_rounds_snoc [of mux_recv mux_send_bytes noop_emit "rounds ls"] True
      by (simp add: alone_def del: serve_rounds.simps)
  next
    case False
    then show ?thesis using other_turns_leave [OF turn(2)] turn(3) by simp
  qed
qed


text \<open>A booted firmware at whose port a stray byte and a ping have arrived.\<close>

definition ping_request :: "(u8 list \<times> incoming_packet) list" where
  "ping_request = [([0xFF], \<lparr>in_cmd = CMD_PING, in_seq = 0, in_payload = [7]\<rparr>)]"

lemma ping_arrived:
  "\<exists>fw. served_to (crc32_compute STAGE2_PLACEHOLDER) 0 ping_request 0 (system_start fw 0x20001000 0x20002000 example_link)"
proof -
  let ?bs = "noisy_stream ping_request"
  let ?h = "\<lparr>sn_en = False, sn_dmach = 0, sn_calc = Calc_CRC16, sn_bswap = False, sn_out_rev = False,
    sn_out_inv = False, sn_data = 0\<rparr>"
  let ?t = "([], \<lparr>usb_event_chan = [], usb_event_drops = 0\<rparr>)"
  have base: "(0x20000400 :: u32) AND 1023 = 0" by simp
  have fit: "bursts_fit 0 [map captured ?bs]" by (simp add: ping_request_def noisy_stream_def packet_frame_def const_defs)
  have words: "concat [map captured ?bs] = snd (dma_run compat_in_config (host_pulses ?bs) (sm_start 0 0 False))"
    using compat_in_run [OF strobes_host_pulses, of "sm_start 0 0 False" ?bs] by (simp add: capture_ready_def sm_start_def)
  obtain fw where fw: "boot example_unit ?h ''0.1.0'' dual_emit (hardware_new 0x20000400 [map captured ?bs] []) 0 ?t = Some fw"
    using boots [OF example_unit_documented base fit, of ?h "''0.1.0''" dual_emit "[]" 0 ?t] by blast
  from start_served [OF example_unit_documented base fit strobes_host_pulses words fw] show ?thesis by blast
qed


subsection \<open>Every event is delivered, waiting or counted\<close>

text \<open>
  After \<open>new\<close> events on top of those that were waiting at the start: the log has them all, the events
  written so far and those in the inbox are some of them in order, and the others are counted.
\<close>

definition accounted ::
  "(log_level \<times> event) list \<times> usb_inbox \<Rightarrow> event list \<Rightarrow> (log_level \<times> event) list \<times> usb_inbox \<Rightarrow> bool" where
  "accounted t0 written t \<longleftrightarrow>
     (\<exists>new. fst t = fst t0 @ map (\<lambda>e. (defmt_level e, e)) new \<and>
        subseq (written @ usb_event_chan (snd t)) (usb_event_chan (snd t0) @ new) \<and>
        usb_event_drops (snd t) = usb_event_drops (snd t0) +
          of_nat (length (usb_event_chan (snd t0) @ new) - length (written @ usb_event_chan (snd t))))"

lemma usb_emit_cases:
  obtains "usb_emit ev u = u\<lparr>usb_event_chan := usb_event_chan u @ [ev]\<rparr>"
  | "usb_emit ev u = u\<lparr>usb_event_drops := usb_event_drops u + 1\<rparr>"
  unfolding usb_emit_def by (cases "vec_push USB_EVENT_CAP (usb_event_chan u) ev") (auto simp: vec_push_def vec_extend_def split: if_splits)

lemma accounted_emit:
  assumes "accounted t0 written t"
  shows "accounted t0 written (dual_emit ev t)"
proof -
  obtain new where n: "fst t = fst t0 @ map (\<lambda>e. (defmt_level e, e)) new"
      "subseq (written @ usb_event_chan (snd t)) (usb_event_chan (snd t0) @ new)"
      "usb_event_drops (snd t) = usb_event_drops (snd t0) +
        of_nat (length (usb_event_chan (snd t0) @ new) - length (written @ usb_event_chan (snd t)))"
    using assms by (auto simp: accounted_def)
  have len: "length (written @ usb_event_chan (snd t)) \<le> length (usb_event_chan (snd t0) @ new)"
    using n(2) by (rule list_emb_length)
  have 1: "fst (dual_emit ev t) = fst t0 @ map (\<lambda>e. (defmt_level e, e)) (new @ [ev])"
    by (simp add: dual_emit_def dual.multi_fst defmt_emit_def n(1))
  have 2: "snd (dual_emit ev t) = usb_emit ev (snd t)" by (simp add: dual_emit_def dual.multi_snd)
  show ?thesis
  proof (cases rule: usb_emit_cases [of ev "snd t"])
    case room: 1
    have "subseq ((written @ usb_event_chan (snd t)) @ [ev]) ((usb_event_chan (snd t0) @ new) @ [ev])"
      using n(2) by (simp del: append_assoc)
    then show ?thesis unfolding accounted_def
      using 1 2 room n(3) by (intro exI [of _ "new @ [ev]"]) simp
  next
    case lost: 2
    have "subseq ((written @ usb_event_chan (snd t)) @ []) ((usb_event_chan (snd t0) @ new) @ [ev])"
      by (rule list_emb_append_mono [OF n(2)]) simp
    moreover have "of_nat (length (usb_event_chan (snd t0) @ new @ [ev]) - length (written @ usb_event_chan (snd t))) =
        (of_nat (length (usb_event_chan (snd t0) @ new) - length (written @ usb_event_chan (snd t))) :: u32) + 1"
      using len by (simp add: Suc_diff_le)
    ultimately show ?thesis unfolding accounted_def
      using 1 2 lost n(3) by (intro exI [of _ "new @ [ev]"]) simp
  qed
qed

lemma accounted_write:
  "accounted t0 written (log, u) \<Longrightarrow> usb_event_chan u = ev # evs \<Longrightarrow>
   accounted t0 (written @ [ev]) (log, u\<lparr>usb_event_chan := evs\<rparr>)"
  by (simp add: accounted_def)

lemma other_turns_keep_telemetry:
  assumes "system_turn at_bin xt_bin enc l s = Some t" "l \<noteq> ServeRound" "l \<noteq> EventsWriter"
  shows "sys_telemetry t = sys_telemetry s \<and> sys_events_ep t = sys_events_ep s"
  using assms
  by (cases l) (auto simp: supervisor_turn_def control_leaves_def case_prod_beta Let_def split: list.splits if_splits option.splits)

lemma accounted_run:
  assumes "system_run at_bin xt_bin enc ls s0 = Some s"
  shows "\<exists>written. accounted (sys_telemetry s0) written (sys_telemetry s) \<and>
    sys_events_ep s = fold (write_event enc) written (sys_events_ep s0)"
  using assms
proof (induction rule: system_run_induct)
  case start
  show ?case by (rule exI [of _ "[]"]) (simp add: accounted_def)
next
  case (turn ls l s t)
  then obtain written where w: "accounted (sys_telemetry s0) written (sys_telemetry s)"
      "sys_events_ep s = fold (write_event enc) written (sys_events_ep s0)" by blast
  consider "l = ServeRound" | "l = EventsWriter" | "l \<noteq> ServeRound" "l \<noteq> EventsWriter" by blast
  then show ?case
  proof cases
    case 1
    then obtain x y z where r: "serve_once mux_recv mux_send_bytes dual_emit
        (sys_session s, sys_reassembler s, sys_port s, sys_telemetry s) = Served (x, y, z, sys_telemetry t)"
      and e: "sys_events_ep t = sys_events_ep s"
      using turn(2) by (auto split: serve_result.splits prod.splits)
    have "keeps (accounted (sys_telemetry s0) written) dual_emit" by (simp add: keeps_def accounted_emit)
    from serve_once_keeps [OF r this w(1)] w(2) e show ?thesis by auto
  next
    case 2
    show ?thesis
    proof (cases "usb_event_chan (snd (sys_telemetry s))")
      case Nil
      then show ?thesis using turn(2) 2 w by (auto simp: events_turn_def case_prod_beta)
    next
      case (Cons ev evs)
      then have "sys_telemetry t = (fst (sys_telemetry s), (snd (sys_telemetry s))\<lparr>usb_event_chan := evs\<rparr>)"
        "sys_events_ep t = write_event enc ev (sys_events_ep s)"
        using turn(2) 2 by (auto simp: events_turn_def case_prod_beta)
      then show ?thesis using accounted_write [OF _ Cons, of _ written "fst (sys_telemetry s)"] w
        by (intro exI [of _ "written @ [ev]"]) simp
    qed
  next
    case 3
    with other_turns_keep_telemetry [OF turn(2)] w show ?thesis by auto
  qed
qed

lemma written_bytes:
  "ep_faults e = [] \<Longrightarrow> ep_faults (fold (write_event enc) evs e) = [] \<and>
     concat (ep_sent (fold (write_event enc) evs e)) = concat (ep_sent e) @ concat (List.map_filter enc evs)"
  by (induction evs arbitrary: e)
    (simp_all add: write_event_def stream_frame_ok map_filter_def split: option.split)

text \<open>
  C8. No event is lost unnoticed.  From boot, under every schedule of the tasks and on whatever input:
  on an events endpoint that does not fail, a host that has read what was sent so far, cut into reads as
  it may be, has printed the mirrors of events which, followed by those still waiting in the inbox, are a
  subsequence of the events the debug probe has logged; and \<^verbatim>\<open>USB_EVENT_DROPS\<close> has grown by exactly the
  number of logged events that are neither (modulo \<open>2 ^ 32\<close>).  Of those printed only the ones are
  missing which the serializer refuses.
\<close>

theorem events_accounted:
  assumes "system_run at_bin xt_bin (to_slice \<circ> event_value) ls (system_start fw ring_kbd ring_aux ln) = Some s"
    and "frames_terminated to_slice" "decodes_back to_slice from_bytes"
    and "ep_faults (ln_events ln) = []" "ep_sent (ln_events ln) = []"
    and "read_result.ReadFailed \<notin> set rs" "received rs = concat (ep_sent (sys_events_ep s))"
  shows "\<exists>new shown.
    fst (sys_telemetry s) = fst (fw_telemetry fw) @ map (\<lambda>e. (defmt_level e, e)) new \<and>
    read_loop (host_decode from_bytes) [] rs =
      (map (Printed \<circ> mirror) (filter (\<lambda>ev. to_slice (event_value ev) \<noteq> None) shown), Some []) \<and>
    subseq (shown @ usb_event_chan (snd (sys_telemetry s))) (usb_event_chan (snd (fw_telemetry fw)) @ new) \<and>
    usb_event_drops (snd (sys_telemetry s)) = usb_event_drops (snd (fw_telemetry fw)) +
      of_nat (length (usb_event_chan (snd (fw_telemetry fw)) @ new) -
        length (shown @ usb_event_chan (snd (sys_telemetry s))))"
proof -
  obtain shown where w: "accounted (fw_telemetry fw) shown (sys_telemetry s)"
      "sys_events_ep s = fold (write_event (to_slice \<circ> event_value)) shown (ln_events ln)"
    using accounted_run [OF assms(1)] by (auto simp: system_start_def)
  have "received rs = concat (List.map_filter (to_slice \<circ> event_value) shown)"
    using written_bytes [OF assms(4)] assms(5,7) w(2) by simp
  then have "read_loop (host_decode from_bytes) [] rs =
      (map (Printed \<circ> mirror) (filter (\<lambda>ev. to_slice (event_value ev) \<noteq> None) shown), Some [])"
    using frames_printed [OF assms(2,3), of shown] by (simp add: read_loop_drains assms(6))
  with w(1) show ?thesis unfolding accounted_def by blast
qed

text \<open>An event waits when the tasks start; the writer sends it, and the host shows it.\<close>

theorem events_accounted_witness:
  "\<exists>s rs new shown. system_run [] [] (map_of three_events \<circ> event_value) [EventsWriter, KbdTurn]
      (system_start (example_firmware\<lparr>fw_telemetry := ([], \<lparr>usb_event_chan = [UnknownCmd 0x42], usb_event_drops = 3\<rparr>)\<rparr>)
        0x20001000 0x20002000 example_link) = Some s \<and>
    rs = [ReadOk [3, 5], ReadTimedOut, ReadOk [0x42, 0]] \<and>
    read_loop (host_decode three_decode) [] rs =
      (map (Printed \<circ> mirror) (filter (\<lambda>ev. map_of three_events (event_value ev) \<noteq> None) shown), Some []) \<and>
    subseq (shown @ usb_event_chan (snd (sys_telemetry s))) ([UnknownCmd 0x42] @ new)"
proof -
  let ?fw = "example_firmware\<lparr>fw_telemetry := ([], \<lparr>usb_event_chan = [UnknownCmd 0x42], usb_event_drops = 3\<rparr>)\<rparr>"
  have f: "frames_terminated (map_of three_events)" "decodes_back (map_of three_events) three_decode"
    by (auto simp: frames_terminated_def decodes_back_def three_events_def three_decode_def split: if_splits)
  obtain s where s: "system_run [] [] (map_of three_events \<circ> event_value) [EventsWriter, KbdTurn]
      (system_start ?fw 0x20001000 0x20002000 example_link) = Some s"
    by (simp add: case_prod_beta Let_def)
  then have "sys_events_ep s = write_event (map_of three_events \<circ> event_value) (UnknownCmd 0x42) (ln_events example_link)"
    by (auto simp: system_start_def example_firmware_def events_turn_def case_prod_beta Let_def)
  then have "concat (ep_sent (sys_events_ep s)) = [3, 5, 0x42, 0]"
    by (simp add: write_event_def three_events_def event_value_def stream_frame_ok example_link_def)
  with events_accounted [OF s f, of "[ReadOk [3, 5], ReadTimedOut, ReadOk [0x42, 0]]"] s show ?thesis
    by (fastforce simp: example_link_def received_def example_firmware_def)
qed

end
