(* ===== verification/Panel.thy ===== *)
theory Panel
  imports Firmware
begin

text \<open>
  What the operator's side of the whole firmware does, as a small machine of its own: a panel with a line
  being typed and three lanes, one for the keyboard, one for the mouse, one for bulk tests.  The firmware
  refines it under every schedule: neither the wires, nor the host on the parallel port, nor the other
  tasks, nor a failing control endpoint, nor the clock change what the panel does.
\<close>

subsection \<open>The panel\<close>

text \<open>A bounded queue and what has been taken from it.\<close>

record 'a lane =
  la_waiting :: "'a list"
  la_served :: "'a list"

definition lane_put :: "nat \<Rightarrow> 'a \<Rightarrow> 'a lane \<Rightarrow> 'a lane" where
  "lane_put cap x l = (if length (la_waiting l) < cap then l\<lparr>la_waiting := la_waiting l @ [x]\<rparr> else l)"

definition lane_take :: "'a lane \<Rightarrow> 'a lane" where
  "lane_take l = (case la_waiting l of [] \<Rightarrow> l | x # xs \<Rightarrow> l\<lparr>la_waiting := xs, la_served := la_served l @ [x]\<rparr>)"

definition lane_new :: "'a lane" where
  "lane_new = \<lparr>la_waiting = [], la_served = []\<rparr>"

text \<open>What a line asks for.\<close>

datatype command = Keys "u8 list" | Pointer mouse_cmd | Test "u8 list"

definition keys_of :: "u8 list list \<Rightarrow> command option" where
  "keys_of args =
     (case those (map parse_u8_hex args) of
        Some bs \<Rightarrow> if bs \<noteq> [] \<and> length bs \<le> 32 then Some (Keys bs) else None
      | None \<Rightarrow> None)"

fun move_of :: "u8 list list \<Rightarrow> command option" where
  "move_of (dx # dy # _) =
     (case (parse_i16 dx, parse_i16 dy) of (Some x, Some y) \<Rightarrow> Some (Pointer (Move x y)) | _ \<Rightarrow> None)"
| "move_of _ = None"

fun button_of :: "u8 list list \<Rightarrow> command option" where
  "button_of (b # d # _) =
     (case parse_btn (Some b) of
        Some btn \<Rightarrow>
          if d = ascii ''down'' then Some (Pointer (Button btn True))
          else if d = ascii ''up'' then Some (Pointer (Button btn False)) else None
      | None \<Rightarrow> None)"
| "button_of _ = None"

definition test_of :: "u8 list \<Rightarrow> u8 list" where
  "test_of trimmed =
     (let rest = trim_start (case strip_prefix (ascii ''bulk_test'') trimmed of Some r \<Rightarrow> r | None \<Rightarrow> [])
      in if rest = [] then ascii ''hello'' else utf8 rest)"

definition command_of :: "u8 list \<Rightarrow> command option" where
  "command_of line =
     (case split_ascii_whitespace (trim line) of
        [] \<Rightarrow> None
      | verb # args \<Rightarrow>
          if verb = ascii ''inject'' then keys_of args
          else if verb = ascii ''mouse_move'' then move_of args
          else if verb = ascii ''mouse_button'' then button_of args
          else if verb = ascii ''bulk_test'' then Some (Test (test_of (trim line)))
          else None)"

text \<open>The panel.  A test takes a number also when it is too long or finds no room.\<close>

record panel =
  pn_line :: "u8 list"
  pn_keys :: "u8 list lane"
  pn_moves :: "mouse_cmd lane"
  pn_tests :: "(u16 \<times> u8 list) lane"
  pn_number :: u16

definition panel_new :: panel where
  "panel_new = \<lparr>pn_line = [], pn_keys = lane_new, pn_moves = lane_new, pn_tests = lane_new, pn_number = 0\<rparr>"

definition panel_enter :: "command option \<Rightarrow> panel \<Rightarrow> panel" where
  "panel_enter cmd p =
     (case cmd of
        None \<Rightarrow> p
      | Some (Keys bs) \<Rightarrow> p\<lparr>pn_keys := lane_put 4 bs (pn_keys p)\<rparr>
      | Some (Pointer m) \<Rightarrow> p\<lparr>pn_moves := lane_put 8 m (pn_moves p)\<rparr>
      | Some (Test msg) \<Rightarrow>
          p\<lparr>pn_tests := (if length msg \<le> 496 then lane_put 4 (pn_number p, msg) (pn_tests p) else pn_tests p),
            pn_number := pn_number p + 1\<rparr>)"

text \<open>A return ends the line; a line longer than 128 bytes of UTF-8 is thrown away.\<close>

definition panel_byte :: "u8 \<Rightarrow> panel \<Rightarrow> panel" where
  "panel_byte b p =
     (if b = 0x0D \<or> b = 0x0A then (panel_enter (command_of (pn_line p)) p)\<lparr>pn_line := []\<rparr>
      else if length (utf8 (pn_line p @ [b])) \<le> 128 then p\<lparr>pn_line := pn_line p @ [b]\<rparr>
      else p\<lparr>pn_line := []\<rparr>)"

fun panel_turn :: "turn \<Rightarrow> panel \<Rightarrow> panel" where
  "panel_turn (ControlByte up b) p = panel_byte b p"
| "panel_turn ControlConnect p = p\<lparr>pn_line := []\<rparr>"
| "panel_turn InjectorWake p = p\<lparr>pn_keys := lane_take (pn_keys p)\<rparr>"
| "panel_turn MouseInjector p = p\<lparr>pn_moves := lane_take (pn_moves p)\<rparr>"
| "panel_turn BulkWriter p = p\<lparr>pn_tests := lane_take (pn_tests p)\<rparr>"
| "panel_turn _ p = p"

definition panel_after :: "turn list \<Rightarrow> panel" where
  "panel_after ls = fold panel_turn ls panel_new"

subsection \<open>The control task and the panel\<close>

definition test_frame :: "u16 \<times> u8 list \<Rightarrow> (u16 \<times> u16 \<times> u8 list) option" where
  "test_frame t = Some (0xFF, t)"

text \<open>What the control task and the panel have in common.\<close>

definition agrees :: "panel \<Rightarrow> control \<Rightarrow> bool" where
  "agrees p c \<longleftrightarrow> ct_line c = pn_line p \<and> ct_inject c = la_waiting (pn_keys p) \<and> ct_mouse c = la_waiting (pn_moves p) \<and>
     map parse_frame (ct_bulk c) = map test_frame (la_waiting (pn_tests p)) \<and> ct_bulk_seq c = pn_number p"

lemma send_bytes_leaves [simp]:
  "ct_line (send_bytes bs c) = ct_line c" "ct_inject (send_bytes bs c) = ct_inject c"
  "ct_mouse (send_bytes bs c) = ct_mouse c" "ct_bulk (send_bytes bs c) = ct_bulk c"
  "ct_bulk_seq (send_bytes bs c) = ct_bulk_seq c"
  by (simp_all add: send_bytes_def)

lemmas replies_unfold = send_line_def send_fmt_def send_stats_def

lemma replies_agree [simp]:
  "agrees p (send_line l c) = agrees p c" "agrees p (send_fmt cap ps c) = agrees p c"
  "agrees p (send_stats c) = agrees p c"
  by (simp_all add: agrees_def replies_unfold)

lemma inject_bytes_those:
  "length bs \<le> 32 \<Longrightarrow>
   (case inject_bytes toks bs of Inl _ \<Rightarrow> None | Inr r \<Rightarrow> Some r) =
     (case those (map parse_u8_hex toks) of
        Some new \<Rightarrow> if length (bs @ new) \<le> 32 then Some (bs @ new) else None
      | None \<Rightarrow> None)"
proof (induction toks arbitrary: bs)
  case (Cons tok toks)
  then show ?case
    using Cons.IH [of "bs @ [b]" for b]
    by (auto simp: INJECT_RAW_MAX_def split: option.splits)
qed simp

lemma inject_agrees:
  assumes "agrees p c"
  shows "agrees (panel_enter (keys_of args) p) (handle_inject args c)"
proof (cases "inject_bytes args []")
  case (Inl r)
  then have "keys_of args = None"
    using inject_bytes_those [of "[]" args] by (auto simp: keys_of_def split: option.splits if_splits)
  then show ?thesis using Inl assms by (simp add: handle_inject_def panel_enter_def)
next
  case (Inr bs)
  then have "those (map parse_u8_hex args) = Some bs" "length bs \<le> 32"
    using inject_bytes_those [of "[]" args] by (auto split: option.splits if_splits)
  then have "keys_of args = (if bs = [] then None else Some (Keys bs))" by (simp add: keys_of_def)
  then show ?thesis using Inr assms
    by (simp add: handle_inject_def panel_enter_def lane_put_def const_defs agrees_def replies_unfold)
qed

lemma mouse_try_send_agrees:
  "agrees p c \<Longrightarrow> agrees (panel_enter (Some (Pointer m)) p) (mouse_try_send m c)"
  by (simp add: mouse_try_send_def panel_enter_def lane_put_def const_defs agrees_def replies_unfold)

lemma mouse_move_agrees: "agrees p c \<Longrightarrow> agrees (panel_enter (move_of args) p) (handle_mouse_move args c)"
  using mouse_try_send_agrees [of p c]
  by (cases args rule: move_of.cases)
    (auto simp: handle_mouse_move_def next_token_def panel_enter_def [of None] split: option.split)

lemma mouse_button_agrees:
  assumes "agrees p c"
  shows "agrees (panel_enter (button_of args) p) (handle_mouse_button args c)"
proof (cases "parse_btn (next_token args)")
  case None
  then have "button_of args = None" by (cases args rule: button_of.cases) (simp_all add: next_token_def)
  then show ?thesis using None assms by (simp add: handle_mouse_button_def panel_enter_def)
next
  case (Some btn)
  then obtain b ds where a: "args = b # ds" by (cases args) (simp_all add: next_token_def parse_btn_def)
  show ?thesis
  proof (cases ds)
    case Nil
    then show ?thesis using Some a assms by (simp add: handle_mouse_button_def next_token_def panel_enter_def)
  next
    case (Cons d es)
    then show ?thesis using Some a assms mouse_try_send_agrees [OF assms]
      by (simp add: handle_mouse_button_def next_token_def Let_def panel_enter_def [of None] del: ascii_simps)
  qed
qed

lemma bulk_test_agrees:
  assumes "agrees p c"
  shows "agrees (panel_enter (Some (Test (test_of trimmed))) p) (handle_bulk_test trimmed c)"
proof -
  define u where "u = c\<lparr>ct_bulk_seq := ct_bulk_seq c + 1\<rparr>"
  have h: "handle_bulk_test trimmed c =
      (case bulk_build_frame BulkTest (ct_bulk_seq c) (test_of trimmed) of
         Inl _ \<Rightarrow> send_line (ascii ''err bulk_test payload too long'') u
       | Inr f \<Rightarrow>
           if length (ct_bulk c) < 4
           then send_fmt 48 [ascii ''ok bulk queued '', fmt_dec (length f), ascii ''B''] (u\<lparr>ct_bulk := ct_bulk c @ [f]\<rparr>)
           else send_line (ascii ''err bulk queue full'') u)"
    unfolding handle_bulk_test_def Let_def next_seq_def split test_of_def u_def
    by (simp add: bulk_try_send_def BULK_OUT_DEPTH_def del: ascii_simps split: sum.split)
  have len: "length (ct_bulk c) = length (la_waiting (pn_tests p))"
    using assms by (metis agrees_def length_map)
  show ?thesis
  proof (cases "length (test_of trimmed) \<le> 496")
    case True
    then obtain f where f: "bulk_build_frame BulkTest (ct_bulk_seq c) (test_of trimmed) = Inr f"
      by (simp add: bulk_build_frame_eq)
    with bulk_frame_typed [OF f] len assms True show ?thesis
      by (simp add: h u_def panel_enter_def lane_put_def agrees_def test_frame_def replies_unfold del: ascii_simps)
  next
    case False
    then have "bulk_build_frame BulkTest (ct_bulk_seq c) (test_of trimmed) = Inl ()" by (simp add: bulk_build_frame_eq)
    then show ?thesis using False assms by (simp add: h u_def panel_enter_def agrees_def replies_unfold del: ascii_simps)
  qed
qed

lemma dispatch_agrees:
  assumes "agrees p c"
  shows "agrees (panel_enter (command_of line) p) (dispatch line c)"
proof (cases "split_ascii_whitespace (trim line)")
  case Nil
  then show ?thesis using assms by (simp add: dispatch_def command_of_def panel_enter_def)
next
  case (Cons verb args)
  note handlers = inject_agrees [OF assms] mouse_move_agrees [OF assms] mouse_button_agrees [OF assms]
    bulk_test_agrees [OF assms]
  have "dispatch line c =
     (if verb = [] then c
      else if verb = ascii ''ping'' then send_fmt 32 [ascii ''pong '', fmt_dec (ct_uptime_ms c)] c
      else if verb = ascii ''stats'' then send_stats c
      else if verb = ascii ''inject'' then handle_inject args c
      else if verb = ascii ''mouse_move'' then handle_mouse_move args c
      else if verb = ascii ''mouse_button'' then handle_mouse_button args c
      else if verb = ascii ''bulk_test'' then handle_bulk_test (trim line) c
      else send_fmt 64 [ascii ''err unknown verb: '', utf8 verb] c)"
    by (simp only: dispatch_def Let_def Cons list.case list.sel)
  moreover have "command_of line =
     (if verb = ascii ''inject'' then keys_of args
      else if verb = ascii ''mouse_move'' then move_of args
      else if verb = ascii ''mouse_button'' then button_of args
      else if verb = ascii ''bulk_test'' then Some (Test (test_of (trim line))) else None)"
    by (simp only: command_of_def Cons list.case)
  moreover have "agrees (panel_enter None p) c" using assms by (simp add: panel_enter_def)
  ultimately show ?thesis using handlers by simp
qed

lemma command_of_nothing: "command_of [] = None"
  by (simp add: command_of_def trim_def trim_start_def split_ascii_whitespace_def)

lemma line_agrees: "agrees p c \<Longrightarrow> agrees (p\<lparr>pn_line := l\<rparr>) (c\<lparr>ct_line := l\<rparr>)"
  by (simp add: agrees_def)

lemma control_byte_agrees:
  assumes "agrees p c"
  shows "agrees (panel_byte b p) (control_byte b c)"
proof -
  have l: "ct_line c = pn_line p" using assms by (simp add: agrees_def)
  consider "b = 0x0D \<or> b = 0x0A" "pn_line p = []" | "b = 0x0D \<or> b = 0x0A" "pn_line p \<noteq> []"
    | "\<not> (b = 0x0D \<or> b = 0x0A)" by blast
  then show ?thesis
  proof cases
    case 1
    then show ?thesis using assms l
      by (simp add: panel_byte_def control_byte_def command_of_nothing panel_enter_def agrees_def)
  next
    case 2
    then show ?thesis using line_agrees [OF dispatch_agrees [OF assms]] l by (simp add: panel_byte_def control_byte_def)
  next
    case 3
    have u: "utf8 (pn_line p @ [b]) = utf8 (pn_line p) @ utf8_char b" by (simp add: utf8_def)
    have "agrees (p\<lparr>pn_line := []\<rparr>) ((send_line m c)\<lparr>ct_line := []\<rparr>)" for m
      using line_agrees [of p "send_line m c"] assms by simp
    then show ?thesis using 3 line_agrees [OF assms] l
      by (simp add: panel_byte_def control_byte_def u LINE_CAP_def)
  qed
qed

lemma control_connect_agrees: "agrees p c \<Longrightarrow> agrees (p\<lparr>pn_line := []\<rparr>) (control_connect c)"
  by (simp add: control_connect_def line_agrees)

subsection \<open>The firmware and the panel\<close>

definition shows_panel :: "endpoint \<Rightarrow> panel \<Rightarrow> system \<Rightarrow> bool" where
  "shows_panel e p s \<longleftrightarrow>
     agrees p (control_view 0 s) \<and>
     sy_sent (sys_ps2 s) = concat (map raw_ops (la_served (pn_keys p))) \<and>
     mouse_run (la_served (pn_moves p)) 0 = (sys_buttons s, sys_mouse_sent s) \<and>
     (\<exists>fs. sys_bulk_ep s = fold stream_frame fs e \<and> map parse_frame fs = map test_frame (la_served (pn_tests p)))"

lemma agrees_view: "agrees p (control_view up s) \<longleftrightarrow>
    ct_line (sys_control s) = pn_line p \<and> sy_raw (sys_ps2 s) = la_waiting (pn_keys p) \<and>
    ct_mouse (sys_control s) = la_waiting (pn_moves p) \<and>
    map parse_frame (ct_bulk (sys_control s)) = map test_frame (la_waiting (pn_tests p)) \<and>
    ct_bulk_seq (sys_control s) = pn_number p"
  by (simp add: agrees_def control_view_def)

lemma agrees_leaves: "agrees p c \<Longrightarrow> agrees p (control_view up (control_leaves c s))"
  by (simp add: agrees_view control_leaves_def) (simp add: agrees_def)

lemma panel_enter_serves:
  "la_served (pn_keys (panel_enter cmd p)) = la_served (pn_keys p)"
  "la_served (pn_moves (panel_enter cmd p)) = la_served (pn_moves p)"
  "la_served (pn_tests (panel_enter cmd p)) = la_served (pn_tests p)"
  by (simp_all add: panel_enter_def lane_put_def split: option.split command.split)

lemma panel_byte_serves:
  "la_served (pn_keys (panel_byte b p)) = la_served (pn_keys p)"
  "la_served (pn_moves (panel_byte b p)) = la_served (pn_moves p)"
  "la_served (pn_tests (panel_byte b p)) = la_served (pn_tests p)"
  by (simp_all add: panel_byte_def panel_enter_serves)

lemma turn_shows_panel:
  assumes "system_turn at_bin xt_bin enc l s = Some t" "shows_panel e p s" "only_requests cell acc (sys_ps2 s)"
  shows "shows_panel e (panel_turn l p) t"
proof -
  have view: "agrees p (control_view up s)" for up using assms(2) by (simp add: shows_panel_def agrees_view)
  obtain fs where fs: "sys_bulk_ep s = fold stream_frame fs e"
      "map parse_frame fs = map test_frame (la_served (pn_tests p))"
    using assms(2) by (auto simp: shows_panel_def)
  have quiet: "sy_typing (sys_ps2 s) = None" "sv_inject_trigger (sy_sv (sys_ps2 s)) = None"
    using assms(3) by (simp_all add: only_requests_def supervisor_init_def)
  show ?thesis
  proof (cases l)
    case (ControlByte up b)
    then have t: "t = control_leaves (control_byte b (control_view up s)) s" using assms(1) by simp
    have "agrees (panel_turn l p) (control_view 0 t)"
      unfolding t ControlByte panel_turn.simps by (rule agrees_leaves [OF control_byte_agrees [OF view]])
    then show ?thesis using assms(2) t
      by (simp add: shows_panel_def ControlByte panel_byte_serves control_leaves_def)
  next
    case ControlConnect
    then have t: "t = control_leaves (control_connect (control_view 0 s)) s" using assms(1) by simp
    have "agrees (panel_turn l p) (control_view 0 t)"
      unfolding t ControlConnect panel_turn.simps by (rule agrees_leaves [OF control_connect_agrees [OF view]])
    then show ?thesis using assms(2) t by (simp add: shows_panel_def ControlConnect control_leaves_def)
  next
    case InjectorWake
    then obtain q where q: "injector_wake (sys_ps2 s) = Some q" "t = s\<lparr>sys_ps2 := q\<rparr>"
      using assms(1) by (auto split: if_splits)
    then obtain b bs where b: "sy_raw (sys_ps2 s) = b # bs"
        "q = (sys_ps2 s)\<lparr>sy_raw := bs, sy_sent := sy_sent (sys_ps2 s) @ raw_ops b\<rparr>"
      using quiet by (auto simp: injector_wake_def split: list.splits)
    then have "la_waiting (pn_keys p) = b # bs" using view by (simp add: agrees_view)
    then show ?thesis using assms(2) b q by (simp add: shows_panel_def agrees_view InjectorWake lane_take_def)
  next
    case MouseInjector
    show ?thesis
    proof (cases "la_waiting (pn_moves p)")
      case Nil
      then show ?thesis using assms(1,2) MouseInjector
        by (auto simp: shows_panel_def agrees_view mouse_turn_def lane_take_def)
    next
      case (Cons m ms)
      obtain b ops where m: "mouse_step m (sys_buttons s) = (b, ops)" by fastforce
      have "ct_mouse (sys_control s) = m # ms" using view Cons by (simp add: agrees_view)
      then show ?thesis using assms(1,2) Cons m MouseInjector
        by (auto simp: shows_panel_def agrees_view mouse_turn_def lane_take_def mouse_run_append)
    qed
  next
    case BulkWriter
    show ?thesis
    proof (cases "ct_bulk (sys_control s)")
      case Nil
      then have "la_waiting (pn_tests p) = []" using view by (simp add: agrees_view)
      then show ?thesis using assms(1,2) BulkWriter Nil
        by (auto simp: shows_panel_def agrees_view bulk_turn_def lane_take_def)
    next
      case (Cons f q)
      then obtain m ms where m: "la_waiting (pn_tests p) = m # ms" "parse_frame f = test_frame m"
          "map parse_frame q = map test_frame ms"
        using view by (cases "la_waiting (pn_tests p)") (simp_all add: agrees_view)
      have "fold stream_frame (fs @ [f]) e = stream_frame f (sys_bulk_ep s) \<and>
          map parse_frame (fs @ [f]) = map test_frame (la_served (pn_tests p) @ [m])"
        using fs m by simp
      then have "\<exists>gs. fold stream_frame gs e = stream_frame f (sys_bulk_ep s) \<and>
          map parse_frame gs = map test_frame (la_served (pn_tests p) @ [m])" by blast
      moreover have "t = s\<lparr>sys_control := (sys_control s)\<lparr>ct_bulk := q\<rparr>, sys_bulk_ep := stream_frame f (sys_bulk_ep s)\<rparr>"
        using assms(1) BulkWriter Cons by (simp add: bulk_turn_def)
      ultimately show ?thesis using assms(2) view [of 0] BulkWriter m
        by (simp add: shows_panel_def agrees_view lane_take_def) metis
    qed
  next
    case InjectorFinish
    then show ?thesis using assms(1) quiet by simp
  qed (use assms in \<open>auto simp: shows_panel_def agrees_view supervisor_turn_def case_prod_beta Let_def
      split: serve_result.splits prod.splits list.splits if_splits\<close>)
qed

lemma run_shows_panel:
  assumes "system_run at_bin xt_bin enc ls (system_start fw ring_kbd ring_aux ln) = Some s"
  shows "shows_panel (ln_bulk ln) (panel_after ls) s"
  using assms
proof (induction rule: system_run_induct)
  case start
  have "\<exists>fs. ln_bulk ln = fold stream_frame fs (ln_bulk ln) \<and> fs = []" by simp
  then show ?case
    by (auto simp: shows_panel_def agrees_view panel_after_def panel_new_def lane_new_def system_start_def
        ps2_init_def control_boot_def)
next
  case (turn ls l s t)
  have "only_requests (fw_lifecycle fw) (accepted at_bin xt_bin enc ls (system_start fw ring_kbd ring_aux ln)) (sys_ps2 s)"
    using deaf_run [OF turn(1) start_deaf] by (simp add: deaf_def)
  from turn_shows_panel [OF turn(2,3) this] show ?case by (simp add: panel_after_def)
qed

text \<open>
  C7. The firmware refines the panel.  From boot, under every schedule of the tasks and whatever happens on
  the wires, at the parallel port and to the writes of the control interface: the line being typed, the
  three queues and the numbers of the tests are those of the panel after the same schedule; the keyboard
  transmitter has sent exactly the bytes of the key requests the panel has served, a host that reads the
  mouse channel three bytes at a time has got exactly the movements and buttons it has served, and a
  laptop on a bulk interface that does not fail has received exactly the tests it has served, each with
  its number.
\<close>

theorem firmware_refines_panel:
  assumes "system_run at_bin xt_bin enc ls (system_start fw ring_kbd ring_aux ln) = Some s"
    and "ep_faults (ln_bulk ln) = []" "ep_sent (ln_bulk ln) = []"
  shows "let p = panel_after ls; (ts, rest) = transfers [] (ep_sent (sys_bulk_ep s)) in
    ct_line (sys_control s) = pn_line p \<and> sy_raw (sys_ps2 s) = la_waiting (pn_keys p) \<and>
    ct_mouse (sys_control s) = la_waiting (pn_moves p) \<and>
    map parse_frame (ct_bulk (sys_control s)) = map test_frame (la_waiting (pn_tests p)) \<and>
    ct_bulk_seq (sys_control s) = pn_number p \<and>
    sy_sent (sys_ps2 s) = concat (map raw_ops (la_served (pn_keys p))) \<and>
    read_packets (sent_bytes (sys_mouse_sent s)) = map Some (intended (la_served (pn_moves p)) {}) \<and>
    map parse_frame ts = map test_frame (la_served (pn_tests p)) \<and> rest = []"
proof -
  note p = run_shows_panel [OF assms(1)]
  then obtain fs where fs: "sys_bulk_ep s = fold stream_frame fs (ln_bulk ln)"
      "map parse_frame fs = map test_frame (la_served (pn_tests (panel_after ls)))"
    by (auto simp: shows_panel_def)
  have "None \<notin> set (map parse_frame fs)" unfolding fs(2) by (auto simp: test_frame_def)
  moreover have "parse_frame [] = None" by (simp add: parse_frame_def)
  ultimately have "[] \<notin> set fs" by force
  then have "transfers [] (ep_sent (sys_bulk_ep s)) = (fs, [])"
    using assms(2,3) by (simp add: fs(1) stream_frames_ok transfers_messages)
  moreover have "held_in 0 = {}" by (simp add: held_in_def)
  moreover have "snd (mouse_run (la_served (pn_moves (panel_after ls))) 0) = sys_mouse_sent s"
    using p by (simp add: shows_panel_def)
  ultimately show ?thesis
    using p fs(2) mouse_reports_commands [of "la_served (pn_moves (panel_after ls))" 0]
    by (simp add: shows_panel_def agrees_view)
qed

text \<open>Three commands, with the mouse task and the writer in between; the keys wait.\<close>

definition typed_at :: "nat \<Rightarrow> string \<Rightarrow> turn list" where
  "typed_at up l = map (ControlByte up) (ascii l @ [0x0D])"

definition operator_turns :: "turn list" where
  "operator_turns = KbdTurn # typed_at 3 ''mouse_button l down'' @ MouseInjector # typed_at 4 ''inject 1c F0'' @
     typed_at 5 ''bulk_test'' @ [BulkWriter]"

text \<open>Tasks that are always ready.\<close>

definition always_ready :: "turn \<Rightarrow> bool" where
  "always_ready l \<longleftrightarrow> (case l of
     KbdTurn \<Rightarrow> True | ControlByte _ _ \<Rightarrow> True | MouseInjector \<Rightarrow> True | BulkWriter \<Rightarrow> True | _ \<Rightarrow> False)"

lemma ready_run: "\<forall>l \<in> set ls. always_ready l \<Longrightarrow> \<exists>t. system_run at_bin xt_bin enc ls s = Some t"
proof (induction ls arbitrary: s)
  case (Cons l ls)
  have "\<exists>t. system_turn at_bin xt_bin enc l s = Some t"
    using Cons.prems by (cases l) (simp_all add: always_ready_def case_prod_beta Let_def)
  with Cons show ?case by fastforce
qed simp

lemma operator_panel:
  "panel_after operator_turns =
     \<lparr>pn_line = [], pn_keys = \<lparr>la_waiting = [[0x1C, 0xF0]], la_served = []\<rparr>,
      pn_moves = \<lparr>la_waiting = [], la_served = [Button BtnLeft True]\<rparr>,
      pn_tests = \<lparr>la_waiting = [], la_served = [(0, ascii ''hello'')]\<rparr>, pn_number = 1\<rparr>"
  by code_simp

theorem firmware_refines_panel_witness:
  "\<exists>s. system_run [] [] (\<lambda>_. None) operator_turns
      (system_start example_firmware 0x20001000 0x20002000 example_link) = Some s \<and>
    sy_raw (sys_ps2 s) = [[0x1C, 0xF0]] \<and>
    read_packets (sent_bytes (sys_mouse_sent s)) = [Some \<lparr>mr_dx = 0, mr_dy = 0, mr_held = {BtnLeft}\<rparr>] \<and>
    map parse_frame (fst (transfers [] (ep_sent (sys_bulk_ep s)))) = [Some (0xFF, 0, ascii ''hello'')]"
proof -
  have "\<forall>l \<in> set operator_turns. always_ready l"
    by (auto simp: operator_turns_def typed_at_def always_ready_def)
  then obtain s where s: "system_run [] [] (\<lambda>_. None) operator_turns
      (system_start example_firmware 0x20001000 0x20002000 example_link) = Some s"
    using ready_run by blast
  have "ep_faults (ln_bulk example_link) = []" "ep_sent (ln_bulk example_link) = []" by (simp_all add: example_link_def)
  from firmware_refines_panel [OF s this] s show ?thesis
    by (simp add: operator_panel test_frame_def case_prod_beta Let_def del: ascii_simps)
qed

end
