(* ===== verification/Silence.thy ===== *)
theory Silence
  imports Ps2Wire
begin

text \<open>
  What the AUX oversampler's task makes of a wire on which nothing happens, for any length of time: the
  task is followed sample by sample through a word whose first sample the state machine reads as zero.
\<close>

unbundle bit_operations_syntax

lemma sat_sub_nat:
  assumes "u \<le> t" "t < 2 ^ 64"
  shows "sat_sub (of_nat t) (of_nat u) = of_nat (t - u)"
proof -
  have "(of_nat u :: u64) \<le> of_nat t" using assms by (simp add: word_le_nat_alt unat_of_nat)
  then show ?thesis using assms(1) by (simp add: sat_sub_def of_nat_diff)
qed

lemma elapsed_nat:
  assumes "u \<le> t" "t < 2 ^ 64" "t - u < 2 ^ 32"
  shows "elapsed32 (of_nat t) (of_nat u) = of_nat (t - u)"
proof -
  have "take_bit 64 (t - u) = t - u" using assms(2) by (intro take_bit_nat_eq_self) simp
  then show ?thesis by (simp add: elapsed32_def sat_sub_nat [OF assms(1,2)] unsigned_of_nat)
qed

text \<open>The task after \<open>j\<close> bits, all zero, of a frame; the lines have been high for \<open>i\<close> samples.\<close>

definition aux_high :: "nat \<Rightarrow> nat \<Rightarrow> nat \<Rightarrow> aux_task \<Rightarrow> bool" where
  "aux_high i j t a \<longleftrightarrow>
     (let f = at_framer a in
      at_t_us a = of_nat t \<and> i < t \<and> i \<le> 6 \<and> j < 11 \<and> \<not> at_activity a \<and>
      fr_last_clk f = Some True \<and> fr_last_data f = Some True \<and> fr_last_edge_us f = of_nat (t - i) \<and>
      (if j = 0 then fr_state f = Idle
       else fr_state f = Receiving j \<and> fr_last_falling_us f = of_nat (t - Suc i) \<and> fr_assembled f = 0))"

lemma aux_high_sample:
  assumes "aux_high i j t a" "i < 6" "t < 2 ^ 64"
  shows "aux_high (Suc i) j (Suc t) (aux_sample 15 a) \<and> at_counters (aux_sample 15 a) = at_counters a"
proof -
  have "elapsed32 (of_nat t) (of_nat (t - Suc i)) = of_nat (Suc i)"
    using assms by (subst elapsed_nat) (simp_all add: aux_high_def Let_def)
  moreover have "(of_nat (Suc i) :: u32) < 200" using assms(2)
    by (simp add: word_less_nat_alt unat_of_nat del: of_nat_Suc)
  ultimately have "ingest (at_framer a) True True (at_t_us a) = (at_framer a, None)"
    using assms(1) by (auto simp: aux_high_def Let_def ingest_def ingest_sample_def IDLE_TIMEOUT_US_def not_le split: if_splits)
  then show ?thesis using assms(1,2) by (simp add: aux_sample_def aux_high_def Let_def)
qed


text \<open>A word: its first sample is read as zeroes, a falling edge with DATA low; the next one as a glitch.\<close>

definition aux_low :: "nat \<Rightarrow> nat \<Rightarrow> aux_task \<Rightarrow> bool" where
  "aux_low j t a \<longleftrightarrow>
     (let f = at_framer a in
      at_t_us a = of_nat t \<and> j < 11 \<and> 0 < t \<and> \<not> at_activity a \<and>
      fr_last_clk f = Some False \<and> fr_last_data f = Some False \<and> fr_last_edge_us f = of_nat (t - 1) \<and>
      (if j = 0 then fr_state f = Idle
       else fr_state f = Receiving j \<and> fr_last_falling_us f = of_nat (t - 1) \<and> fr_assembled f = 0))"

lemma aux_rise:
  assumes "aux_low j t a" "t < 2 ^ 64"
  shows "aux_high 1 j (Suc t) (aux_sample 15 a) \<and> at_counters (aux_sample 15 a) = at_counters a"
proof -
  have e: "elapsed32 (of_nat t) (of_nat (t - 1)) = 1"
    using assms by (subst elapsed_nat) (simp_all add: aux_low_def Let_def)
  define f where "f = at_framer a"
  have r: "\<exists>g. ingest f True True (of_nat t) = (g, None) \<and> fr_last_clk g = Some True \<and> fr_last_data g = Some True \<and>
      fr_last_edge_us g = of_nat t \<and> fr_state g = fr_state f \<and> fr_last_falling_us g = fr_last_falling_us f \<and>
      fr_assembled g = fr_assembled f"
    using assms(1) e by (cases "j = 0")
      (simp_all add: aux_low_def Let_def ingest_def ingest_sample_def IDLE_TIMEOUT_US_def GLITCH_THRESHOLD_US_def word_le_nat_alt flip: f_def)
  then obtain g where g: "ingest f True True (of_nat t) = (g, None)" "fr_last_clk g = Some True" "fr_last_data g = Some True"
      "fr_last_edge_us g = of_nat t" "fr_state g = fr_state f" "fr_last_falling_us g = fr_last_falling_us f"
      "fr_assembled g = fr_assembled f" by blast
  have "at_t_us a = of_nat t" using assms(1) by (simp add: aux_low_def Let_def)
  then have "aux_sample 15 a = a\<lparr>at_framer := g, at_t_us := of_nat (Suc t)\<rparr>"
    using g(1) by (simp add: aux_sample_def Let_def flip: f_def)
  with g assms(1) show ?thesis
    by (simp add: aux_high_def aux_low_def Let_def flip: f_def)
qed


definition frames_add :: "nat \<Rightarrow> aux_task \<Rightarrow> aux_task \<Rightarrow> bool" where
  "frames_add n a b \<longleftrightarrow>
     oc_frames_total (at_counters b) = oc_frames_total (at_counters a) + of_nat n \<and>
     oc_frames_errored (at_counters b) = oc_frames_errored (at_counters a) + of_nat n"

lemma frames_add_simps:
  "at_counters b = at_counters a \<Longrightarrow> frames_add 0 a b"
  "frames_add m a b \<Longrightarrow> frames_add n b c \<Longrightarrow> frames_add (m + n) a c"
  by (simp_all add: frames_add_def)

lemma fall_emits:
  assumes "fr_state f = Receiving 10" "fr_assembled f = 0"
  shows "\<exists>fr. on_clk_fall f False t = (reset_idle f, Some fr) \<and> \<not> pf_framing_ok fr"
proof -
  obtain fr where "on_clk_fall f False t = (reset_idle f, Some fr)" "\<not> pf_framing_ok fr"
    using assms by (simp add: on_clk_fall_def AT_BIT_COUNT_def Let_def reset_idle_def build_frame_def)
  then show ?thesis by blast
qed

lemma aux_fall:
  assumes "aux_high 6 j t a" "t < 2 ^ 64"
  shows "aux_low (Suc j mod 11) (Suc t) (aux_sample 0 a) \<and> frames_add (if j = 10 then 1 else 0) a (aux_sample 0 a)"
proof -
  define f where "f = (at_framer a)\<lparr>fr_last_data_change_us := of_nat t, fr_last_data := Some False, fr_last_clk := Some False,
    fr_last_edge_us := of_nat t\<rparr>"
  have h: "at_t_us a = of_nat t" "6 < t" "j < 11" "\<not> at_activity a" "fr_last_clk (at_framer a) = Some True"
      "fr_last_data (at_framer a) = Some True" "fr_last_edge_us (at_framer a) = of_nat (t - 6)"
      "if j = 0 then fr_state (at_framer a) = Idle
       else fr_state (at_framer a) = Receiving j \<and> fr_last_falling_us (at_framer a) = of_nat (t - 7) \<and> fr_assembled (at_framer a) = 0"
    using assms(1) by (auto simp: aux_high_def Let_def)
  have e: "elapsed32 (of_nat t) (of_nat (t - 6)) = 6" "elapsed32 (of_nat t) (of_nat (t - 7)) = 7"
    using elapsed_nat [of "t - 6" t] elapsed_nat [of "t - 7" t] h(2) assms(2) by simp_all
  have i: "ingest (at_framer a) False False (of_nat t) = on_clk_fall f False (of_nat t)"
    using h(5-8) e by (auto simp: f_def ingest_def ingest_sample_def IDLE_TIMEOUT_US_def GLITCH_THRESHOLD_US_def
        word_le_nat_alt word_less_nat_alt Let_def split: if_splits)
  show ?thesis
  proof (cases "j = 10")
    case True
    then have "fr_state f = Receiving 10" "fr_assembled f = 0" using h(8) by (simp_all add: f_def)
    from fall_emits [OF this] obtain fr where fr: "on_clk_fall f False (of_nat t) = (reset_idle f, Some fr)"
      "\<not> pf_framing_ok fr" by blast
    then have "aux_sample 0 a = a\<lparr>at_framer := reset_idle f, at_counters := count_frame fr (at_counters a),
        at_t_us := of_nat (Suc t)\<rparr>"
      using i h(1) by (simp add: aux_sample_def Let_def)
    then show ?thesis using True h(4) fr(2)
      by (simp add: aux_low_def frames_add_def count_frame_def Let_def reset_idle_def f_def)
  next
    case False
    obtain g where g: "on_clk_fall f False (of_nat t) = (g, None)" "fr_state g = Receiving (Suc j)"
        "fr_last_falling_us g = of_nat t" "fr_assembled g = 0" "fr_last_clk g = Some False" "fr_last_data g = Some False"
        "fr_last_edge_us g = of_nat t"
      using False h(3,8) by (cases "j = 0") (simp_all add: on_clk_fall_def Let_def f_def AT_BIT_COUNT_def)
    then have "aux_sample 0 a = a\<lparr>at_framer := g, at_t_us := of_nat (Suc t)\<rparr>"
      using i h(1) by (simp add: aux_sample_def Let_def)
    then show ?thesis using False h(3,4) g by (simp add: aux_low_def frames_add_def Let_def)
  qed
qed

lemma aux_highs:
  assumes "aux_high i j t a" "i + n \<le> 6" "t + n \<le> 2 ^ 64"
  shows "aux_high (i + n) j (t + n) ((aux_sample 15 ^^ n) a) \<and> at_counters ((aux_sample 15 ^^ n) a) = at_counters a"
  using assms
proof (induction n)
  case (Suc n)
  then show ?case using aux_high_sample [of "i + n" j "t + n" "(aux_sample 15 ^^ n) a"] by simp
qed simp

lemma silent_word_samples:
  "aux_word 0xFFFFFFF0 a =
     (aux_sample 15 ^^ 5) (aux_sample 15 (aux_sample 0 (a\<lparr>at_counters := count_word True (at_counters a)\<rparr>)))"
proof -
  have "aux_clk_toggled 0xFFFFFFF0" by code_simp
  moreover have "map (\<lambda>i. drop_bit (i * 4) (0xFFFFFFF0 :: u32) AND 0xF) [0..<7] = 0 # replicate 6 15" by code_simp
  ultimately show ?thesis
    by (simp add: aux_word_def AUX_SAMPLES_PER_WORD_def numeral_eq_Suc upt_rec)
qed

text \<open>What a first sample leaves, the other six carry to the next word.\<close>

lemma aux_rest_of_word:
  assumes "aux_low j (Suc t) a" "t + 7 \<le> 2 ^ 64"
  shows "aux_high 6 j (t + 7) ((aux_sample 15 ^^ 5) (aux_sample 15 a)) \<and>
    at_counters ((aux_sample 15 ^^ 5) (aux_sample 15 a)) = at_counters a"
proof -
  have "aux_high 1 j (t + 2) (aux_sample 15 a)" "at_counters (aux_sample 15 a) = at_counters a"
    using aux_rise [OF assms(1)] assms(2) by simp_all
  with aux_highs [OF this(1), of 5] assms(2) show ?thesis by (simp add: add.commute [of t])
qed

lemma aux_first_word:
  "aux_high 6 0 7 (aux_word 0xFFFFFFF0 aux_task_new) \<and> frames_add 0 aux_task_new (aux_word 0xFFFFFFF0 aux_task_new)"
proof -
  define a where "a = aux_sample 0 (aux_task_new\<lparr>at_counters := count_word True (at_counters aux_task_new)\<rparr>)"
  have a: "aux_low 0 (Suc 0) a" "frames_add 0 aux_task_new a"
    by (simp_all add: a_def aux_sample_def aux_task_new_def framer_new_def ingest_def ingest_sample_def aux_low_def
        frames_add_def count_word_def Let_def)
  from aux_rest_of_word [OF a(1)] a(2) show ?thesis
    unfolding silent_word_samples a_def [symmetric] by (simp add: frames_add_def)
qed

lemma aux_silent_word:
  assumes "aux_high 6 j t a" "t + 7 \<le> 2 ^ 64"
  shows "aux_high 6 (Suc j mod 11) (t + 7) (aux_word 0xFFFFFFF0 a) \<and> frames_add (if j = 10 then 1 else 0) a (aux_word 0xFFFFFFF0 a)"
proof -
  define a1 where "a1 = a\<lparr>at_counters := count_word True (at_counters a)\<rparr>"
  have 1: "aux_high 6 j t a1" using assms(1) by (simp add: a1_def aux_high_def)
  have 2: "aux_low (Suc j mod 11) (Suc t) (aux_sample 0 a1)" "frames_add (if j = 10 then 1 else 0) a1 (aux_sample 0 a1)"
    using aux_fall [OF 1] assms(2) by simp_all
  from aux_rest_of_word [OF 2(1) assms(2)] 2(2) show ?thesis
    unfolding silent_word_samples a1_def [symmetric] by (simp add: frames_add_def a1_def count_word_def)
qed

lemma aux_silent_words:
  assumes "7 * Suc n \<le> 2 ^ 64"
  shows "let a = fold aux_word (replicate (Suc n) 0xFFFFFFF0) aux_task_new in
    aux_high 6 (n mod 11) (7 * Suc n) a \<and> frames_add (n div 11) aux_task_new a"
  using assms
proof (induction n)
  case 0
  then show ?case using aux_first_word by (simp add: Let_def)
next
  case (Suc n)
  define a where "a = fold aux_word (replicate (Suc n) 0xFFFFFFF0) aux_task_new"
  have a: "aux_high 6 (n mod 11) (7 * Suc n) a" "frames_add (n div 11) aux_task_new a"
    using Suc by (simp_all add: Let_def a_def)
  have f: "fold aux_word (replicate (Suc (Suc n)) 0xFFFFFFF0) aux_task_new = aux_word 0xFFFFFFF0 a"
    unfolding a_def fold_replicate by simp
  have "Suc n div 11 = n div 11 + (if n mod 11 = 10 then 1 else 0)" "Suc (n mod 11) mod 11 = Suc n mod 11"
    by (auto simp: div_Suc mod_Suc)
  moreover have w: "aux_high 6 (Suc (n mod 11) mod 11) (7 * Suc n + 7) (aux_word 0xFFFFFFF0 a)"
    "frames_add (if n mod 11 = 10 then 1 else 0) a (aux_word 0xFFFFFFF0 a)"
    using aux_silent_word [OF a(1)] Suc.prems by simp_all
  moreover note frames_add_simps(2) [OF a(2) w(2)]
  ultimately show ?case unfolding f by (simp add: Let_def add.commute)
qed

text \<open>
  C31. A silent AUX wire makes frames for ever.  While both lines stay high for any number n of words, seven
  samples each, as long as the task's clock does not wrap: the state machine's first sample of every word
  is read as zero, the framer takes it for a clock pulse, and the task has counted exactly one frame for
  every eleven words after the first, all of them damaged; it has never signalled \<^verbatim>\<open>AUX_ACTIVITY\<close>.
\<close>

theorem aux_silence_counts:
  assumes "7 * n \<le> 2 ^ 64"
  shows "let a = fold aux_word
      (snd (dma_run aux_oversample_config (replicate (7 * n) (0xF, \<lambda>_. False)) (sm_start 0 0 False))) aux_task_new in
    oc_frames_total (at_counters a) = of_nat ((n - 1) div 11) \<and>
    oc_frames_errored (at_counters a) = of_nat ((n - 1) div 11) \<and> \<not> at_activity a"
proof -
  have ready: "sampling_ready (sm_start 0 0 False)" by (simp add: sampling_ready_def sm_start_def)
  have w: "shifted_word 4 (replicate 7 (0xF, \<lambda>_. False)) = 0xFFFFFFF0" by code_simp
  have ws: "snd (dma_run aux_oversample_config (replicate (7 * n) (0xF, \<lambda>_. False)) (sm_start 0 0 False)) =
      replicate n 0xFFFFFFF0"
    using words_of_constant [of 7 4 n "(0xF, \<lambda>_. False)"]
    by (simp add: oversample_run [OF oversamplers(2) ready] w mult.commute)
  show ?thesis
  proof (cases n)
    case 0
    then show ?thesis unfolding ws by (simp add: aux_task_new_def counters_new_def)
  next
    case (Suc m)
    have c: "at_counters aux_task_new = counters_new" by (simp add: aux_task_new_def)
    show ?thesis unfolding ws using aux_silent_words [of m] assms Suc
      by (simp add: Let_def frames_add_def aux_high_def c counters_new_def)
  qed
qed

text \<open>A second of silence.\<close>

theorem aux_silence_counts_witness:
  "let a = fold aux_word
      (snd (dma_run aux_oversample_config (replicate (7 * 142857) (0xF, \<lambda>_. False)) (sm_start 0 0 False))) aux_task_new in
    oc_frames_errored (at_counters a) = 12986 \<and> \<not> at_activity a"
  using aux_silence_counts [of 142857] by (simp add: Let_def)

end
