(* ===== verification/Spec2Isabelle.thy ===== *)
theory Spec2Isabelle
  imports Session Blocks Telemetry Startup Ps2Wire Injection Negotiator Client WireModes Wiring ControlTypes
    Operator UsbDevice Console Firmware Isolation Panel Silence
begin

text \<open>
  A verification library for vintage-kvm: the firmware of a microcontroller that sits between an old
  PC and a modern host, and the host's tools.  The firmware watches the PC's keyboard wire, works out
  what class of machine it is, types a DEBUG session that plants a first stage (Stage 0) in its
  memory, and then serves the later stages over the parallel port; a composite USB device gives the
  operator an event stream, a control line, a console and bulk frames.

  \<^bold>\<open>How the parts interact.\<close>

  \<^item> Keyboard side: PIO programs sample the wire, a DMA ring carries the words to a task, the task feeds
    the PS/2 framer, the framer's frames go to the supervisor with its classifier, the supervisor
    signals a trigger, the injector takes the trigger and types through the PIO transmitter.  The
    lifecycle cell is written by the supervisor and the injector and read by the indicator's loop.
  \<^item> Parallel port: a PIO program captures the host's strobes into a DMA ring, a phy takes bytes from
    the ring, the packet stream reassembles packets from bytes, the dispatcher answers them from the
    block server, and the answers go out through the phy of the current mode, in SPP-nibble mode as a
    waveform of nibbles.  The mode mux builds and dismantles the phys over the shared hardware; the
    negotiator is a state machine over the port's lines.
  \<^item> USB: all emitters send events to one inbox, from which a task frames them for the host; the control
    task assembles lines, dispatches verbs and hands work to the injectors and the bulk writer.
  \<^item> The host: the control client sends one command and reads the reply, the event consumer cuts the
    stream into frames and decodes them.

  \<^bold>\<open>The theories.\<close>  Paths are relative to the repository's root.

  \<^item> \<open>Prelude\<close>: machine integers as words (\<open>u8\<close> to \<open>u64\<close>), byte orders, slices, bounded vectors,
    \<^verbatim>\<open>chunks\<close>, saturating arithmetic, the locale \<open>codec\<close>, the collection \<open>const_defs\<close> of the constants.
  \<^item> \<open>Crc\<close>: \<^verbatim>\<open>crates/protocol/src/crc.rs\<close>, \<^verbatim>\<open>packet/crc16.rs\<close>, \<^verbatim>\<open>packet/crc32.rs\<close>,
    \<^verbatim>\<open>firmware/src/crc_sniffer.rs\<close>; locale \<open>crc_engine\<close>.
  \<^item> \<open>Packet\<close>: \<^verbatim>\<open>crates/protocol/src/packet\<close>, the frame format with \<^verbatim>\<open>encode\<close> and \<^verbatim>\<open>decode\<close>.
  \<^item> \<open>Blocks\<close>: \<^verbatim>\<open>block_source.rs\<close>, \<^verbatim>\<open>block_server.rs\<close>, \<^verbatim>\<open>cap.rs\<close>, \<^verbatim>\<open>stage_blobs.rs\<close>; locale
    \<open>block_source\<close>, interpreted for both sources.
  \<^item> \<open>Telemetry\<close>: \<^verbatim>\<open>crates/telemetry-schema\<close>, \<^verbatim>\<open>firmware/src/telemetry\<close>; locales \<open>telemetry_emit\<close> and
    \<open>telemetry_pair\<close> with a sublocale for each half.
  \<^item> \<open>Session\<close>: \<^verbatim>\<open>firmware/src/protocol/mod.rs\<close>, the dispatcher and its abstract specification.
  \<^item> \<open>Transport\<close>: \<^verbatim>\<open>firmware/src/transport\<close>, \<^verbatim>\<open>lpt/mod.rs\<close> and the serve loop of \<^verbatim>\<open>main.rs\<close>; locales
    \<open>lpt_phy\<close> and \<open>reliable_phy\<close>.
  \<^item> \<open>Framer\<close>, \<open>Classifier\<close>: \<^verbatim>\<open>crates/ps2-framer\<close>, \<^verbatim>\<open>ps2/supervisor.rs\<close>, \<^verbatim>\<open>lifecycle.rs\<close>,
    \<^verbatim>\<open>status/animations.rs\<close>, \<^verbatim>\<open>status/neopixel.rs\<close>, \<^verbatim>\<open>status/heartbeat.rs\<close>.
  \<^item> \<open>Pio\<close>: the PIO machine and every program of the firmware with its configuration; \<open>RingDma\<close>: both
    DMA rings, locale \<open>fifo\<close>; \<open>Ps2Wire\<close>: the oversampler tasks and the transmitter; \<open>Silence\<close>: what
    they make of a wire on which nothing happens; \<open>Phys\<close>: hardware,
    drivers, phys and mux of the parallel port; \<open>Wire\<close>: the port's programs run on the machine, with
    the host's side of the nibble link after \<^verbatim>\<open>dos/stage0/lpt_nibble.inc\<close>; \<open>WireModes\<close>: the same for
    Byte, ECP and EPP mode, locale \<open>handshake\<close>, interpreted for the four programs that wait for the host.
  \<^item> \<open>DmaRegs\<close>: the register level of \<^verbatim>\<open>lpt/ring_dma.rs\<close> and \<^verbatim>\<open>ps2/ring_dma.rs\<close>, with the DMA engine as a
    function of the registers; it refines the deposit step of \<open>RingDma\<close>.  \<open>Wiring\<close>: the constructors of
    the oversamplers and transmitters in the order and with the pins of \<^verbatim>\<open>main.rs\<close>.
  \<^item> \<open>Startup\<close>: the boot sequence of \<^verbatim>\<open>firmware/src/main.rs\<close>, joined to the data plane.
  \<^item> \<open>Injector\<close>: \<^verbatim>\<open>ps2/scancode.rs\<close> and the typing of \<^verbatim>\<open>ps2/injector.rs\<close>; \<open>DebugScript\<close>: what the host
    reads and what DEBUG does with it; \<open>Injection\<close>: the injector's task and the system it forms with
    the supervisor, as an inductive step relation; \<open>Mouse\<close>: \<^verbatim>\<open>ps2/mouse_input.rs\<close>.
  \<^item> \<open>Negotiator\<close>: \<^verbatim>\<open>lpt/negotiator.rs\<close>; locale \<open>negotiator_lines\<close>, interpreted on the registers.
  \<^item> \<open>Usb\<close>: \<^verbatim>\<open>usb/bulk.rs\<close>, \<^verbatim>\<open>usb/events.rs\<close>, the loopback of \<^verbatim>\<open>usb/console.rs\<close>; \<open>Console\<close>: the console's
    task and an operator's terminal; \<open>Control\<close>: \<^verbatim>\<open>usb/control.rs\<close>; \<open>ControlTypes\<close>: its reachable states;
    \<open>UsbDevice\<close>: \<^verbatim>\<open>usb/mod.rs\<close> with what the tools find of it.
  \<^item> \<open>Operator\<close>: mouse commands and bulk tests from the typed line to the wire.
  \<^item> \<open>Firmware\<close>: all spawned tasks over the state they share, as an executable step function whose
    argument is the scheduler's choice; the component systems are its projections.  \<open>Isolation\<close>: what its
    tasks cannot do to each other, and where its events go; \<open>Panel\<close>: the operator's side of it as an
    abstract machine, which it refines.
  \<^item> \<open>Tools\<close>, \<open>Client\<close>: \<^verbatim>\<open>tools/control-client\<close>; \<open>EventStream\<close>: \<^verbatim>\<open>tools/events-consumer\<close> and the way of
    an event from the inbox to the host's line.

  A Rust struct is a record with prefixed fields, an enum a datatype, an integer a word of its width
  (\<^verbatim>\<open>usize\<close> a natural number where the source checks or the platform cannot overflow), a
  \<^verbatim>\<open>Result\<close> a sum whose left side is the error, a panic or a future that is never ready the value
  \<open>None\<close>.  Channels are lists with the capacity written out, static cells are fields of the state that
  shares them.

  \<^bold>\<open>What the lemmas show.\<close>

  \<^item> The link: every decoder accepts exactly what its encoder writes and detects short bursts; the
    dispatcher refines a stateless specification and never panics; the reassembler finds the packets in
    noise; over the strobes and nibbles of the wire the host receives exactly the prescribed replies,
    and the downloaded blocks are the image.
  \<^item> The wires: the framer decodes every frame in the timing limits; rings lose nothing below their
    capacity; the programs' waveforms are computed instruction by instruction, which also shows where
    they miss their purpose (the oversamplers' bit offset, for which a silent AUX wire counts damaged
    frames for ever; the transmitter's late data); the handshakes of
    Byte, ECP and EPP mode carry every byte once for any host that holds its lines long enough.
  \<^item> The whole: under every schedule the parts keep their contracts; the data plane behaves, on any input, as
    if it were alone; every event is delivered, waiting or counted; the operator's side refines the panel,
    whatever the others do; and nothing but the operator's requests reaches the keyboard transmitter.
  \<^item> The chip: the register values make each DMA ring carry its own FIFO, and no line has two drivers.
  \<^item> The machine: a script is typed only on evidence, the queue of raw requests is served in order and
    drains, and the typed script loads Stage 0; at the end of this theory the way from the first
    keystrokes to the running Stage 0.
  \<^item> The port's modes: the hardware is consistent after any sequence of mode changes; a handshake is
    sound and ends in bounded time, and completes with a host that is slow enough for the polling.
  \<^item> USB and the tools: transfers, frames, lines, replies and events arrive as they were sent; the
    control interface keeps its types whatever it is sent; the tools find the device's ports.

  \<^bold>\<open>Bounds and fuel.\<close>  Loops over data are structural or have a measure.  The serve loop takes the number
  of its rounds as an argument; the theorems count them exactly: one per frame, so the number of frames
  of the stream is enough.  The PIO machine runs for as many cycles as it is given inputs, and the
  wire theorems give the length of the input.  A wait without a deadline (\<^verbatim>\<open>wait_for_start\<close>, a read from
  an empty ring) is a partial function or an option; waits with a deadline end because every poll moves
  the clock.  The event writer is given at least as many turns as the inbox has places.

  \<^bold>\<open>Parameters.\<close>  The DMA sniffer's checksum unit, the addresses and request lines of the FIFOs and
  where the linker places the rings, the numbering of the USB interfaces, the endpoints' failures, the time and the timers'
  lateness, the Stage 0 images (which a build step assembles) and the event serializer are arguments of
  the definitions that use them.  Of the serializer two things are assumed, as its documentation states
  them: a frame ends with its only zero byte, and decoding inverts encoding between types of one shape.

  \<^bold>\<open>Not modelled.\<close>  The USB descriptors, which the library makes,
  and the interrupt bindings only call libraries and keep no state; the heartbeat's loop is modelled on
  its own, since no task spawns it; the bulk reader discards what it
  reads; a turn of a task runs as a whole, so what another task does while the first one waits in the
  middle of a turn (for an endpoint, or within a round of the serve loop) counts as before or after it;
  log texts and the event consumer's timestamps are left out; the DOS assembly sources are the other side of the link,
  of which only the receive loop and the DEBUG commands are modelled, as the host.
\<close>

subsection \<open>From the host's first keystrokes to Stage 0\<close>

definition host_class :: "frame_kind \<Rightarrow> machine_class" where
  "host_class k = (if k = FkXt then Xt else At)"

definition candidate :: "frame_kind \<Rightarrow> nat \<Rightarrow> classifier" where
  "candidate k n = (if k = FkXt then XtCandidate (of_nat n) else AtCandidate (of_nat n))"

lemma frames_detect:
  assumes "\<forall>f \<in> set fs. frame_usable f \<and> pf_kind f = k" "k = FkAt \<or> k = FkXt"
  shows "foldl (\<lambda>v f. supervisor_step v (KbdFrame f)) (supervisor_init cell) fs =
    \<lparr>sv_classifier = (if fs = [] then Unknown else if length fs < 3 then candidate k (length fs)
                      else Confirmed (host_class k)),
     sv_inject_trigger = (if length fs < 3 then None else Some (host_class k)), sv_lifecycle = cell\<rparr>"
  using assms(1)
proof (induction fs rule: rev_induct)
  case Nil
  then show ?case by (simp add: supervisor_init_def classifier_new_def)
next
  case (snoc f fs)
  note defs = supervisor_step_def ingest_kbd_frame_def saturating_inc_def candidate_def host_class_def
    const_defs Let_def
  have "length fs = 0 \<or> length fs = 1 \<or> length fs = 2 \<or> 3 \<le> length fs" by arith
  then consider "fs = []" | "length fs = 1" | "length fs = 2" | "3 \<le> length fs" by auto
  then show ?case
  proof cases
    case 1
    then show ?thesis using snoc assms(2) by (auto simp: defs)
  next
    case 2
    then have "fs \<noteq> []" by auto
    with 2 show ?thesis using snoc assms(2) by (auto simp: defs)
  next
    case 3
    then have "fs \<noteq> []" by auto
    with 3 show ?thesis using snoc assms(2) by (auto simp: defs)
  next
    case 4
    then have "fs \<noteq> []" by auto
    with 4 show ?thesis using snoc assms(2) by (auto simp: defs)
  qed
qed

lemma run_frames:
  "ps2_run at_bin xt_bin cell (map (Observed \<circ> KbdFrame) fs)
     ((ps2_init cell)\<lparr>sy_sv := foldl (\<lambda>v f. supervisor_step v (KbdFrame f)) (supervisor_init cell) fs\<rparr>)"
proof (induction fs rule: rev_induct)
  case Nil
  have "(ps2_init cell)\<lparr>sy_sv := supervisor_init cell\<rparr> = ps2_init cell" by (simp add: ps2_init_def)
  then show ?case by (simp add: ps2_run.boot)
next
  case (snoc f fs)
  from run_observe [OF snoc, of "KbdFrame f"] show ?case by simp
qed

text \<open>
  C3. Bootstrapping.  A host sends three or more keystrokes, all in one of the two formats, within the
  timing limits of the wire.  The framer, fed with the levels of the wire, decodes them, the classifier settles on the class, the
  supervisor raises the trigger, the injector types the script of that class; and a DEBUG that reads
  the keystrokes in the class's scancode set ends with the class's Stage 0 image at the origin and
  started there, while the lifecycle says that Stage 0 is being served.  This is what the parts are
  made for; the oversampler that should feed the framer misreads its words, so that the firmware as a
  whole does not get there (theory \<open>Firmware\<close>).
\<close>

theorem keystrokes_boot_stage0:
  assumes "idle_at f e" "stream_ok e ws" "3 \<le> length ws"
    and "k = FkAt \<or> k = FkXt" "\<forall>w \<in> set ws. fst (wf_meaning w) = k"
    and "bin = (if k = FkXt then xt_bin else at_bin)" "length bin \<le> 0xFF00"
  shows "\<exists>s. ps2_run at_bin xt_bin cell
      (map (Observed \<circ> KbdFrame) (snd (feed f (concat (map wf_samples ws)))) @ [Woke, Finished]) s \<and>
    lifecycle_get (sv_lifecycle (sy_sv s)) = ServeStage0Download \<and>
    (let d' = debug_session (host_text (host_class k) (sy_sent s)) d in
       db_started d' = Some STAGE0_ORIGIN \<and>
       (\<forall>i < length bin. db_memory d' (STAGE0_ORIGIN + of_nat i) = bin ! i))"
proof -
  define fs where "fs = snd (feed f (concat (map wf_samples ws)))"
  have m: "map meaning fs = map wf_meaning ws"
    using feed_wire_frames [OF assms(1,2)] by (simp add: fs_def)
  have "frame_usable p \<and> pf_kind p = k" if "p \<in> set fs" for p
  proof -
    from that have "meaning p \<in> wf_meaning ` set ws" using m by (metis image_eqI list.set_map)
    then obtain w where w: "w \<in> set ws" "meaning p = wf_meaning w" by blast
    with assms(4,5) show ?thesis by (cases w) (auto simp: meaning_def frame_usable_def)
  qed
  moreover have "length fs = length ws" using arg_cong [OF m, of length] by simp
  ultimately have sv: "foldl (\<lambda>v f. supervisor_step v (KbdFrame f)) (supervisor_init cell) fs =
      \<lparr>sv_classifier = Confirmed (host_class k), sv_inject_trigger = Some (host_class k), sv_lifecycle = cell\<rparr>"
    using frames_detect [of fs k cell] assms(3,4) by auto
  obtain ops where ops: "type_debug_stage0 (host_class k) bin = Some ops"
    "let d' = debug_session (host_text (host_class k) ops) d in
       db_started d' = Some STAGE0_ORIGIN \<and>
       (\<forall>i < length bin. db_memory d' (STAGE0_ORIGIN + of_nat i) = bin ! i)"
    using script_loads_stage0 [OF assms(7), of "host_class k" d] by (auto simp: Let_def)
  have "type_script at_bin xt_bin (host_class k) = Some ops"
    using ops(1) assms(4,6) by (auto simp: type_script_def host_class_def)
  from run_script [OF run_frames _ _ this, of cell fs] sv ops(2) show ?thesis
    by (auto simp: ps2_init_def fs_def [symmetric])
qed

text \<open>Three keystrokes of an AT host.\<close>

theorem keystrokes_boot_stage0_witness:
  "\<exists>s. ps2_run [0x90, 0xC3] [] 0
      (map (Observed \<circ> KbdFrame) (snd (feed (framer_new\<lparr>fr_last_clk := Some True\<rparr>) (concat (map wf_samples
         (map (\<lambda>t. AtWire 0x1C (example_cells (map (bit (pack_at_frame 0x1C)) [0..<11]) t)) [100, 2000, 4000])))))
       @ [Woke, Finished]) s \<and>
    (let d' = debug_session (host_text At (sy_sent s)) \<lparr>db_memory = \<lambda>_. 0, db_started = None\<rparr> in
       db_started d' = Some 0x100 \<and> db_memory d' 0x100 = 0x90 \<and> db_memory d' 0x101 = 0xC3)"
proof -
  let ?ws = "map (\<lambda>t. AtWire 0x1C (example_cells (map (bit (pack_at_frame 0x1C)) [0..<11]) t)) [100, 2000, 4000]"
  have "idle_at (framer_new\<lparr>fr_last_clk := Some True\<rparr>) 0" "stream_ok 0 ?ws"
    by (simp_all add: idle_at_def framer_new_def example_cells_def upt_rec cell_ok_def gap_ok_def near_def)
  from keystrokes_boot_stage0 [OF this, of FkAt "[0x90, 0xC3]" "[]" "[0x90, 0xC3]" 0
      "\<lparr>db_memory = \<lambda>_. 0, db_started = None\<rparr>"]
  show ?thesis
    by (auto simp: host_class_def Let_def All_less_Suc const_defs simp del: wf_samples.simps)
qed

end
